(* ===== verification/Prelude.thy ===== *)
theory Prelude
  imports Main "HOL-Library.Word" "HOL-Library.AList" "HOL-Library.Sublist"
begin

text \<open>
  Shared vocabulary of the development: the machine integers and byte strings of the C++
  code, results that may be an exception, and generic lemmas on words, lists and
  association lists that the component theories use.
\<close>

unbundle bit_operations_syntax

type_synonym u8 = "8 word"
type_synonym u32 = "32 word"
type_synonym u64 = "64 word"

text \<open>A \<^verbatim>\<open>std::string\<close> of the code is a sequence of bytes.\<close>

type_synonym bytes = "u8 list"

text \<open>A string literal of the code as its bytes.\<close>

definition str :: "string \<Rightarrow> bytes" where
  "str s = map of_char s"

text \<open>
  The exceptions of the code. The only one the sources throw themselves is the
  \<^verbatim>\<open>std::runtime_error("buffer underrun")\<close> of \<^verbatim>\<open>Reader::require\<close>; the others come from
  \<^verbatim>\<open>std::stoi\<close>, \<^verbatim>\<open>std::stoul\<close>, \<^verbatim>\<open>std::string::substr\<close> and \<^verbatim>\<open>std::unordered_map::at\<close>.
\<close>

datatype error = Underrun | InvalidArgument | OutOfRange

type_synonym 'a result = "error + 'a"

definition rbind :: "'a result \<Rightarrow> ('a \<Rightarrow> 'b result) \<Rightarrow> 'b result" where
  "rbind m f = (case m of Inl e \<Rightarrow> Inl e | Inr a \<Rightarrow> f a)"

named_theorems reader_simps \<open>what each read of a Reader does to the unread bytes\<close>

lemma length_str [simp]: "length (str s) = length s"
  by (simp add: str_def)

lemma rbind_simps [simp]:
  "rbind (Inl e) f = Inl e"
  "rbind (Inr a) f = f a"
  by (simp_all add: rbind_def)

lemma rbind_Inr_iff: "rbind m f = Inr y \<longleftrightarrow> (\<exists>a. m = Inr a \<and> f a = Inr y)"
  by (cases m) auto

lemma rbind_assoc: "rbind (rbind m f) g = rbind m (\<lambda>a. rbind (f a) g)"
  by (cases m) auto

lemma rbind_if [simp]:
  "rbind (if P then Inl e else Inr x) f = (if P then Inl e else f x)"
  by simp

subsection \<open>Words\<close>

lemma unat_minus_minus_1:
  fixes a b :: "'a::len word"
  assumes "b < a"
  shows "unat (a - b - 1) = unat a - unat b - 1"
proof -
  have ba: "unat (a - b) = unat a - unat b"
    using assms by (simp add: unat_sub)
  have "unat b < unat a"
    using assms by (simp add: word_less_nat_alt)
  with ba have "1 \<le> a - b"
    by (simp add: word_le_nat_alt Suc_le_eq)
  then show ?thesis
    by (simp add: unat_sub ba)
qed

lemma unat_plus_1:
  fixes a :: "'a::len word"
  assumes "unat a + 1 < 2 ^ LENGTH('a)"
  shows "unat (a + 1) = unat a + 1"
  using assms by (simp add: unat_word_ariths)

lemma word_less_plus_1:
  fixes a :: "'a::len word"
  assumes "a \<noteq> - 1"
  shows "a < a + 1"
proof -
  have "unat (- 1 :: 'a word) = 2 ^ LENGTH('a) - 1"
    by (simp add: unsigned_minus_1_eq_mask mask_eq_exp_minus_1)
  then have "unat a \<noteq> 2 ^ LENGTH('a) - 1"
    using assms by (metis word_unat_eq_iff)
  then have "unat a + 1 < 2 ^ LENGTH('a)"
    using unsigned_less[of a, where ?'a = nat] by linarith
  then show ?thesis by (simp add: word_less_nat_alt unat_plus_1)
qed

lemma unat_plus_of_nat:
  fixes a :: "'a::len word"
  assumes "unat a + n < 2 ^ LENGTH('a)"
  shows "unat (a + of_nat n) = unat a + n"
  using assms by (simp add: unat_word_ariths unat_of_nat take_bit_eq_mod)

lemma word_neq_0_1_le: "(a :: 'a::len word) \<noteq> 0 \<longleftrightarrow> 1 \<le> a"
  by (metis linorder_not_le word_less_1)

lemma ucast_ucast_32_64 [simp]: "(ucast (ucast (x :: u32) :: u64) :: u32) = x"
  by (rule bit_word_eqI) (simp add: bit_simps)

subsection \<open>Lists and association lists\<close>

lemma AList_update_fst_distinct [simp]:
  "distinct (map fst (AList.update k v al)) \<longleftrightarrow> distinct (map fst al)"
  by (simp add: update_keys)

lemma AList_update_new: "k \<notin> fst ` set al \<Longrightarrow> AList.update k v al = al @ [(k, v)]"
  by (induction al) auto

lemma fold_AList_update_new:
  "distinct (map fst (acc @ al)) \<Longrightarrow> fold (\<lambda>p. AList.update (fst p) (snd p)) al acc = acc @ al"
  by (induction al arbitrary: acc) (auto simp: AList_update_new)

lemma set_AList_update: "set (AList.update k v al) \<subseteq> insert (k, v) (set al)"
  by (induction al) auto

lemma set_AList_delete: "set (AList.delete k al) \<subseteq> set al"
  by (auto simp: AList.delete_eq)

lemma distinct_AList_delete: "distinct (map fst al) \<Longrightarrow> distinct (map fst (AList.delete k al))"
  by (rule AList.distinct_delete)

end
