(* ===== verification/Buffer.thy ===== *)
theory Buffer
  imports Prelude
begin

text \<open>
  The binary buffer of \<^verbatim>\<open>util/buffer.h\<close>: \<^verbatim>\<open>Writer\<close> appends little-endian integers and
  length-prefixed strings to a byte vector, \<^verbatim>\<open>Reader\<close> consumes them from a position and
  throws when fewer bytes are left than a read needs. A \<open>Writer\<close> is its \<^verbatim>\<open>buf_\<close>; each
  \<open>put\<close> takes the value and the buffer and returns the grown buffer. A \<open>Reader\<close> keeps the
  data and the position; each \<open>get\<close> returns the value and the advanced reader or the
  exception. The locale \<open>codec\<close> is the contract every encoder and decoder pair of the
  program keeps.
\<close>

section \<open>Writer\<close>

type_synonym Writer = bytes

definition putU8 :: "u8 \<Rightarrow> Writer \<Rightarrow> Writer" where
  "putU8 v w = w @ [v]"

definition putLE :: "nat \<Rightarrow> 'a::len word \<Rightarrow> Writer \<Rightarrow> Writer" where
  "putLE n v w = w @ map (\<lambda>i. ucast (drop_bit (i * 8) v AND 0xFF)) [0..<n]"

definition putU32 :: "u32 \<Rightarrow> Writer \<Rightarrow> Writer" where
  "putU32 v w = putLE 4 v w"

definition putU64 :: "u64 \<Rightarrow> Writer \<Rightarrow> Writer" where
  "putU64 v w = putLE 8 v w"

definition putBool :: "bool \<Rightarrow> Writer \<Rightarrow> Writer" where
  "putBool v w = putU8 (if v then 1 else 0) w"

definition putBytes :: "bytes \<Rightarrow> Writer \<Rightarrow> Writer" where
  "putBytes s w = putU32 (of_nat (length s)) w @ s"

section \<open>Reader\<close>

record Reader =
  rdata :: bytes
  rpos :: nat

definition mkReader :: "bytes \<Rightarrow> Reader" where
  "mkReader s = \<lparr>rdata = s, rpos = 0\<rparr>"

definition require :: "nat \<Rightarrow> Reader \<Rightarrow> unit result" where
  "require n r = (if rpos r + n > length (rdata r) then Inl Underrun else Inr ())"

definition getU8 :: "Reader \<Rightarrow> (u8 \<times> Reader) result" where
  "getU8 r = rbind (require 1 r) (\<lambda>_. Inr (rdata r ! rpos r, r\<lparr>rpos := rpos r + 1\<rparr>))"

text \<open>The loop of \<open>getU32\<close> and \<open>getU64\<close>: \<open>k\<close> rounds left, round number \<open>i\<close>.\<close>

fun getLE :: "nat \<Rightarrow> nat \<Rightarrow> 'a::len word \<Rightarrow> Reader \<Rightarrow> 'a word \<times> Reader" where
  "getLE 0 i v r = (v, r)"
| "getLE (Suc k) i v r =
     getLE k (Suc i) (v OR push_bit (i * 8) (ucast (rdata r ! rpos r))) (r\<lparr>rpos := rpos r + 1\<rparr>)"

definition getU32 :: "Reader \<Rightarrow> (u32 \<times> Reader) result" where
  "getU32 r = rbind (require 4 r) (\<lambda>_. Inr (getLE 4 0 0 r))"

definition getU64 :: "Reader \<Rightarrow> (u64 \<times> Reader) result" where
  "getU64 r = rbind (require 8 r) (\<lambda>_. Inr (getLE 8 0 0 r))"

definition getBool :: "Reader \<Rightarrow> (bool \<times> Reader) result" where
  "getBool r = rbind (getU8 r) (\<lambda>(v, r). Inr (v \<noteq> 0, r))"

definition getBytes :: "Reader \<Rightarrow> (bytes \<times> Reader) result" where
  "getBytes r = rbind (getU32 r) (\<lambda>(n, r). rbind (require (unat n) r) (\<lambda>_.
     Inr (take (unat n) (drop (rpos r) (rdata r)), r\<lparr>rpos := rpos r + unat n\<rparr>)))"

definition reof :: "Reader \<Rightarrow> bool" where
  "reof r \<longleftrightarrow> rpos r \<ge> length (rdata r)"

definition remaining :: "Reader \<Rightarrow> nat" where
  "remaining r = length (rdata r) - rpos r"

text \<open>
  A counted loop \<^verbatim>\<open>for (uint32_t i = 0; i < n; i++) out.push_back(decode(r))\<close>, the shape
  every decoder of a vector has.
\<close>

fun getMany :: "(Reader \<Rightarrow> ('a \<times> Reader) result) \<Rightarrow> nat \<Rightarrow> Reader \<Rightarrow> ('a list \<times> Reader) result" where
  "getMany dec 0 r = Inr ([], r)"
| "getMany dec (Suc n) r =
     rbind (dec r) (\<lambda>(x, r). rbind (getMany dec n r) (\<lambda>(xs, r). Inr (x # xs, r)))"

section \<open>The unread bytes of a Reader\<close>

definition unread :: "Reader \<Rightarrow> bytes" where
  "unread r = drop (rpos r) (rdata r)"

definition advance :: "nat \<Rightarrow> Reader \<Rightarrow> Reader" where
  "advance n r = r\<lparr>rpos := rpos r + n\<rparr>"

fun le_val :: "bytes \<Rightarrow> 'a::len word" where
  "le_val [] = 0"
| "le_val (b # bs) = ucast b OR push_bit 8 (le_val bs)"

definition le_bytes :: "nat \<Rightarrow> 'a::len word \<Rightarrow> bytes" where
  "le_bytes n v = map (\<lambda>i. ucast (drop_bit (i * 8) v AND 0xFF)) [0..<n]"

lemma unread_mkReader [simp]: "unread (mkReader s) = s"
  by (simp add: unread_def mkReader_def)

lemma unread_advance [simp]: "unread (advance n r) = drop n (unread r)"
  by (simp add: unread_def advance_def add.commute)

lemma advance_advance [simp]: "advance n (advance m r) = advance (m + n) r"
  by (simp add: advance_def add.assoc)

lemma advance_0 [simp]: "advance 0 r = r"
  by (simp add: advance_def)

lemma reof_unread: "reof r \<longleftrightarrow> unread r = []"
  by (simp add: reof_def unread_def)

lemma remaining_unread: "remaining r = length (unread r)"
  by (simp add: remaining_def unread_def)

lemma length_le_bytes [simp]: "length (le_bytes n v) = n"
  by (simp add: le_bytes_def)

lemma require_unread: "n > 0 \<Longrightarrow> require n r = (if length (unread r) < n then Inl Underrun else Inr ())"
  by (auto simp: require_def unread_def)

lemma nth_rdata_unread: "unread r \<noteq> [] \<Longrightarrow> rdata r ! rpos r = hd (unread r)"
  by (simp add: unread_def hd_drop_conv_nth)

lemma getLE_unread:
  "k \<le> length (unread r) \<Longrightarrow>
    getLE k i v r = (v OR push_bit (8 * i) (le_val (take k (unread r))), advance k r)"
proof (induction k arbitrary: i v r)
  case 0
  then show ?case by simp
next
  case (Suc k)
  then obtain b bs where b: "unread r = b # bs"
    by (cases "unread r") auto
  have r': "r\<lparr>rpos := Suc (rpos r)\<rparr> = advance 1 r"
    by (simp add: advance_def)
  have "k \<le> length (unread (advance 1 r))"
    using Suc.prems b by simp
  from Suc.IH[OF this] show ?case
    using b by (simp add: r' nth_rdata_unread push_bit_or or.assoc algebra_simps)
qed

lemma getU8_unread [reader_simps]:
  "getU8 r = (if unread r = [] then Inl Underrun else Inr (hd (unread r), advance 1 r))"
  by (simp add: getU8_def require_unread nth_rdata_unread) (simp add: advance_def)

lemma getU32_unread [reader_simps]:
  "getU32 r = (if length (unread r) < 4 then Inl Underrun
     else Inr (le_val (take 4 (unread r)), advance 4 r))"
  by (simp add: getU32_def require_unread getLE_unread)

lemma getU64_unread [reader_simps]:
  "getU64 r = (if length (unread r) < 8 then Inl Underrun
     else Inr (le_val (take 8 (unread r)), advance 8 r))"
  by (simp add: getU64_def require_unread getLE_unread)

lemma getBool_unread [reader_simps]:
  "getBool r = (if unread r = [] then Inl Underrun else Inr (hd (unread r) \<noteq> 0, advance 1 r))"
  by (simp add: getBool_def getU8_unread)

lemma getBytes_unread [reader_simps]:
  "getBytes r = (if length (unread r) < 4 then Inl Underrun
     else let n = unat (le_val (take 4 (unread r)) :: u32) in
       if length (unread r) < 4 + n then Inl Underrun
       else Inr (take n (drop 4 (unread r)), advance (4 + n) r))"
  by (auto simp: getBytes_def getU32_unread require_def Let_def unread_def advance_def
        add.assoc add.commute split: if_splits)

lemma getBytes_length: "getBytes r = Inr (s, r') \<Longrightarrow> length s < 2 ^ 32"
  using unsigned_less[of "le_val (take 4 (unread r)) :: u32", where ?'a = nat]
  by (auto simp: getBytes_unread Let_def split: if_splits)

section \<open>Little-endian integers\<close>

lemma le_bytes_Suc:
  "le_bytes (Suc n) v = ucast (v AND 0xFF) # le_bytes n (drop_bit 8 v)"
  by (simp add: le_bytes_def upt_conv_Cons map_Suc_upt[symmetric] del: upt_Suc)
    (simp add: add.commute)

lemma le_val_le_bytes: "le_val (le_bytes n (v :: 'a::len word)) = take_bit (8 * n) v"
proof (induction n arbitrary: v)
  case 0
  then show ?case by (simp add: le_bytes_def)
next
  case (Suc n)
  have ff: "(0xFF :: 'a word) = mask 8"
    by (simp add: mask_eq_exp_minus_1)
  have restore8: "8 + (m - 8) = m" if "\<not> m < 8" for m :: nat
    using that by simp
  show ?case
    by (rule bit_word_eqI, rename_tac m, case_tac "m < 8")
      (auto simp: le_bytes_Suc Suc.IH bit_simps ff restore8)
qed

lemma le_val_le_bytes_64 [simp]: "le_val (le_bytes 8 (v :: u64)) = v"
  by (simp add: le_val_le_bytes take_bit_word_eq_self)

lemma le_val_le_bytes_32 [simp]: "le_val (le_bytes 4 (v :: u32)) = v"
  by (simp add: le_val_le_bytes take_bit_word_eq_self)

lemma le_bytes_eval:
  "le_bytes 4 v = map (\<lambda>i. ucast (drop_bit i v AND 0xFF)) [0, 8, 16, 24]"
  "le_bytes 8 v = map (\<lambda>i. ucast (drop_bit i v AND 0xFF)) [0, 8, 16, 24, 32, 40, 48, 56]"
proof -
  have "[0..<4] = [0, 1, 2, 3 :: nat]" "[0..<8] = [0, 1, 2, 3, 4, 5, 6, 7 :: nat]"
    by code_simp+
  then show
    "le_bytes 4 v = map (\<lambda>i. ucast (drop_bit i v AND 0xFF)) [0, 8, 16, 24]"
    "le_bytes 8 v = map (\<lambda>i. ucast (drop_bit i v AND 0xFF)) [0, 8, 16, 24, 32, 40, 48, 56]"
    by (simp_all add: le_bytes_def)
qed

lemma putU8_append: "putU8 v w = w @ [v]"
  by (simp add: putU8_def)

lemma putU32_append: "putU32 v w = w @ le_bytes 4 v"
  by (simp add: putU32_def putLE_def le_bytes_def)

lemma putU64_append: "putU64 v w = w @ le_bytes 8 v"
  by (simp add: putU64_def putLE_def le_bytes_def)

lemma putBool_append: "putBool v w = w @ [if v then 1 else 0]"
  by (simp add: putBool_def putU8_def)

lemma putBytes_append: "putBytes s w = w @ le_bytes 4 (of_nat (length s) :: u32) @ s"
  by (simp add: putBytes_def putU32_append)

lemmas put_append = putU8_append putU32_append putU64_append putBool_append putBytes_append

abbreviation short :: "bytes \<Rightarrow> bool" where
  "short s \<equiv> length s < 2 ^ 32"

lemma unat_length_short [simp]: "short s \<Longrightarrow> unat (of_nat (length s) :: u32) = length s"
  by (simp add: unat_of_nat take_bit_eq_mod)

section \<open>The contract of an encoder and its decoder\<close>

text \<open>
  \<open>enc\<close> appends to the buffer it is given; \<open>dec\<close> reads back what \<open>enc\<close> wrote, whatever
  follows it, and stops right behind it; and \<open>dec\<close> throws on an encoding that is cut short.
  \<open>ok\<close> are the values that fit the format.
\<close>

locale codec =
  fixes enc :: "'a \<Rightarrow> Writer \<Rightarrow> Writer"
    and dec :: "Reader \<Rightarrow> ('a \<times> Reader) result"
    and ok :: "'a \<Rightarrow> bool"
  assumes enc_append: "enc x w = w @ enc x []"
    and dec_enc: "ok x \<Longrightarrow> unread r = enc x [] @ rest \<Longrightarrow>
      dec r = Inr (x, advance (length (enc x [])) r)"
    and dec_torn: "ok x \<Longrightarrow> strict_prefix (unread r) (enc x []) \<Longrightarrow> dec r = Inl Underrun"
begin

lemma dec_mkReader: "ok x \<Longrightarrow> dec (mkReader (enc x [])) = Inr (x, advance (length (enc x [])) (mkReader (enc x [])))"
  by (rule dec_enc[where rest = "[]"]) simp_all

lemma dec_next:
  assumes "ok x" "unread r = enc x [] @ rest"
  obtains r' where "dec r = Inr (x, r')" "unread r' = rest"
  using dec_enc[OF assms] assms(2) by simp

lemma enc_prefix_inj:
  assumes "ok x" "ok y" "enc x [] @ s = enc y [] @ t"
  shows "x = y \<and> s = t"
proof -
  let ?r = "mkReader (enc x [] @ s)"
  have "dec ?r = Inr (x, advance (length (enc x [])) ?r)"
    using assms(1) by (rule dec_enc) simp
  moreover have "dec ?r = Inr (y, advance (length (enc y [])) ?r)"
    using assms(2) by (rule dec_enc) (simp add: assms(3))
  ultimately show ?thesis using assms(3) by auto
qed

lemma enc_nonempty: "ok x \<Longrightarrow> ok y \<Longrightarrow> x \<noteq> y \<Longrightarrow> enc x [] \<noteq> []"
  using enc_prefix_inj[of x y "enc y []" "[]"] by auto

lemma enc_many_append: "fold enc xs w = w @ fold enc xs []"
proof (induction xs arbitrary: w)
  case (Cons x xs)
  show ?case
    using Cons.IH[of "enc x w"] Cons.IH[of "enc x []"] enc_append[of x w] by simp
qed simp

lemma enc_many_Cons: "fold enc (x # xs) [] = enc x [] @ fold enc xs []"
  by (simp add: enc_many_append[of xs "enc x []"])

text \<open>A counted loop reads back what a loop over the vector wrote.\<close>

lemma getMany_enc:
  assumes "\<forall>x\<in>set xs. ok x" "unread r = fold enc xs [] @ rest"
  shows "getMany dec (length xs) r = Inr (xs, advance (length (fold enc xs [])) r)"
  using assms
proof (induction xs arbitrary: r)
  case (Cons x xs)
  then have u: "unread r = enc x [] @ fold enc xs [] @ rest" and "ok x"
    by (simp_all add: enc_many_append[of xs "enc x []"])
  then have d: "dec r = Inr (x, advance (length (enc x [])) r)"
    by (intro dec_enc)
  have "getMany dec (length xs) (advance (length (enc x [])) r) =
      Inr (xs, advance (length (fold enc xs [])) (advance (length (enc x [])) r))"
    using Cons.prems u by (intro Cons.IH) simp_all
  then show ?case
    by (simp add: d enc_many_append[of xs "enc x []"])
qed simp

text \<open>A counted loop throws on a vector that is cut short.\<close>

lemma getMany_torn:
  assumes "\<forall>x\<in>set xs. ok x" "strict_prefix (unread r) (fold enc xs [])"
  shows "getMany dec (length xs) r = Inl Underrun"
  using assms
proof (induction xs arbitrary: r)
  case (Cons x xs)
  then have "ok x" and sp: "strict_prefix (unread r) (enc x [] @ fold enc xs [])"
    by (simp_all add: enc_many_append[of xs "enc x []"])
  show ?case
  proof (cases "strict_prefix (unread r) (enc x [])")
    case True
    then show ?thesis using dec_torn \<open>ok x\<close> by simp
  next
    case False
    with sp obtain u where u: "unread r = enc x [] @ u" "strict_prefix u (fold enc xs [])"
      by (auto simp: strict_prefix_def prefix_append)
    then have "dec r = Inr (x, advance (length (enc x [])) r)"
      using \<open>ok x\<close> by (intro dec_enc)
    moreover have "getMany dec (length xs) (advance (length (enc x [])) r) = Inl Underrun"
      using Cons.prems u by (intro Cons.IH) simp_all
    ultimately show ?thesis by simp
  qed
qed simp

end

section \<open>Codecs of the buffer's own types, pairs and vectors\<close>

lemma strict_prefix_append_cases:
  assumes "strict_prefix u (a @ b)"
  obtains "strict_prefix u a" | v where "u = a @ v" "strict_prefix v b"
proof (cases "u = a \<or> \<not> prefix u a")
  case True
  with assms show ?thesis
    by (intro that(2)[of "drop (length a) u"]) (auto simp: strict_prefix_def prefix_append)
next
  case False
  then show ?thesis by (intro that(1)) (simp add: strict_prefix_def)
qed

lemma strict_prefix_length: "strict_prefix u v \<Longrightarrow> length u < length v"
  by (metis prefix_length_less)

lemma strict_prefix_singleton: "strict_prefix u [x] \<Longrightarrow> u = []"
  using strict_prefix_length[of u "[x]"] by simp

interpretation u8: codec putU8 getU8 "\<lambda>_. True"
  by unfold_locales (auto simp: put_append reader_simps dest: strict_prefix_singleton)

interpretation u32: codec putU32 getU32 "\<lambda>_. True"
  by unfold_locales (auto simp: put_append reader_simps dest: strict_prefix_length)

interpretation u64: codec putU64 getU64 "\<lambda>_. True"
  by unfold_locales (auto simp: put_append reader_simps dest: strict_prefix_length)

interpretation bool: codec putBool getBool "\<lambda>_. True"
  by unfold_locales (auto simp: put_append reader_simps dest: strict_prefix_singleton)

interpretation str: codec putBytes getBytes short
proof unfold_locales
  fix s :: bytes and r
  assume s: "short s" "strict_prefix (unread r) (putBytes s [])"
  then have "strict_prefix (unread r) (le_bytes 4 (of_nat (length s) :: u32) @ s)"
    by (simp add: put_append)
  then show "getBytes r = Inl Underrun"
    by (cases rule: strict_prefix_append_cases)
      (use s(1) in \<open>auto simp: reader_simps Let_def dest: strict_prefix_length\<close>)
qed (auto simp: put_append reader_simps Let_def)

definition encPair :: "('a \<Rightarrow> Writer \<Rightarrow> Writer) \<Rightarrow> ('b \<Rightarrow> Writer \<Rightarrow> Writer) \<Rightarrow> 'a \<times> 'b \<Rightarrow> Writer \<Rightarrow> Writer" where
  "encPair f g p w = g (snd p) (f (fst p) w)"

definition decPair :: "(Reader \<Rightarrow> ('a \<times> Reader) result) \<Rightarrow> (Reader \<Rightarrow> ('b \<times> Reader) result) \<Rightarrow>
    Reader \<Rightarrow> (('a \<times> 'b) \<times> Reader) result" where
  "decPair f g r = rbind (f r) (\<lambda>(x, r). rbind (g r) (\<lambda>(y, r). Inr ((x, y), r)))"

definition encVec :: "('a \<Rightarrow> Writer \<Rightarrow> Writer) \<Rightarrow> 'a list \<Rightarrow> Writer \<Rightarrow> Writer" where
  "encVec f xs w = fold f xs (putU32 (of_nat (length xs)) w)"

definition decVec :: "(Reader \<Rightarrow> ('a \<times> Reader) result) \<Rightarrow> Reader \<Rightarrow> ('a list \<times> Reader) result" where
  "decVec f r = rbind (getU32 r) (\<lambda>(n, r). getMany f (unat n) r)"

lemma codec_pair:
  assumes A: "codec encA decA okA" and B: "codec encB decB okB"
  shows "codec (encPair encA encB) (decPair decA decB) (\<lambda>p. okA (fst p) \<and> okB (snd p))"
proof unfold_locales
  have enc: "encPair encA encB p w = w @ encA (fst p) [] @ encB (snd p) []" for p w
    unfolding encPair_def
    by (subst codec.enc_append[OF B], subst codec.enc_append[OF A]) simp
  fix x w
  show "encPair encA encB x w = w @ encPair encA encB x []"
    by (simp add: enc)
  fix r rest
  assume ok: "okA (fst x) \<and> okB (snd x)"
  {
    assume "unread r = encPair encA encB x [] @ rest"
    then have u: "unread r = encA (fst x) [] @ encB (snd x) [] @ rest"
      by (simp add: enc)
    show "decPair decA decB r = Inr (x, advance (length (encPair encA encB x [])) r)"
      using ok by (simp add: decPair_def enc codec.dec_enc[OF A _ u] codec.dec_enc[OF B, where x = "snd x" and rest = rest] u)
  }
  {
    assume "strict_prefix (unread r) (encPair encA encB x [])"
    then have "strict_prefix (unread r) (encA (fst x) [] @ encB (snd x) [])"
      by (simp add: enc)
    then show "decPair decA decB r = Inl Underrun"
    proof (cases rule: strict_prefix_append_cases)
      case 1
      then show ?thesis using ok by (simp add: decPair_def codec.dec_torn[OF A, of "fst x"])
    next
      case (2 v)
      then show ?thesis
        using ok by (simp add: decPair_def codec.dec_enc[OF A _ 2(1)] codec.dec_torn[OF B, of "snd x"])
    qed
  }
qed

lemma codec_vec:
  assumes A: "codec enc dec ok"
  shows "codec (encVec enc) (decVec dec) (\<lambda>xs. length xs < 2 ^ 32 \<and> (\<forall>x\<in>set xs. ok x))"
proof unfold_locales
  have enc: "encVec enc xs w = w @ putU32 (of_nat (length xs)) [] @ fold enc xs []" for xs w
    unfolding encVec_def
    by (subst codec.enc_many_append[OF A]) (simp add: put_append)
  fix xs w
  show "encVec enc xs w = w @ encVec enc xs []"
    by (simp add: enc)
  fix r rest
  assume ok: "length xs < 2 ^ 32 \<and> (\<forall>x\<in>set xs. ok x)"
  then have n: "unat (of_nat (length xs) :: u32) = length xs"
    by (simp add: unat_of_nat take_bit_eq_mod)
  have oks: "\<forall>x\<in>set xs. ok x" using ok by blast
  {
    assume "unread r = encVec enc xs [] @ rest"
    then have u: "unread r = putU32 (of_nat (length xs)) [] @ fold enc xs [] @ rest"
      by (simp add: enc)
    show "decVec dec r = Inr (xs, advance (length (encVec enc xs [])) r)"
      by (simp add: decVec_def enc u32.dec_enc[OF TrueI u] n codec.getMany_enc[OF A oks] u)
  }
  {
    assume "strict_prefix (unread r) (encVec enc xs [])"
    then have "strict_prefix (unread r) (putU32 (of_nat (length xs)) [] @ fold enc xs [])"
      by (simp add: enc)
    then show "decVec dec r = Inl Underrun"
    proof (cases rule: strict_prefix_append_cases)
      case 1
      then show ?thesis by (simp add: decVec_def u32.dec_torn)
    next
      case (2 v)
      then show ?thesis
        by (simp add: decVec_def u32.dec_enc[OF TrueI 2(1)] n codec.getMany_torn[OF A oks])
    qed
  }
qed

text \<open>A codec carried over to a type whose values are described by those of another.\<close>

lemma codec_conv:
  assumes A: "codec enc dec ok"
    and enc': "\<And>t w. enc' t w = enc (f t) w"
    and dec': "\<And>r. dec' r = rbind (dec r) (\<lambda>(x, r). Inr (g x, r))"
    and ok': "\<And>t. ok' t \<Longrightarrow> ok (f t) \<and> g (f t) = t"
  shows "codec enc' dec' ok'"
proof unfold_locales
  fix t w r rest
  show "enc' t w = w @ enc' t []"
    unfolding enc' by (rule codec.enc_append[OF A])
  assume "ok' t"
  then have t: "ok (f t)" "g (f t) = t" using ok' by auto
  show "dec' r = Inr (t, advance (length (enc' t [])) r)" if "unread r = enc' t [] @ rest"
    using codec.dec_enc[OF A t(1), of r rest] that t(2) by (simp add: enc' dec')
  show "dec' r = Inl Underrun" if "strict_prefix (unread r) (enc' t [])"
    using codec.dec_torn[OF A t(1), of r] that by (simp add: enc' dec')
qed

end
