(* ===== verification/Raft_Types.thy ===== *)
theory Raft_Types
  imports Buffer
begin

text \<open>
  The data of \<^verbatim>\<open>raft/types.h\<close>: identifiers, log entries, the cluster configuration and the
  commands of the key-value store, with their binary encodings. A C++ enumeration with
  underlying type \<^verbatim>\<open>uint8_t\<close> can hold any byte after a \<^verbatim>\<open>static_cast\<close>, so the enumerations have
  one more constructor for the bytes that name no enumerator.
\<close>

type_synonym NodeId = u32
type_synonym Term = u64
type_synonym LogIndex = u64

datatype EntryType = Command | Config | NoOp | OtherEntry u8

fun entryTypeByte :: "EntryType \<Rightarrow> u8" where
  "entryTypeByte Command = 0"
| "entryTypeByte Config = 1"
| "entryTypeByte NoOp = 2"
| "entryTypeByte (OtherEntry b) = b"

definition toEntryType :: "u8 \<Rightarrow> EntryType" where
  "toEntryType b = (if b = 0 then Command else if b = 1 then Config else if b = 2 then NoOp else OtherEntry b)"

record LogEntry =
  eterm :: Term
  eindex :: LogIndex
  etype :: EntryType
  edata :: bytes

definition LogEntry_encode :: "LogEntry \<Rightarrow> Writer \<Rightarrow> Writer" where
  "LogEntry_encode e w =
     putBytes (edata e) (putU8 (entryTypeByte (etype e)) (putU64 (eindex e) (putU64 (eterm e) w)))"

definition LogEntry_decode :: "Reader \<Rightarrow> (LogEntry \<times> Reader) result" where
  "LogEntry_decode r =
     rbind (getU64 r) (\<lambda>(t, r).
     rbind (getU64 r) (\<lambda>(i, r).
     rbind (getU8 r) (\<lambda>(ty, r).
     rbind (getBytes r) (\<lambda>(d, r).
     Inr (\<lparr>eterm = t, eindex = i, etype = toEntryType ty, edata = d\<rparr>, r)))))"

record ClusterConfig =
  voters :: "NodeId list"
  addresses :: "(NodeId \<times> bytes) list"

definition ClusterConfig_encode :: "ClusterConfig \<Rightarrow> Writer \<Rightarrow> Writer" where
  "ClusterConfig_encode c w =
     fold (\<lambda>p w. putBytes (snd p) (putU64 (ucast (fst p)) w)) (addresses c)
       (putU32 (of_nat (length (addresses c)))
         (fold (\<lambda>v w. putU64 (ucast v) w) (voters c)
           (putU32 (of_nat (length (voters c))) w)))"

definition ClusterConfig_decode :: "Reader \<Rightarrow> (ClusterConfig \<times> Reader) result" where
  "ClusterConfig_decode r =
     rbind (getU32 r) (\<lambda>(n, r).
     rbind (getMany (\<lambda>r. rbind (getU64 r) (\<lambda>(v, r). Inr (ucast v, r))) (unat n) r) (\<lambda>(vs, r).
     rbind (getU32 r) (\<lambda>(m, r).
     rbind (getMany (\<lambda>r. rbind (getU64 r) (\<lambda>(i, r). rbind (getBytes r) (\<lambda>(a, r). Inr ((ucast i, a), r))))
       (unat m) r) (\<lambda>(as, r).
     Inr (\<lparr>voters = vs, addresses = as\<rparr>, r)))))"

definition hasVoter :: "ClusterConfig \<Rightarrow> NodeId \<Rightarrow> bool" where
  "hasVoter c i \<longleftrightarrow> list_ex (\<lambda>v. v = i) (voters c)"

datatype CmdOp = Put | Del | Cas | OtherOp u8

fun cmdOpByte :: "CmdOp \<Rightarrow> u8" where
  "cmdOpByte Put = 0"
| "cmdOpByte Del = 1"
| "cmdOpByte Cas = 2"
| "cmdOpByte (OtherOp b) = b"

definition toCmdOp :: "u8 \<Rightarrow> CmdOp" where
  "toCmdOp b = (if b = 0 then Put else if b = 1 then Del else if b = 2 then Cas else OtherOp b)"

record KvCommand =
  op :: CmdOp
  key :: bytes
  "value" :: bytes
  expect :: bytes
  clientId :: u64
  requestSeq :: u64

definition KvCommand_encode :: "KvCommand \<Rightarrow> bytes" where
  "KvCommand_encode c =
     putU64 (requestSeq c) (putU64 (clientId c) (putBytes (expect c)
       (putBytes (value c) (putBytes (key c) (putU8 (cmdOpByte (op c)) [])))))"

definition KvCommand_decode :: "bytes \<Rightarrow> KvCommand result" where
  "KvCommand_decode s =
     (let r = mkReader s in
     rbind (getU8 r) (\<lambda>(o', r).
     rbind (getBytes r) (\<lambda>(k, r).
     rbind (getBytes r) (\<lambda>(v, r).
     rbind (getBytes r) (\<lambda>(e, r).
     rbind (getU64 r) (\<lambda>(c, r).
     rbind (getU64 r) (\<lambda>(q, r).
     Inr \<lparr>op = toCmdOp o', key = k, value = v, expect = e, clientId = c, requestSeq = q\<rparr>)))))))"

text \<open>Values that fit the format: strings and vectors of fewer than \<open>2 ^ 32\<close> elements.\<close>

definition entry_ok :: "LogEntry \<Rightarrow> bool" where
  "entry_ok e \<longleftrightarrow> short (edata e) \<and> toEntryType (entryTypeByte (etype e)) = etype e"

definition config_ok :: "ClusterConfig \<Rightarrow> bool" where
  "config_ok c \<longleftrightarrow> length (voters c) < 2 ^ 32 \<and> length (addresses c) < 2 ^ 32 \<and>
     (\<forall>p\<in>set (addresses c). short (snd p))"

definition command_ok :: "KvCommand \<Rightarrow> bool" where
  "command_ok c \<longleftrightarrow> short (key c) \<and> short (value c) \<and> short (expect c) \<and>
     toCmdOp (cmdOpByte (op c)) = op c"

lemma entryTypeByte_to [simp]: "entryTypeByte (toEntryType b) = b"
  by (simp add: toEntryType_def)

lemma cmdOpByte_to [simp]: "cmdOpByte (toCmdOp b) = b"
  by (simp add: toCmdOp_def)

lemma to_byte_simps [simp]:
  "toEntryType 0 = Command" "toEntryType 1 = Config" "toEntryType 2 = NoOp"
  "toCmdOp 0 = Put" "toCmdOp 1 = Del" "toCmdOp 2 = Cas"
  by (simp_all add: toEntryType_def toCmdOp_def)

lemma hasVoter_iff: "hasVoter c i \<longleftrightarrow> i \<in> set (voters c)"
  by (auto simp: hasVoter_def list_ex_iff)

lemmas u8_codec = u8.codec_axioms
lemmas u32_codec = u32.codec_axioms
lemmas u64_codec = u64.codec_axioms
lemmas bool_codec = bool.codec_axioms
lemmas bytes_codec = str.codec_axioms

lemmas codec_conv_simps = encPair_def decPair_def encVec_def decVec_def rbind_assoc split_def

interpretation LogEntry: codec LogEntry_encode LogEntry_decode entry_ok
  by (rule codec_conv[OF codec_pair[OF u64_codec codec_pair[OF u64_codec codec_pair[OF u8_codec bytes_codec]]],
        where f = "\<lambda>e. (eterm e, eindex e, entryTypeByte (etype e), edata e)"
          and g = "\<lambda>(t, i, b, d). \<lparr>eterm = t, eindex = i, etype = toEntryType b, edata = d\<rparr>"])
    (simp_all add: LogEntry_encode_def LogEntry_decode_def codec_conv_simps entry_ok_def)

lemma node_id_codec:
  "codec (\<lambda>v. putU64 (ucast v)) (\<lambda>r. rbind (getU64 r) (\<lambda>(v, r). Inr (ucast v :: NodeId, r))) (\<lambda>_. True)"
  by (rule codec_conv[OF u64_codec, where f = "\<lambda>v. ucast (v :: NodeId)" and g = ucast]) simp_all

lemma address_codec:
  "codec (\<lambda>p w. putBytes (snd p) (putU64 (ucast (fst p)) w))
     (\<lambda>r. rbind (getU64 r) (\<lambda>(i, r). rbind (getBytes r) (\<lambda>(a, r). Inr ((ucast i :: NodeId, a), r))))
     (\<lambda>p. short (snd p))"
  by (rule codec_conv[OF codec_pair[OF u64_codec bytes_codec],
        where f = "\<lambda>p. (ucast (fst p), snd p)" and g = "\<lambda>p. (ucast (fst p), snd p)"])
    (simp_all add: codec_conv_simps)

interpretation ClusterConfig: codec ClusterConfig_encode ClusterConfig_decode config_ok
  by (rule codec_conv[OF codec_pair[OF codec_vec[OF node_id_codec] codec_vec[OF address_codec]],
        where f = "\<lambda>c. (voters c, addresses c)" and g = "\<lambda>(v, a). \<lparr>voters = v, addresses = a\<rparr>"])
    (simp_all add: ClusterConfig_encode_def ClusterConfig_decode_def codec_conv_simps config_ok_def)

definition KvCommand_put :: "KvCommand \<Rightarrow> Writer \<Rightarrow> Writer" where
  "KvCommand_put c w =
     putU64 (requestSeq c) (putU64 (clientId c) (putBytes (expect c)
       (putBytes (value c) (putBytes (key c) (putU8 (cmdOpByte (op c)) w)))))"

definition KvCommand_get :: "Reader \<Rightarrow> (KvCommand \<times> Reader) result" where
  "KvCommand_get r =
     rbind (getU8 r) (\<lambda>(b, r). rbind (getBytes r) (\<lambda>(k, r). rbind (getBytes r) (\<lambda>(v, r).
     rbind (getBytes r) (\<lambda>(e, r). rbind (getU64 r) (\<lambda>(c, r). rbind (getU64 r) (\<lambda>(q, r).
     Inr (\<lparr>op = toCmdOp b, key = k, value = v, expect = e, clientId = c, requestSeq = q\<rparr>, r)))))))"

interpretation KvCommand: codec KvCommand_put KvCommand_get command_ok
  by (rule codec_conv[OF codec_pair[OF u8_codec codec_pair[OF bytes_codec codec_pair[OF bytes_codec
          codec_pair[OF bytes_codec codec_pair[OF u64_codec u64_codec]]]]],
        where f = "\<lambda>c. (cmdOpByte (op c), key c, value c, expect c, clientId c, requestSeq c)"
          and g = "\<lambda>(b, k, v, e, c, q).
            \<lparr>op = toCmdOp b, key = k, value = v, expect = e, clientId = c, requestSeq = q\<rparr>"])
    (simp_all add: KvCommand_put_def KvCommand_get_def codec_conv_simps command_ok_def)

lemma KvCommand_encode_put: "KvCommand_encode c = KvCommand_put c []"
  by (simp add: KvCommand_encode_def KvCommand_put_def)

lemma KvCommand_decode_get: "KvCommand_decode s = rbind (KvCommand_get (mkReader s)) (\<lambda>(c, r). Inr c)"
  by (simp add: KvCommand_decode_def KvCommand_get_def rbind_assoc split_def)

lemma KvCommand_decode_encode [simp]: "command_ok c \<Longrightarrow> KvCommand_decode (KvCommand_encode c) = Inr c"
  by (simp add: KvCommand_encode_put KvCommand_decode_get KvCommand.dec_mkReader)

section \<open>Properties\<close>

text \<open>A log entry that fits the format is read back exactly as it was written, whatever bytes
  follow it, and the reader stops right behind it; a proper prefix of its encoding throws.\<close>

theorem LogEntry_roundtrip:
  assumes "entry_ok e"
  shows "(\<exists>r. LogEntry_decode (mkReader (LogEntry_encode e [] @ rest)) = Inr (e, r) \<and> unread r = rest) \<and>
    (strict_prefix torn (LogEntry_encode e []) \<longrightarrow> LogEntry_decode (mkReader torn) = Inl Underrun)"
  using assms LogEntry.dec_enc[of e "mkReader (LogEntry_encode e [] @ rest)" rest]
    LogEntry.dec_torn[of e "mkReader torn"] by simp_all

definition sample_entry :: LogEntry where
  "sample_entry = \<lparr>eterm = 3, eindex = 7, etype = NoOp, edata = [1, 2]\<rparr>"

theorem LogEntry_roundtrip_witness:
  "(\<exists>r. LogEntry_decode (mkReader (LogEntry_encode sample_entry [] @ [9])) = Inr (sample_entry, r) \<and> unread r = [9])
    \<and> LogEntry_decode (mkReader [3, 0]) = Inl Underrun"
proof -
  have ok: "entry_ok sample_entry"
    by (simp add: entry_ok_def sample_entry_def)
  have torn: "strict_prefix [3, 0] (LogEntry_encode sample_entry [])"
    by (simp add: sample_entry_def LogEntry_encode_def put_append le_bytes_eval)
  show ?thesis
    using LogEntry_roundtrip[OF ok] torn by blast
qed

text \<open>A cluster configuration that fits the format survives encoding and decoding: voters and
  addresses come back in order, although node ids are widened to eight bytes on the wire.\<close>

theorem ClusterConfig_roundtrip:
  assumes "config_ok c"
  shows "(\<exists>r. ClusterConfig_decode (mkReader (ClusterConfig_encode c [] @ rest)) = Inr (c, r) \<and> unread r = rest) \<and>
    (strict_prefix torn (ClusterConfig_encode c []) \<longrightarrow> ClusterConfig_decode (mkReader torn) = Inl Underrun)"
  using assms ClusterConfig.dec_enc[of c "mkReader (ClusterConfig_encode c [] @ rest)" rest]
    ClusterConfig.dec_torn[of c "mkReader torn"] by simp_all

definition sample_config :: ClusterConfig where
  "sample_config = \<lparr>voters = [1, 2], addresses = [(1, [65])]\<rparr>"

theorem ClusterConfig_roundtrip_witness:
  "(\<exists>r. ClusterConfig_decode (mkReader (ClusterConfig_encode sample_config [] @ [])) = Inr (sample_config, r) \<and> unread r = [])
    \<and> ClusterConfig_decode (mkReader [2]) = Inl Underrun"
proof -
  have ok: "config_ok sample_config"
    by (simp add: config_ok_def sample_config_def)
  have torn: "strict_prefix [2] (ClusterConfig_encode sample_config [])"
    by (simp add: sample_config_def ClusterConfig_encode_def put_append le_bytes_eval)
  show ?thesis
    using ClusterConfig_roundtrip[OF ok] torn by blast
qed

text \<open>A command that fits the format is decoded from its encoding exactly, and a command whose
  bytes are cut short throws instead of being applied with missing fields.\<close>

theorem KvCommand_roundtrip:
  assumes "command_ok c"
  shows "(KvCommand_decode (KvCommand_encode c @ rest) = Inr c) \<and>
    (strict_prefix torn (KvCommand_encode c) \<longrightarrow> KvCommand_decode torn = Inl Underrun)"
  using assms KvCommand.dec_enc[of c "mkReader (KvCommand_encode c @ rest)" rest]
    KvCommand.dec_torn[of c "mkReader torn"]
  by (simp_all add: KvCommand_encode_put KvCommand_decode_get)

definition sample_command :: KvCommand where
  "sample_command = \<lparr>op = Cas, key = [107], value = [118], expect = [], clientId = 42, requestSeq = 1\<rparr>"

theorem KvCommand_roundtrip_witness:
  "KvCommand_decode (KvCommand_encode sample_command @ [0]) = Inr sample_command
    \<and> KvCommand_decode [2, 1, 0] = Inl Underrun"
proof -
  have ok: "command_ok sample_command"
    by (simp add: command_ok_def sample_command_def)
  have torn: "strict_prefix [2, 1, 0] (KvCommand_encode sample_command)"
    by (simp add: sample_command_def KvCommand_encode_def put_append le_bytes_eval)
  show ?thesis
    using KvCommand_roundtrip[OF ok] torn by blast
qed

end
