(* ===== verification/Rpc_Messages.thy ===== *)
theory Rpc_Messages
  imports Raft_Types
begin

text \<open>
  The peer RPC messages of \<^verbatim>\<open>raft/rpc_messages.h\<close> and their encodings. Every message is a
  record with the fields of the C++ struct (prefixed where two structs share a field name),
  and every encoder and decoder pair is shown to be a \<open>codec\<close>.
\<close>

record RequestVoteReq =
  rv_term :: Term
  candidateId :: NodeId
  lastLogIndex :: LogIndex
  lastLogTerm :: Term

definition RequestVoteReq_encode :: "RequestVoteReq \<Rightarrow> Writer \<Rightarrow> Writer" where
  "RequestVoteReq_encode q w =
     putU64 (lastLogTerm q) (putU64 (lastLogIndex q) (putU64 (ucast (candidateId q)) (putU64 (rv_term q) w)))"

definition RequestVoteReq_decode :: "Reader \<Rightarrow> (RequestVoteReq \<times> Reader) result" where
  "RequestVoteReq_decode r =
     rbind (getU64 r) (\<lambda>(t, r). rbind (getU64 r) (\<lambda>(c, r). rbind (getU64 r) (\<lambda>(i, r). rbind (getU64 r) (\<lambda>(lt, r).
     Inr (\<lparr>rv_term = t, candidateId = ucast c, lastLogIndex = i, lastLogTerm = lt\<rparr>, r)))))"

record RequestVoteResp =
  rvr_term :: Term
  voteGranted :: bool

definition RequestVoteResp_encode :: "RequestVoteResp \<Rightarrow> Writer \<Rightarrow> Writer" where
  "RequestVoteResp_encode q w = putBool (voteGranted q) (putU64 (rvr_term q) w)"

definition RequestVoteResp_decode :: "Reader \<Rightarrow> (RequestVoteResp \<times> Reader) result" where
  "RequestVoteResp_decode r =
     rbind (getU64 r) (\<lambda>(t, r). rbind (getBool r) (\<lambda>(g, r). Inr (\<lparr>rvr_term = t, voteGranted = g\<rparr>, r)))"

record AppendEntriesReq =
  ae_term :: Term
  ae_leaderId :: NodeId
  prevLogIndex :: LogIndex
  prevLogTerm :: Term
  ae_entries :: "LogEntry list"
  leaderCommit :: LogIndex

definition AppendEntriesReq_encode :: "AppendEntriesReq \<Rightarrow> Writer \<Rightarrow> Writer" where
  "AppendEntriesReq_encode q w =
     putU64 (leaderCommit q) (fold LogEntry_encode (ae_entries q) (putU32 (of_nat (length (ae_entries q)))
       (putU64 (prevLogTerm q) (putU64 (prevLogIndex q) (putU64 (ucast (ae_leaderId q)) (putU64 (ae_term q) w))))))"

definition AppendEntriesReq_decode :: "Reader \<Rightarrow> (AppendEntriesReq \<times> Reader) result" where
  "AppendEntriesReq_decode r =
     rbind (getU64 r) (\<lambda>(t, r). rbind (getU64 r) (\<lambda>(l, r).
     rbind (getU64 r) (\<lambda>(pi, r). rbind (getU64 r) (\<lambda>(pt, r).
     rbind (getU32 r) (\<lambda>(n, r).
     rbind (getMany LogEntry_decode (unat n) r) (\<lambda>(es, r).
     rbind (getU64 r) (\<lambda>(lc, r).
     Inr (\<lparr>ae_term = t, ae_leaderId = ucast l, prevLogIndex = pi, prevLogTerm = pt,
       ae_entries = es, leaderCommit = lc\<rparr>, r))))))))"

record AppendEntriesResp =
  aer_term :: Term
  success :: bool
  aer_matchIndex :: LogIndex
  conflictIndex :: LogIndex
  conflictTerm :: Term

definition AppendEntriesResp_encode :: "AppendEntriesResp \<Rightarrow> Writer \<Rightarrow> Writer" where
  "AppendEntriesResp_encode q w =
     putU64 (conflictTerm q) (putU64 (conflictIndex q) (putU64 (aer_matchIndex q)
       (putBool (success q) (putU64 (aer_term q) w))))"

definition AppendEntriesResp_decode :: "Reader \<Rightarrow> (AppendEntriesResp \<times> Reader) result" where
  "AppendEntriesResp_decode r =
     rbind (getU64 r) (\<lambda>(t, r). rbind (getBool r) (\<lambda>(s, r). rbind (getU64 r) (\<lambda>(m, r).
     rbind (getU64 r) (\<lambda>(ci, r). rbind (getU64 r) (\<lambda>(ct, r).
     Inr (\<lparr>aer_term = t, success = s, aer_matchIndex = m, conflictIndex = ci, conflictTerm = ct\<rparr>, r))))))"

record InstallSnapshotReq =
  is_term :: Term
  is_leaderId :: NodeId
  lastIncludedIndex :: LogIndex
  lastIncludedTerm :: Term
  is_data :: bytes

definition InstallSnapshotReq_encode :: "InstallSnapshotReq \<Rightarrow> Writer \<Rightarrow> Writer" where
  "InstallSnapshotReq_encode q w =
     putBytes (is_data q) (putU64 (lastIncludedTerm q) (putU64 (lastIncludedIndex q)
       (putU64 (ucast (is_leaderId q)) (putU64 (is_term q) w))))"

definition InstallSnapshotReq_decode :: "Reader \<Rightarrow> (InstallSnapshotReq \<times> Reader) result" where
  "InstallSnapshotReq_decode r =
     rbind (getU64 r) (\<lambda>(t, r). rbind (getU64 r) (\<lambda>(l, r).
     rbind (getU64 r) (\<lambda>(i, r). rbind (getU64 r) (\<lambda>(lt, r). rbind (getBytes r) (\<lambda>(d, r).
     Inr (\<lparr>is_term = t, is_leaderId = ucast l, lastIncludedIndex = i, lastIncludedTerm = lt, is_data = d\<rparr>, r))))))"

record InstallSnapshotResp =
  isr_term :: Term

definition InstallSnapshotResp_encode :: "InstallSnapshotResp \<Rightarrow> Writer \<Rightarrow> Writer" where
  "InstallSnapshotResp_encode q w = putU64 (isr_term q) w"

definition InstallSnapshotResp_decode :: "Reader \<Rightarrow> (InstallSnapshotResp \<times> Reader) result" where
  "InstallSnapshotResp_decode r = rbind (getU64 r) (\<lambda>(t, r). Inr (\<lparr>isr_term = t\<rparr>, r))"

record ReadIndexReq =
  requester :: NodeId

definition ReadIndexReq_encode :: "ReadIndexReq \<Rightarrow> Writer \<Rightarrow> Writer" where
  "ReadIndexReq_encode q w = putU64 (ucast (requester q)) w"

definition ReadIndexReq_decode :: "Reader \<Rightarrow> (ReadIndexReq \<times> Reader) result" where
  "ReadIndexReq_decode r = rbind (getU64 r) (\<lambda>(i, r). Inr (\<lparr>requester = ucast i\<rparr>, r))"

record ReadIndexResp =
  ri_ok :: bool
  readIndex :: LogIndex

definition ReadIndexResp_encode :: "ReadIndexResp \<Rightarrow> Writer \<Rightarrow> Writer" where
  "ReadIndexResp_encode q w = putU64 (readIndex q) (putBool (ri_ok q) w)"

definition ReadIndexResp_decode :: "Reader \<Rightarrow> (ReadIndexResp \<times> Reader) result" where
  "ReadIndexResp_decode r =
     rbind (getBool r) (\<lambda>(b, r). rbind (getU64 r) (\<lambda>(i, r). Inr (\<lparr>ri_ok = b, readIndex = i\<rparr>, r)))"

definition append_req_ok :: "AppendEntriesReq \<Rightarrow> bool" where
  "append_req_ok q \<longleftrightarrow> length (ae_entries q) < 2 ^ 32 \<and> (\<forall>e\<in>set (ae_entries q). entry_ok e)"

definition snapshot_req_ok :: "InstallSnapshotReq \<Rightarrow> bool" where
  "snapshot_req_ok q \<longleftrightarrow> short (is_data q)"

interpretation RequestVoteReq: codec RequestVoteReq_encode RequestVoteReq_decode "\<lambda>_. True"
  by (rule codec_conv[OF codec_pair[OF u64_codec codec_pair[OF u64_codec codec_pair[OF u64_codec u64_codec]]],
        where f = "\<lambda>q. (rv_term q, ucast (candidateId q), lastLogIndex q, lastLogTerm q)"
          and g = "\<lambda>(t, c, i, lt). \<lparr>rv_term = t, candidateId = ucast c, lastLogIndex = i, lastLogTerm = lt\<rparr>"])
    (simp_all add: RequestVoteReq_encode_def RequestVoteReq_decode_def codec_conv_simps)

interpretation RequestVoteResp: codec RequestVoteResp_encode RequestVoteResp_decode "\<lambda>_. True"
  by (rule codec_conv[OF codec_pair[OF u64_codec bool_codec],
        where f = "\<lambda>q. (rvr_term q, voteGranted q)" and g = "\<lambda>(t, b). \<lparr>rvr_term = t, voteGranted = b\<rparr>"])
    (simp_all add: RequestVoteResp_encode_def RequestVoteResp_decode_def codec_conv_simps)

interpretation AppendEntriesReq: codec AppendEntriesReq_encode AppendEntriesReq_decode append_req_ok
  by (rule codec_conv[OF codec_pair[OF u64_codec codec_pair[OF u64_codec codec_pair[OF u64_codec
          codec_pair[OF u64_codec codec_pair[OF codec_vec[OF LogEntry.codec_axioms] u64_codec]]]]],
        where f = "\<lambda>q. (ae_term q, ucast (ae_leaderId q), prevLogIndex q, prevLogTerm q, ae_entries q, leaderCommit q)"
          and g = "\<lambda>(t, l, pi, pt, es, lc). \<lparr>ae_term = t, ae_leaderId = ucast l, prevLogIndex = pi,
            prevLogTerm = pt, ae_entries = es, leaderCommit = lc\<rparr>"])
    (simp_all add: AppendEntriesReq_encode_def AppendEntriesReq_decode_def codec_conv_simps append_req_ok_def)

interpretation AppendEntriesResp: codec AppendEntriesResp_encode AppendEntriesResp_decode "\<lambda>_. True"
  by (rule codec_conv[OF codec_pair[OF u64_codec codec_pair[OF bool_codec codec_pair[OF u64_codec
          codec_pair[OF u64_codec u64_codec]]]],
        where f = "\<lambda>q. (aer_term q, success q, aer_matchIndex q, conflictIndex q, conflictTerm q)"
          and g = "\<lambda>(t, s, m, ci, ct). \<lparr>aer_term = t, success = s, aer_matchIndex = m,
            conflictIndex = ci, conflictTerm = ct\<rparr>"])
    (simp_all add: AppendEntriesResp_encode_def AppendEntriesResp_decode_def codec_conv_simps)

interpretation InstallSnapshotReq: codec InstallSnapshotReq_encode InstallSnapshotReq_decode snapshot_req_ok
  by (rule codec_conv[OF codec_pair[OF u64_codec codec_pair[OF u64_codec codec_pair[OF u64_codec
          codec_pair[OF u64_codec bytes_codec]]]],
        where f = "\<lambda>q. (is_term q, ucast (is_leaderId q), lastIncludedIndex q, lastIncludedTerm q, is_data q)"
          and g = "\<lambda>(t, l, i, lt, d). \<lparr>is_term = t, is_leaderId = ucast l, lastIncludedIndex = i,
            lastIncludedTerm = lt, is_data = d\<rparr>"])
    (simp_all add: InstallSnapshotReq_encode_def InstallSnapshotReq_decode_def codec_conv_simps snapshot_req_ok_def)

interpretation InstallSnapshotResp: codec InstallSnapshotResp_encode InstallSnapshotResp_decode "\<lambda>_. True"
  by (rule codec_conv[OF u64_codec, where f = isr_term and g = "\<lambda>t. \<lparr>isr_term = t\<rparr>"])
    (simp_all add: InstallSnapshotResp_encode_def InstallSnapshotResp_decode_def)

interpretation ReadIndexReq: codec ReadIndexReq_encode ReadIndexReq_decode "\<lambda>_. True"
  by (rule codec_conv[OF u64_codec, where f = "\<lambda>q. ucast (requester q)" and g = "\<lambda>i. \<lparr>requester = ucast i\<rparr>"])
    (simp_all add: ReadIndexReq_encode_def ReadIndexReq_decode_def)

interpretation ReadIndexResp: codec ReadIndexResp_encode ReadIndexResp_decode "\<lambda>_. True"
  by (rule codec_conv[OF codec_pair[OF bool_codec u64_codec],
        where f = "\<lambda>q. (ri_ok q, readIndex q)" and g = "\<lambda>(b, i). \<lparr>ri_ok = b, readIndex = i\<rparr>"])
    (simp_all add: ReadIndexResp_encode_def ReadIndexResp_decode_def codec_conv_simps)

section \<open>Properties\<close>

text \<open>C32. An AppendEntries request with fewer than \<open>2 ^ 32\<close> well-formed entries is decoded from its
  encoding exactly, and a truncated request throws.\<close>

theorem AppendEntriesReq_roundtrip:
  assumes "append_req_ok q"
  shows "(\<exists>r. AppendEntriesReq_decode (mkReader (AppendEntriesReq_encode q [] @ rest)) = Inr (q, r) \<and> unread r = rest) \<and>
    (strict_prefix torn (AppendEntriesReq_encode q []) \<longrightarrow> AppendEntriesReq_decode (mkReader torn) = Inl Underrun)"
  using assms AppendEntriesReq.dec_enc[of q "mkReader (AppendEntriesReq_encode q [] @ rest)" rest]
    AppendEntriesReq.dec_torn[of q "mkReader torn"] by simp_all

definition sample_append :: AppendEntriesReq where
  "sample_append = \<lparr>ae_term = 3, ae_leaderId = 1, prevLogIndex = 6, prevLogTerm = 2,
     ae_entries = [sample_entry], leaderCommit = 5\<rparr>"

theorem AppendEntriesReq_roundtrip_witness:
  "(\<exists>r. AppendEntriesReq_decode (mkReader (AppendEntriesReq_encode sample_append [] @ [1])) = Inr (sample_append, r)
      \<and> unread r = [1])
    \<and> AppendEntriesReq_decode (mkReader [3, 0]) = Inl Underrun"
proof -
  have ok: "append_req_ok sample_append"
    by (simp add: append_req_ok_def sample_append_def sample_entry_def entry_ok_def)
  have torn: "strict_prefix [3, 0] (AppendEntriesReq_encode sample_append [])"
    by (simp add: sample_append_def sample_entry_def AppendEntriesReq_encode_def LogEntry_encode_def put_append
        le_bytes_eval)
  show ?thesis
    using AppendEntriesReq_roundtrip[OF ok] torn by blast
qed

end
