(* ===== verification/State_Machine.thy ===== *)
theory State_Machine
  imports Raft_Types
begin

text \<open>
  The interface \<^verbatim>\<open>StateMachine\<close> of \<^verbatim>\<open>raft/state_machine.h\<close>: \<open>apply\<close>, \<open>snapshot\<close> and \<open>restore\<close>,
  which the Raft node calls and the key-value store implements. The contract the node relies
  on is the comment of the class, \<^emph>\<open>applied in strict log order, deterministic across
  replicas\<close>, and that restoring a snapshot brings back what was snapshotted. Two states
  with the same \<open>view\<close> hold the same content; their representation may differ, as the
  iteration order of two hash maps with equal content does.
\<close>

text \<open>
  \<open>apply_all ap cs s\<close> applies the commands of a log segment, each with its index, in order,
  and stops at the first exception.
\<close>

fun apply_all :: "(bytes \<Rightarrow> u64 \<Rightarrow> 's \<Rightarrow> (bytes \<times> 's) result) \<Rightarrow> (bytes \<times> u64) list \<Rightarrow> 's \<Rightarrow> (bytes list \<times> 's) result" where
  "apply_all ap [] s = Inr ([], s)"
| "apply_all ap ((c, i) # cs) s =
     rbind (ap c i s) (\<lambda>(r, s). rbind (apply_all ap cs s) (\<lambda>(rs, s). Inr (r # rs, s)))"

definition same_result :: "('s \<Rightarrow> 'v) \<Rightarrow> ('r \<times> 's) result \<Rightarrow> ('r \<times> 's) result \<Rightarrow> bool" where
  "same_result vw x y \<longleftrightarrow> rel_sum (=) (\<lambda>p q. fst p = fst q \<and> vw (snd p) = vw (snd q)) x y"

lemma same_result_simps [simp]:
  "same_result vw (Inl e) (Inl f) \<longleftrightarrow> e = f"
  "same_result vw (Inr p) (Inr q) \<longleftrightarrow> fst p = fst q \<and> vw (snd p) = vw (snd q)"
  "\<not> same_result vw (Inl e) (Inr q)"
  "\<not> same_result vw (Inr p) (Inl e)"
  by (simp_all add: same_result_def)

locale state_machine =
  fixes ap :: "bytes \<Rightarrow> u64 \<Rightarrow> 's \<Rightarrow> (bytes \<times> 's) result"
    and snap :: "'s \<Rightarrow> bytes"
    and rest :: "bytes \<Rightarrow> 's \<Rightarrow> unit result \<times> 's"
    and inv :: "'s \<Rightarrow> bool"
    and fits :: "'s \<Rightarrow> bool"
    and vw :: "'s \<Rightarrow> 'v"
  assumes ap_inv: "inv s \<Longrightarrow> ap c i s = Inr (r, s') \<Longrightarrow> inv s'"
    and ap_view: "vw s = vw t \<Longrightarrow> same_result vw (ap c i s) (ap c i t)"
    and rest_snap: "inv s \<Longrightarrow> fits s \<Longrightarrow> fst (rest (snap s) t) = Inr () \<and> vw (snd (rest (snap s) t)) = vw s"
    and rest_inv: "fst (rest b t) = Inr () \<Longrightarrow> inv (snd (rest b t))"
begin

lemma apply_all_inv: "inv s \<Longrightarrow> apply_all ap cs s = Inr (rs, s') \<Longrightarrow> inv s'"
proof (induction cs arbitrary: s rs)
  case (Cons c cs)
  then show ?case by (cases c) (fastforce simp: rbind_Inr_iff dest: ap_inv)
qed simp

text \<open>Replicas with the same content that apply the same commands return the same results.\<close>

lemma apply_all_view: "vw s = vw t \<Longrightarrow> same_result vw (apply_all ap cs s) (apply_all ap cs t)"
proof (induction cs arbitrary: s t)
  case Nil
  then show ?case by simp
next
  case (Cons ci cs)
  obtain c i where ci: "ci = (c, i)" by fastforce
  have one: "same_result vw (ap c i s) (ap c i t)"
    using Cons.prems by (rule ap_view)
  show ?case
  proof (cases "ap c i s")
    case (Inl e)
    with one show ?thesis by (cases "ap c i t") (simp_all add: ci)
  next
    case (Inr p)
    with one obtain q where q: "ap c i t = Inr q" "fst p = fst q" "vw (snd p) = vw (snd q)"
      by (cases "ap c i t") auto
    have "same_result vw (apply_all ap cs (snd p)) (apply_all ap cs (snd q))"
      using q(3) by (rule Cons.IH)
    then show ?thesis
      using Inr q by (cases "apply_all ap cs (snd p)"; cases "apply_all ap cs (snd q)")
        (auto simp: ci split_def)
  qed
qed

text \<open>
  Log compaction: a replica restored from a snapshot and then given the entries after it ends
  with the content of the replica that took the snapshot and applied the same entries.
\<close>

lemma restore_then_apply_all:
  assumes "inv s" "fits s"
  shows "same_result vw (apply_all ap cs (snd (rest (snap s) t))) (apply_all ap cs s)"
  using rest_snap[OF assms] by (intro apply_all_view) simp

lemma apply_all_append:
  "apply_all ap (cs @ ds) s =
    rbind (apply_all ap cs s) (\<lambda>(rs, s). rbind (apply_all ap ds s) (\<lambda>(qs, s). Inr (rs @ qs, s)))"
proof (induction cs arbitrary: s)
  case Nil
  then show ?case by (cases "apply_all ap ds s") auto
next
  case (Cons ci cs)
  then show ?case
    by (cases ci; cases "ap (fst ci) (snd ci) s") (auto simp: rbind_assoc split_def)
qed

end

end
