(* ===== verification/Kv_Store.thy ===== *)
theory Kv_Store
  imports State_Machine
begin

text \<open>
  The key-value state machine of \<^verbatim>\<open>kv/kv_store.h\<close>. The two hash maps are association lists
  with distinct keys; the list order stands for the unspecified iteration order, which only
  \<open>snapshot\<close> observes. \<open>kv_view\<close> forgets it. An exception leaves the state as it is at the
  throw: \<open>apply\<close> throws only before it changes anything, \<open>restore\<close> may leave the maps
  partly filled.
\<close>

record KvStore =
  kv_data :: "(bytes \<times> bytes) list"
  kv_lastSeq :: "(u64 \<times> (u64 \<times> bytes)) list"

definition KvStore_empty :: KvStore where
  "KvStore_empty = \<lparr>kv_data = [], kv_lastSeq = []\<rparr>"

text \<open>The \<^verbatim>\<open>switch (cmd.op)\<close>: the new data and the result.\<close>

definition kvExec :: "KvCommand \<Rightarrow> (bytes \<times> bytes) list \<Rightarrow> (bytes \<times> bytes) list \<times> bytes" where
  "kvExec cmd d = (case op cmd of
     Put \<Rightarrow> (AList.update (key cmd) (value cmd) d, str ''OK'')
   | Del \<Rightarrow> (AList.delete (key cmd) d, str ''OK'')
   | Cas \<Rightarrow> (let cur = (case map_of d (key cmd) of None \<Rightarrow> [] | Some v \<Rightarrow> v) in
       if cur = expect cmd then (AList.update (key cmd) (value cmd) d, str ''OK'')
       else (d, str ''CAS_MISMATCH''))
   | OtherOp _ \<Rightarrow> (d, []))"

definition KvStore_apply :: "bytes \<Rightarrow> u64 \<Rightarrow> KvStore \<Rightarrow> (bytes \<times> KvStore) result" where
  "KvStore_apply commandBytes logIndex s = rbind (KvCommand_decode commandBytes) (\<lambda>cmd.
     let cached = (if clientId cmd \<noteq> 0 then
         (case map_of (kv_lastSeq s) (clientId cmd) of
            None \<Rightarrow> None
          | Some p \<Rightarrow> if fst p \<ge> requestSeq cmd then Some (snd p) else None)
       else None) in
     case cached of
       Some res \<Rightarrow> Inr (res, s)
     | None \<Rightarrow>
       (let (d, result) = kvExec cmd (kv_data s) in
        Inr (result, s\<lparr>kv_data := d,
          kv_lastSeq := (if clientId cmd \<noteq> 0
            then AList.update (clientId cmd) (requestSeq cmd, result) (kv_lastSeq s)
            else kv_lastSeq s)\<rparr>)))"

definition KvStore_get :: "bytes \<Rightarrow> KvStore \<Rightarrow> bytes option" where
  "KvStore_get k s = map_of (kv_data s) k"

definition KvStore_snapshot :: "KvStore \<Rightarrow> bytes" where
  "KvStore_snapshot s =
     fold (\<lambda>p w. putBytes (snd (snd p)) (putU64 (fst (snd p)) (putU64 (fst p) w))) (kv_lastSeq s)
       (putU32 (of_nat (length (kv_lastSeq s)))
         (fold (\<lambda>p w. putBytes (snd p) (putBytes (fst p) w)) (kv_data s)
           (putU32 (of_nat (length (kv_data s))) [])))"

text \<open>The two loops of \<open>restore\<close>: what is left to read or the exception, and the map so far.\<close>

fun restoreData :: "nat \<Rightarrow> Reader \<Rightarrow> (bytes \<times> bytes) list \<Rightarrow> Reader result \<times> (bytes \<times> bytes) list" where
  "restoreData 0 r d = (Inr r, d)"
| "restoreData (Suc n) r d =
     (case rbind (getBytes r) (\<lambda>(k, r). rbind (getBytes r) (\<lambda>(v, r). Inr (k, v, r))) of
        Inl e \<Rightarrow> (Inl e, d)
      | Inr (k, v, r) \<Rightarrow> restoreData n r (AList.update k v d))"

fun restoreSeq :: "nat \<Rightarrow> Reader \<Rightarrow> (u64 \<times> (u64 \<times> bytes)) list \<Rightarrow> Reader result \<times> (u64 \<times> (u64 \<times> bytes)) list" where
  "restoreSeq 0 r d = (Inr r, d)"
| "restoreSeq (Suc n) r d =
     (case rbind (getU64 r) (\<lambda>(c, r). rbind (getU64 r) (\<lambda>(q, r). rbind (getBytes r) (\<lambda>(v, r). Inr (c, q, v, r)))) of
        Inl e \<Rightarrow> (Inl e, d)
      | Inr (c, q, v, r) \<Rightarrow> restoreSeq n r (AList.update c (q, v) d))"

definition KvStore_restore :: "bytes \<Rightarrow> KvStore \<Rightarrow> unit result \<times> KvStore" where
  "KvStore_restore b s =
     (let s = s\<lparr>kv_data := [], kv_lastSeq := []\<rparr> in
      if b = [] then (Inr (), s)
      else case getU32 (mkReader b) of
        Inl e \<Rightarrow> (Inl e, s)
      | Inr (n, r) \<Rightarrow>
        (case restoreData (unat n) r [] of
           (Inl e, d) \<Rightarrow> (Inl e, s\<lparr>kv_data := d\<rparr>)
         | (Inr r, d) \<Rightarrow>
           (case getU32 r of
              Inl e \<Rightarrow> (Inl e, s\<lparr>kv_data := d\<rparr>)
            | Inr (m, r) \<Rightarrow>
              (case restoreSeq (unat m) r [] of
                 (Inl e, q) \<Rightarrow> (Inl e, s\<lparr>kv_data := d, kv_lastSeq := q\<rparr>)
               | (Inr r, q) \<Rightarrow> (Inr (), s\<lparr>kv_data := d, kv_lastSeq := q\<rparr>)))))"

definition KvStore_size :: "KvStore \<Rightarrow> nat" where
  "KvStore_size s = length (kv_data s)"

section \<open>Content, invariant and specification\<close>

text \<open>The content of a store, without the iteration order of its maps.\<close>

type_synonym kv_content = "(bytes \<rightharpoonup> bytes) \<times> (u64 \<rightharpoonup> u64 \<times> bytes)"

definition kv_view :: "KvStore \<Rightarrow> kv_content" where
  "kv_view s = (map_of (kv_data s), map_of (kv_lastSeq s))"

definition kv_inv :: "KvStore \<Rightarrow> bool" where
  "kv_inv s \<longleftrightarrow> distinct (map fst (kv_data s)) \<and> distinct (map fst (kv_lastSeq s)) \<and>
     (\<forall>p\<in>set (kv_data s). short (fst p) \<and> short (snd p)) \<and>
     (\<forall>p\<in>set (kv_lastSeq s). short (snd (snd p)))"

text \<open>A snapshot counts keys and clients in 32 bits.\<close>

definition kv_fits :: "KvStore \<Rightarrow> bool" where
  "kv_fits s \<longleftrightarrow> length (kv_data s) < 2 ^ 32 \<and> length (kv_lastSeq s) < 2 ^ 32"

text \<open>
  What the store promises: a finite map with put, delete and compare-and-swap, and for each
  client at most one effect per request number.
\<close>

definition spec_exec :: "KvCommand \<Rightarrow> (bytes \<rightharpoonup> bytes) \<Rightarrow> (bytes \<rightharpoonup> bytes) \<times> bytes" where
  "spec_exec cmd m = (case op cmd of
     Put \<Rightarrow> (m(key cmd \<mapsto> value cmd), str ''OK'')
   | Del \<Rightarrow> (m(key cmd := None), str ''OK'')
   | Cas \<Rightarrow> if case_option [] id (m (key cmd)) = expect cmd
       then (m(key cmd \<mapsto> value cmd), str ''OK'') else (m, str ''CAS_MISMATCH'')
   | OtherOp _ \<Rightarrow> (m, []))"

definition already_applied :: "KvCommand \<Rightarrow> (u64 \<rightharpoonup> u64 \<times> bytes) \<Rightarrow> bool" where
  "already_applied cmd q \<longleftrightarrow> clientId cmd \<noteq> 0 \<and> (\<exists>n r. q (clientId cmd) = Some (n, r) \<and> requestSeq cmd \<le> n)"

definition spec_apply :: "KvCommand \<Rightarrow> kv_content \<Rightarrow> bytes \<times> kv_content" where
  "spec_apply cmd c =
     (if already_applied cmd (snd c) then (snd (the (snd c (clientId cmd))), c)
      else let (m, r) = spec_exec cmd (fst c) in
        (r, m, if clientId cmd = 0 then snd c else (snd c)(clientId cmd \<mapsto> (requestSeq cmd, r))))"

lemma kvExec_spec:
  "kvExec cmd d = (d', r) \<Longrightarrow> spec_exec cmd (map_of d) = (map_of d', r)"
  by (auto simp: kvExec_def spec_exec_def update_conv' delete_conv' Let_def
      split: CmdOp.splits option.splits if_splits)

text \<open>The implementation refines the specification, whatever the state is.\<close>

lemma apply_refines:
  assumes "KvCommand_decode b = Inr cmd"
  shows "\<exists>r s'. KvStore_apply b i s = Inr (r, s') \<and> spec_apply cmd (kv_view s) = (r, kv_view s')"
proof -
  obtain d' r where e: "kvExec cmd (kv_data s) = (d', r)" by fastforce
  show ?thesis
    using assms kvExec_spec[OF e]
    by (auto simp: KvStore_apply_def spec_apply_def already_applied_def kv_view_def e Let_def
        update_conv' split: option.splits if_splits)
qed

lemma apply_throws: "KvCommand_decode b = Inl e \<Longrightarrow> KvStore_apply b i s = Inl e"
  by (simp add: KvStore_apply_def)

section \<open>Invariant\<close>

lemma KvCommand_decode_short:
  "KvCommand_decode b = Inr cmd \<Longrightarrow> short (key cmd) \<and> short (value cmd) \<and> short (expect cmd)"
  by (auto simp: KvCommand_decode_def Let_def rbind_Inr_iff dest!: getBytes_length)

lemma kvExec_inv:
  assumes "kvExec cmd d = (d', r)" "short (key cmd)" "short (value cmd)"
    and "distinct (map fst d)" "\<forall>p\<in>set d. short (fst p) \<and> short (snd p)"
  shows "distinct (map fst d') \<and> (\<forall>p\<in>set d'. short (fst p) \<and> short (snd p)) \<and> short r"
  using assms set_AList_update[of "key cmd" "value cmd" d] set_AList_delete[of "key cmd" d]
  by (auto simp: kvExec_def Let_def distinct_AList_delete split: CmdOp.splits if_splits)

lemma apply_inv:
  assumes inv: "kv_inv s" and ap: "KvStore_apply b i s = Inr (r, s')"
  shows "kv_inv s'"
proof -
  obtain cmd where cmd: "KvCommand_decode b = Inr cmd"
    using ap by (auto simp: KvStore_apply_def rbind_Inr_iff)
  obtain d' r' where e: "kvExec cmd (kv_data s) = (d', r')" by fastforce
  have "distinct (map fst d') \<and> (\<forall>p\<in>set d'. short (fst p) \<and> short (snd p)) \<and> short r'"
    using inv KvCommand_decode_short[OF cmd] by (intro kvExec_inv[OF e]) (auto simp: kv_inv_def)
  then show ?thesis
    using ap inv set_AList_update[of "clientId cmd" "(requestSeq cmd, r')" "kv_lastSeq s"]
    by (auto simp: KvStore_apply_def cmd e kv_inv_def Let_def split: option.splits if_splits)
qed

lemma apply_view:
  assumes "kv_view s = kv_view t"
  shows "same_result kv_view (KvStore_apply b i s) (KvStore_apply b i t)"
proof (cases "KvCommand_decode b")
  case (Inl e)
  then show ?thesis by (simp add: apply_throws)
next
  case (Inr cmd)
  then show ?thesis
    using apply_refines[OF Inr, of i s] apply_refines[OF Inr, of i t] assms by fastforce
qed

section \<open>Snapshots\<close>

lemma restoreData_getMany:
  "getMany (decPair getBytes getBytes) n r = Inr (xs, r') \<Longrightarrow>
    restoreData n r d = (Inr r', fold (\<lambda>p. AList.update (fst p) (snd p)) xs d)"
  by (induction n arbitrary: r d xs) (auto simp: rbind_Inr_iff decPair_def)

lemma restoreSeq_getMany:
  "getMany (decPair getU64 (decPair getU64 getBytes)) n r = Inr (xs, r') \<Longrightarrow>
    restoreSeq n r d = (Inr r', fold (\<lambda>p. AList.update (fst p) (snd p)) xs d)"
  by (induction n arbitrary: r d xs) (auto simp: rbind_Inr_iff decPair_def)

lemmas data_codec = codec_pair[OF bytes_codec bytes_codec]
lemmas seq_codec = codec_pair[OF u64_codec codec_pair[OF u64_codec bytes_codec]]

text \<open>A snapshot is the two maps as counted vectors of pairs.\<close>

lemma snapshot_vec:
  "KvStore_snapshot s = encPair (encVec (encPair putBytes putBytes))
     (encVec (encPair putU64 (encPair putU64 putBytes))) (kv_data s, kv_lastSeq s) []"
  by (simp add: KvStore_snapshot_def encPair_def[abs_def] encVec_def)

lemma decPair_vec:
  assumes "decPair (decVec f) (decVec g) r = Inr ((xs, ys), r')"
  obtains n m r1 r2 r3 where "getU32 r = Inr (n, r1)" "getMany f (unat n) r1 = Inr (xs, r2)"
    "getU32 r2 = Inr (m, r3)" "getMany g (unat m) r3 = Inr (ys, r')"
  using assms by (auto simp: decPair_def decVec_def rbind_Inr_iff)

lemma restore_snapshot:
  assumes inv: "kv_inv s" and fits: "kv_fits s"
  shows "fst (KvStore_restore (KvStore_snapshot s) t) = Inr () \<and>
    kv_view (snd (KvStore_restore (KvStore_snapshot s) t)) = kv_view s"
proof -
  let ?r = "mkReader (KvStore_snapshot s)"
  have "\<exists>r'. decPair (decVec (decPair getBytes getBytes))
      (decVec (decPair getU64 (decPair getU64 getBytes))) ?r = Inr ((kv_data s, kv_lastSeq s), r')"
    using codec.dec_enc[OF codec_pair[OF codec_vec[OF data_codec] codec_vec[OF seq_codec]],
        of "(kv_data s, kv_lastSeq s)" ?r "[]"] inv fits
    by (simp add: snapshot_vec kv_inv_def kv_fits_def)
  then obtain r' where d: "decPair (decVec (decPair getBytes getBytes))
      (decVec (decPair getU64 (decPair getU64 getBytes))) ?r = Inr ((kv_data s, kv_lastSeq s), r')" ..
  have ne: "KvStore_snapshot s \<noteq> []"
    using d by (cases "KvStore_snapshot s") (auto simp: decPair_def decVec_def reader_simps rbind_Inr_iff)
  show ?thesis
    using d inv
    by (elim decPair_vec)
      (simp add: KvStore_restore_def ne restoreData_getMany restoreSeq_getMany fold_AList_update_new
        kv_view_def kv_inv_def)
qed

lemma restoreData_inv:
  assumes "restoreData n r d = (x, d')" "distinct (map fst d)" "\<forall>p\<in>set d. short (fst p) \<and> short (snd p)"
  shows "distinct (map fst d') \<and> (\<forall>p\<in>set d'. short (fst p) \<and> short (snd p))"
  using assms
proof (induction n arbitrary: r d)
  case (Suc n)
  show ?case
  proof (cases "rbind (getBytes r) (\<lambda>(k, r). rbind (getBytes r) (\<lambda>(v, r). Inr (k, v, r)))")
    case (Inl e)
    then show ?thesis using Suc.prems by simp
  next
    case (Inr p)
    obtain k v r2 where p: "p = (k, v, r2)" by (cases p) auto
    have "short k" "short v"
      using Inr p by (auto simp: rbind_Inr_iff dest!: getBytes_length)
    then show ?thesis
      using Suc.prems Inr p set_AList_update[of k v d] by (intro Suc.IH[of r2 "AList.update k v d"]) auto
  qed
qed simp

lemma restoreSeq_inv:
  assumes "restoreSeq n r d = (x, d')" "distinct (map fst d)" "\<forall>p\<in>set d. short (snd (snd p))"
  shows "distinct (map fst d') \<and> (\<forall>p\<in>set d'. short (snd (snd p)))"
  using assms
proof (induction n arbitrary: r d)
  case (Suc n)
  show ?case
  proof (cases "rbind (getU64 r) (\<lambda>(c, r). rbind (getU64 r) (\<lambda>(q, r). rbind (getBytes r) (\<lambda>(v, r). Inr (c, q, v, r))))")
    case (Inl e)
    then show ?thesis using Suc.prems by simp
  next
    case (Inr p)
    obtain c q v r2 where p: "p = (c, q, v, r2)" by (cases p) auto
    have "short v"
      using Inr p by (auto simp: rbind_Inr_iff dest!: getBytes_length)
    then show ?thesis
      using Suc.prems Inr p set_AList_update[of c "(q, v)" d] by (intro Suc.IH[of r2 "AList.update c (q, v) d"]) auto
  qed
qed simp

lemma restore_inv: "kv_inv (snd (KvStore_restore b t))"
  by (auto simp: KvStore_restore_def Let_def kv_inv_def split: sum.splits prod.splits
      dest!: restoreData_inv restoreSeq_inv)

interpretation kv: state_machine KvStore_apply KvStore_snapshot KvStore_restore kv_inv kv_fits kv_view
  by unfold_locales (auto simp: apply_inv apply_view restore_snapshot restore_inv)

section \<open>Requests already applied\<close>

lemma apply_decoded:
  assumes "KvStore_apply b i s = Inr (r, s')"
  obtains cmd where "KvCommand_decode b = Inr cmd" "spec_apply cmd (kv_view s) = (r, kv_view s')"
proof -
  obtain cmd where cmd: "KvCommand_decode b = Inr cmd"
    using assms by (auto simp: KvStore_apply_def rbind_Inr_iff)
  then show thesis
    using that apply_refines[OF cmd, of i s] assms by fastforce
qed

lemma spec_apply_applied:
  assumes "spec_apply cmd c = (r, c')" "clientId cmd \<noteq> 0"
  shows "\<exists>n. snd c' (clientId cmd) = Some (n, r) \<and> requestSeq cmd \<le> n"
  using assms by (auto simp: spec_apply_def already_applied_def Let_def split: prod.splits if_splits)

lemma spec_apply_lastSeq_mono:
  assumes "spec_apply cmd c = (r, c')" "snd c k = Some (n, x)"
  shows "\<exists>n' y. snd c' k = Some (n', y) \<and> n \<le> n'"
  using assms by (auto simp: spec_apply_def already_applied_def Let_def split: prod.splits if_splits)

lemma apply_all_lastSeq_mono:
  assumes "apply_all KvStore_apply cs s = Inr (rs, s')" "map_of (kv_lastSeq s) k = Some (n, x)"
  shows "\<exists>n' y. map_of (kv_lastSeq s') k = Some (n', y) \<and> n \<le> n'"
  using assms
proof (induction cs arbitrary: s n x rs)
  case (Cons ci cs)
  obtain c i where ci: "ci = (c, i)" by fastforce
  obtain r s1 rs' where s1: "KvStore_apply c i s = Inr (r, s1)" "apply_all KvStore_apply cs s1 = Inr (rs', s')"
    using Cons.prems(1) by (auto simp: ci rbind_Inr_iff)
  obtain cmd where "spec_apply cmd (kv_view s) = (r, kv_view s1)"
    using s1(1) by (rule apply_decoded)
  then obtain n1 y1 where "map_of (kv_lastSeq s1) k = Some (n1, y1)" "n \<le> n1"
    using spec_apply_lastSeq_mono[of cmd "kv_view s" r "kv_view s1" k n x] Cons.prems(2)
    by (auto simp: kv_view_def)
  then show ?case
    using Cons.IH[OF s1(2)] by (meson order_trans)
qed auto

lemma apply_cached:
  assumes "KvCommand_decode b = Inr cmd" "clientId cmd \<noteq> 0"
    and "map_of (kv_lastSeq s) (clientId cmd) = Some (n, x)" "requestSeq cmd \<le> n"
  shows "KvStore_apply b j s = Inr (x, s)"
  using assms by (simp add: KvStore_apply_def Let_def)

lemma restoreData_throws:
  "getMany (decPair getBytes getBytes) n r = Inl e \<Longrightarrow> fst (restoreData n r d) = Inl e"
  by (induction n arbitrary: r d)
    (auto simp: decPair_def rbind_def split: sum.splits prod.splits)

lemma restoreSeq_throws:
  "getMany (decPair getU64 (decPair getU64 getBytes)) n r = Inl e \<Longrightarrow> fst (restoreSeq n r d) = Inl e"
  by (induction n arbitrary: r d)
    (auto simp: decPair_def rbind_def split: sum.splits prod.splits)

lemma restore_throws:
  assumes "b \<noteq> []" "decPair (decVec (decPair getBytes getBytes))
    (decVec (decPair getU64 (decPair getU64 getBytes))) (mkReader b) = Inl e"
  shows "fst (KvStore_restore b t) = Inl e"
proof (cases "getU32 (mkReader b)")
  case (Inl f)
  then show ?thesis using assms by (simp add: KvStore_restore_def decPair_def decVec_def)
next
  case (Inr p)
  obtain n r where p: "p = (n, r)" by fastforce
  show ?thesis
  proof (cases "getMany (decPair getBytes getBytes) (unat n) r")
    case (Inl f)
    then show ?thesis
      using assms Inr p restoreData_throws[OF Inl, of "[]"]
      by (auto simp: KvStore_restore_def decPair_def decVec_def Let_def split: prod.splits sum.splits)
  next
    case inner: (Inr q)
    obtain xs r2 where q: "q = (xs, r2)" by fastforce
    have d: "restoreData (unat n) r [] = (Inr r2, fold (\<lambda>p. AList.update (fst p) (snd p)) xs [])"
      using inner q by (simp add: restoreData_getMany)
    have g: "rbind (getU32 r2) (\<lambda>(m, r). getMany (decPair getU64 (decPair getU64 getBytes)) (unat m) r) = Inl e"
      using assms(2) Inr p inner q
      by (auto simp: decPair_def decVec_def rbind_def split: sum.splits prod.splits)
    show ?thesis
    proof (cases "getU32 r2")
      case (Inl f)
      then show ?thesis using assms(1) Inr p d g by (simp add: KvStore_restore_def)
    next
      case inner2: (Inr q2)
      obtain m r3 where q2: "q2 = (m, r3)" by fastforce
      then show ?thesis
        using assms(1) Inr p d g inner2 restoreSeq_throws[of "unat m" r3 e "[]"]
        by (auto simp: KvStore_restore_def Let_def split: prod.splits sum.splits)
    qed
  qed
qed

section \<open>Properties\<close>

text \<open>C17. The key-value store refines its specification: on every well-formed command, applying it
  returns the specified result and leaves the specified content, whatever order the hash maps
  iterate in.\<close>

theorem kv_apply_refines:
  assumes "KvCommand_decode b = Inr cmd"
  shows "\<exists>r s'. KvStore_apply b i s = Inr (r, s') \<and> spec_apply cmd (kv_view s) = (r, kv_view s')"
  using assms by (rule apply_refines)

theorem kv_apply_refines_witness:
  "\<exists>r s'. KvStore_apply (KvCommand_encode sample_command) 1 KvStore_empty = Inr (r, s') \<and>
     spec_apply sample_command (kv_view KvStore_empty) = (r, kv_view s')"
proof -
  have "KvCommand_decode (KvCommand_encode sample_command) = Inr sample_command"
    by (rule KvCommand_decode_encode) (simp add: command_ok_def sample_command_def)
  then show ?thesis by (rule kv_apply_refines)
qed

text \<open>C18. Exactly-once writes: once a request of a client has been applied, a retry of it or of any
  earlier request of that client changes nothing, however many other commands were applied in
  between; while no later request of the client intervened it returns the first result.\<close>

theorem kv_exactly_once:
  assumes "KvCommand_decode b = Inr c" "clientId c \<noteq> 0" "KvStore_apply b i s = Inr (r, s1)"
    and "apply_all KvStore_apply cs s1 = Inr (rs, s2)"
    and "KvCommand_decode b' = Inr c'" "clientId c' = clientId c" "requestSeq c' \<le> requestSeq c"
  shows "(\<exists>r'. KvStore_apply b' j s2 = Inr (r', s2)) \<and> KvStore_apply b' j s1 = Inr (r, s1)"
proof -
  have "spec_apply c (kv_view s) = (r, kv_view s1)"
    using apply_refines[OF assms(1), of i s] assms(3) by simp
  then obtain n where n: "map_of (kv_lastSeq s1) (clientId c) = Some (n, r)" "requestSeq c \<le> n"
    using spec_apply_applied assms(2) by (fastforce simp: kv_view_def)
  obtain n2 y where n2: "map_of (kv_lastSeq s2) (clientId c) = Some (n2, y)" "n \<le> n2"
    using apply_all_lastSeq_mono[OF assms(4) n(1)] by blast
  show ?thesis
    using apply_cached[of b' c' s1 n r] apply_cached[of b' c' s2 n2 y] n n2 assms(2,5,6,7) by auto
qed

definition sample_put :: "bytes \<Rightarrow> bytes \<Rightarrow> u64 \<Rightarrow> u64 \<Rightarrow> KvCommand" where
  "sample_put k v c q = \<lparr>op = Put, key = k, value = v, expect = [], clientId = c, requestSeq = q\<rparr>"

lemma sample_put_ok: "short k \<Longrightarrow> short v \<Longrightarrow> command_ok (sample_put k v c q)"
  by (simp add: command_ok_def sample_put_def)

theorem kv_exactly_once_witness:
  "\<exists>s1 s2 r'. KvStore_apply (KvCommand_encode (sample_put [1] [2] 42 1)) 1 KvStore_empty = Inr (str ''OK'', s1) \<and>
     apply_all KvStore_apply [(KvCommand_encode (sample_put [1] [3] 7 1), 2)] s1 = Inr ([str ''OK''], s2) \<and>
     KvStore_apply (KvCommand_encode (sample_put [1] [2] 42 1)) 3 s2 = Inr (r', s2) \<and>
     KvStore_get [1] s2 = Some [3]"
proof -
  let ?a = "sample_put [1] [2] 42 1" and ?b = "sample_put [1] [3] 7 1"
  let ?s1 = "\<lparr>kv_data = [([1], [2])], kv_lastSeq = [(42, (1, str ''OK''))]\<rparr>"
  let ?s2 = "\<lparr>kv_data = [([1], [3])], kv_lastSeq = [(42, (1, str ''OK'')), (7, (1, str ''OK''))]\<rparr>"
  have a: "KvCommand_decode (KvCommand_encode ?a) = Inr ?a" and b: "KvCommand_decode (KvCommand_encode ?b) = Inr ?b"
    by (simp_all add: sample_put_ok)
  have s1: "KvStore_apply (KvCommand_encode ?a) 1 KvStore_empty = Inr (str ''OK'', ?s1)"
    by (simp add: KvStore_apply_def a) (simp add: Let_def kvExec_def KvStore_empty_def sample_put_def)
  have s2: "apply_all KvStore_apply [(KvCommand_encode ?b, 2)] ?s1 = Inr ([str ''OK''], ?s2)"
    by (simp add: KvStore_apply_def b) (simp add: Let_def kvExec_def sample_put_def)
  have cl: "clientId ?a \<noteq> 0"
    by (simp add: sample_put_def)
  have "\<exists>r'. KvStore_apply (KvCommand_encode ?a) 3 ?s2 = Inr (r', ?s2)"
    using kv_exactly_once[OF a cl s1 s2 a refl order_refl, of 3] by blast
  then show ?thesis using s1 s2 by (fastforce simp: KvStore_get_def)
qed

text \<open>C23. A replica restored from a snapshot behaves as the one that took it: restoring succeeds over
  any previous state, and applying the entries after the snapshot gives the same results and
  the same content as applying them to the original store.\<close>

theorem kv_snapshot_replay:
  assumes "kv_inv s" "kv_fits s"
  shows "fst (KvStore_restore (KvStore_snapshot s) t) = Inr () \<and>
    kv_view (snd (KvStore_restore (KvStore_snapshot s) t)) = kv_view s \<and>
    same_result kv_view (apply_all KvStore_apply cs (snd (KvStore_restore (KvStore_snapshot s) t)))
      (apply_all KvStore_apply cs s)"
  using restore_snapshot[OF assms] kv.restore_then_apply_all[OF assms] by blast

theorem kv_snapshot_replay_witness:
  "fst (KvStore_restore (KvStore_snapshot \<lparr>kv_data = [([1], [2])], kv_lastSeq = []\<rparr>) KvStore_empty) = Inr ()"
proof -
  let ?s = "\<lparr>kv_data = [([1], [2])], kv_lastSeq = []\<rparr>"
  have "kv_inv ?s" "kv_fits ?s"
    by (simp_all add: kv_inv_def kv_fits_def)
  from kv_snapshot_replay[OF this] show ?thesis by blast
qed

text \<open>A snapshot cut short, other than the empty one, makes \<open>restore\<close> throw.\<close>

theorem kv_restore_truncated:
  assumes "kv_inv s" "kv_fits s" "strict_prefix b (KvStore_snapshot s)" "b \<noteq> []"
  shows "fst (KvStore_restore b t) = Inl Underrun"
proof -
  have "decPair (decVec (decPair getBytes getBytes)) (decVec (decPair getU64 (decPair getU64 getBytes)))
      (mkReader b) = Inl Underrun"
    using assms by (intro codec.dec_torn[OF codec_pair[OF codec_vec[OF data_codec] codec_vec[OF seq_codec]],
          of "(kv_data s, kv_lastSeq s)"]) (auto simp: kv_inv_def kv_fits_def snapshot_vec)
  with assms(4) show ?thesis by (rule restore_throws)
qed

theorem kv_restore_truncated_witness:
  "fst (KvStore_restore [0, 0, 0, 0, 0] KvStore_empty) = Inl Underrun"
proof -
  have "strict_prefix [0, 0, 0, 0, 0] (KvStore_snapshot KvStore_empty)"
    by (simp add: KvStore_snapshot_def KvStore_empty_def put_append le_bytes_eval)
  then show ?thesis
    by (intro kv_restore_truncated[of KvStore_empty]) (simp_all add: kv_inv_def kv_fits_def KvStore_empty_def)
qed

end
