(* ===== verification/Persistent_Log.thy ===== *)
theory Persistent_Log
  imports Raft_Types
begin

text \<open>
  The durable log of \<^verbatim>\<open>raft/persistent_log.h\<close>. The directory of a log is a map from file names to
  contents; \<^verbatim>\<open>std::ofstream\<close> with \<open>trunc\<close> replaces a file, \<^verbatim>\<open>std::rename\<close> moves one over another.
  Every update of a file is written to a temporary file first, so the writes of an operation
  are a list of disk operations, and a crash leaves the effect of a prefix of that list, with
  the file being written possibly cut short. A \<open>PersistentLog\<close> is the fields of the class and
  the directory. \<open>lastIndex\<close> and the other reads take the lock of the class for their whole
  body, and so do the writes: each is one step.
\<close>

section \<open>Files\<close>

type_synonym Disk = "string \<rightharpoonup> bytes"

datatype DiskOp = WriteFile string bytes | Rename string string

fun runDiskOp :: "DiskOp \<Rightarrow> Disk \<Rightarrow> Disk" where
  "runDiskOp (WriteFile f b) d = d(f \<mapsto> b)"
| "runDiskOp (Rename f g) d = (case d f of None \<Rightarrow> d | Some b \<Rightarrow> (d(g \<mapsto> b))(f := None))"

definition runDiskOps :: "DiskOp list \<Rightarrow> Disk \<Rightarrow> Disk" where
  "runDiskOps ops d = fold runDiskOp ops d"

text \<open>The directories a crash may leave: after \<open>k\<close> operations, or with the next write cut short.\<close>

inductive crashDisk :: "DiskOp list \<Rightarrow> Disk \<Rightarrow> Disk \<Rightarrow> bool" where
  crash_between: "crashDisk ops d (runDiskOps (take k ops) d)"
| crash_writing: "k < length ops \<Longrightarrow> ops ! k = WriteFile f b \<Longrightarrow>
    crashDisk ops d ((runDiskOps (take k ops) d)(f \<mapsto> take m b))"

section \<open>The log\<close>

record PersistentLog =
  plDisk :: Disk
  currentTerm :: Term
  votedFor :: NodeId
  snapshotIndex :: LogIndex
  snapshotTerm :: Term
  entries :: "LogEntry list"

definition hardStateOps :: "PersistentLog \<Rightarrow> DiskOp list" where
  "hardStateOps L =
     [WriteFile ''hardstate.tmp'' (putU32 (votedFor L) (putU64 (currentTerm L) [])),
      Rename ''hardstate.tmp'' ''hardstate'']"

definition writeHardStateLocked :: "PersistentLog \<Rightarrow> PersistentLog" where
  "writeHardStateLocked L = L\<lparr>plDisk := runDiskOps (hardStateOps L) (plDisk L)\<rparr>"

definition snapshotOps :: "bytes \<Rightarrow> PersistentLog \<Rightarrow> DiskOp list" where
  "snapshotOps snapshotBytes L =
     [WriteFile ''snapshot.bin.tmp'' (putU64 (snapshotTerm L) (putU64 (snapshotIndex L) []) @ snapshotBytes),
      Rename ''snapshot.bin.tmp'' ''snapshot.bin'']"

definition writeSnapshotLocked :: "bytes \<Rightarrow> PersistentLog \<Rightarrow> PersistentLog" where
  "writeSnapshotLocked b L = L\<lparr>plDisk := runDiskOps (snapshotOps b L) (plDisk L)\<rparr>"

definition walBytes :: "LogEntry list \<Rightarrow> bytes" where
  "walBytes es = concat (map (\<lambda>e. LogEntry_encode e []) es)"

definition walOps :: "PersistentLog \<Rightarrow> DiskOp list" where
  "walOps L =
     [WriteFile ''wal.log.tmp'' (walBytes (entries L)),
      Rename ''wal.log.tmp'' ''wal.log'']"

definition rewriteWalLocked :: "PersistentLog \<Rightarrow> PersistentLog" where
  "rewriteWalLocked L = L\<lparr>plDisk := runDiskOps (walOps L) (plDisk L)\<rparr>"

subsection \<open>Hard state\<close>

definition setHardState :: "Term \<Rightarrow> NodeId \<Rightarrow> PersistentLog \<Rightarrow> PersistentLog" where
  "setHardState t v L = writeHardStateLocked (L\<lparr>currentTerm := t, votedFor := v\<rparr>)"

subsection \<open>Entries\<close>

definition lastIndex :: "PersistentLog \<Rightarrow> LogIndex" where
  "lastIndex L = (if entries L = [] then snapshotIndex L else eindex (last (entries L)))"

definition lastTerm :: "PersistentLog \<Rightarrow> Term" where
  "lastTerm L = (if entries L = [] then snapshotTerm L else eterm (last (entries L)))"

definition termAt :: "LogIndex \<Rightarrow> PersistentLog \<Rightarrow> Term" where
  "termAt idx L =
     (if idx = snapshotIndex L then snapshotTerm L
      else if idx < snapshotIndex L then 0
      else let off = unat (idx - snapshotIndex L - 1) in
        if off \<ge> length (entries L) then 0 else eterm (entries L ! off))"

definition entryAt :: "LogIndex \<Rightarrow> PersistentLog \<Rightarrow> LogEntry option" where
  "entryAt idx L =
     (if idx \<le> snapshotIndex L then None
      else let off = unat (idx - snapshotIndex L - 1) in
        if off \<ge> length (entries L) then None else Some (entries L ! off))"

text \<open>The loop of \<open>entriesAfter\<close>: the entries still ahead, \<open>maxCount\<close> and \<open>out\<close>.\<close>

fun entriesLoop :: "LogEntry list \<Rightarrow> nat \<Rightarrow> LogEntry list \<Rightarrow> LogEntry list" where
  "entriesLoop [] maxCount out = out"
| "entriesLoop (e # es) maxCount out =
     (if maxCount \<noteq> 0 \<and> length (out @ [e]) \<ge> maxCount then out @ [e]
      else entriesLoop es maxCount (out @ [e]))"

definition entriesAfter :: "LogIndex \<Rightarrow> nat \<Rightarrow> PersistentLog \<Rightarrow> LogEntry list" where
  "entriesAfter afterIdx maxCount L =
     (if afterIdx < snapshotIndex L then []
      else entriesLoop (drop (unat (afterIdx - snapshotIndex L)) (entries L)) maxCount [])"

definition appendAndSync :: "LogEntry list \<Rightarrow> PersistentLog \<Rightarrow> PersistentLog" where
  "appendAndSync newEntries L =
     (if newEntries = [] then L
      else
        let firstNew = eindex (hd newEntries);
            keepOff = (if firstNew > snapshotIndex L then unat (firstNew - snapshotIndex L - 1) else 0);
            es = (if keepOff < length (entries L) then take keepOff (entries L) else entries L)
        in rewriteWalLocked (L\<lparr>entries := es @ newEntries\<rparr>))"

definition compactUpTo :: "LogIndex \<Rightarrow> Term \<Rightarrow> bytes \<Rightarrow> PersistentLog \<Rightarrow> PersistentLog" where
  "compactUpTo idx termAtIndex snapshotBytes L =
     (if idx \<le> snapshotIndex L then L
      else
        let dropOff = unat (idx - snapshotIndex L);
            es = (if dropOff \<le> length (entries L) then drop dropOff (entries L) else [])
        in rewriteWalLocked (writeSnapshotLocked snapshotBytes
             (L\<lparr>entries := es, snapshotIndex := idx, snapshotTerm := termAtIndex\<rparr>)))"

definition loadSnapshotBytes :: "PersistentLog \<Rightarrow> bytes option" where
  "loadSnapshotBytes L =
     (case plDisk L ''snapshot.bin'' of
        None \<Rightarrow> None
      | Some b \<Rightarrow> if length b < 16 then None else Some (drop 16 b))"

subsection \<open>Recovery\<close>

lemma LogEntry_decode_progress:
  "LogEntry_decode r = Inr (e, r') \<Longrightarrow> length (unread r') < length (unread r)"
  by (auto simp: LogEntry_decode_def rbind_Inr_iff reader_simps Let_def split: if_splits)

text \<open>The loop over \<^verbatim>\<open>wal.log\<close>: it stops at the end or at the first record that does not decode.\<close>

function loadWal :: "Reader \<Rightarrow> LogEntry list \<Rightarrow> LogEntry list" where
  "loadWal r es =
     (if reof r then es
      else case LogEntry_decode r of
        Inl x \<Rightarrow> es
      | Inr p \<Rightarrow> loadWal (snd p) (es @ [fst p]))"
  by pat_completeness auto
termination
  by (relation "measure (\<lambda>(r, es). length (unread r))")
    (auto dest: LogEntry_decode_progress)

declare loadWal.simps [simp del]

definition loadHardState :: "Disk \<Rightarrow> Term \<times> NodeId" where
  "loadHardState d =
     (case d ''hardstate'' of
        None \<Rightarrow> (0, 0)
      | Some b \<Rightarrow>
        if length b \<ge> 12 then
          (case rbind (getU64 (mkReader b)) (\<lambda>(t, r). rbind (getU32 r) (\<lambda>(v, r). Inr (t, v))) of
             Inl x \<Rightarrow> (0, 0) | Inr p \<Rightarrow> p)
        else (0, 0))"

definition loadSnapshotMeta :: "Disk \<Rightarrow> LogIndex \<times> Term" where
  "loadSnapshotMeta d =
     (case d ''snapshot.bin'' of
        None \<Rightarrow> (0, 0)
      | Some b \<Rightarrow>
        if length b \<ge> 16 then
          (case rbind (getU64 (mkReader b)) (\<lambda>(i, r). rbind (getU64 r) (\<lambda>(t, r). Inr (i, t))) of
             Inl x \<Rightarrow> (0, 0) | Inr p \<Rightarrow> p)
        else (0, 0))"

definition loadFromDisk :: "Disk \<Rightarrow> PersistentLog" where
  "loadFromDisk d =
     \<lparr>plDisk = d,
      currentTerm = fst (loadHardState d), votedFor = snd (loadHardState d),
      snapshotIndex = fst (loadSnapshotMeta d), snapshotTerm = snd (loadSnapshotMeta d),
      entries = (case d ''wal.log'' of None \<Rightarrow> [] | Some b \<Rightarrow> loadWal (mkReader b) [])\<rparr>"

section \<open>Well-formed logs\<close>

text \<open>
  The comment on \<open>entries_\<close>: entries with index above \<open>snapshotIndex\<close>, that is consecutive
  indices from the one after the snapshot, and no index wraps around.
\<close>

definition log_wf :: "PersistentLog \<Rightarrow> bool" where
  "log_wf L \<longleftrightarrow> unat (snapshotIndex L) + length (entries L) < 2 ^ 64 \<and>
     (\<forall>i < length (entries L). unat (eindex (entries L ! i)) = unat (snapshotIndex L) + 1 + i)"

text \<open>Entries with consecutive indices from \<open>n\<close> on, as a leader sends them.\<close>

definition contiguous :: "nat \<Rightarrow> LogEntry list \<Rightarrow> bool" where
  "contiguous n es \<longleftrightarrow> n + length es \<le> 2 ^ 64 \<and> (\<forall>i < length es. unat (eindex (es ! i)) = n + i)"

lemma log_wf_contiguous:
  "log_wf L \<longleftrightarrow> contiguous (unat (snapshotIndex L) + 1) (entries L)"
  by (auto simp: log_wf_def contiguous_def)

lemma contiguous_append:
  "contiguous n (xs @ ys) \<longleftrightarrow> contiguous n xs \<and> contiguous (n + length xs) ys"
  if "n + length xs + length ys \<le> 2 ^ 64"
proof
  assume c: "contiguous n (xs @ ys)"
  have "unat (eindex (xs ! i)) = n + i" if "i < length xs" for i
    using c that by (auto simp: contiguous_def nth_append dest: spec[of _ i])
  moreover have "unat (eindex (ys ! i)) = n + length xs + i" if "i < length ys" for i
    using c that by (auto simp: contiguous_def nth_append dest: spec[of _ "length xs + i"])
  ultimately show "contiguous n xs \<and> contiguous (n + length xs) ys"
    using that by (simp add: contiguous_def)
qed (use that in \<open>auto simp: contiguous_def nth_append\<close>)

lemma contiguous_take: "contiguous n es \<Longrightarrow> contiguous n (take k es)"
  by (auto simp: contiguous_def)

lemma contiguous_drop: "contiguous n es \<Longrightarrow> k \<le> length es \<Longrightarrow> contiguous (n + k) (drop k es)"
  by (auto simp: contiguous_def)

lemma contiguous_hd: "contiguous n es \<Longrightarrow> es \<noteq> [] \<Longrightarrow> unat (eindex (hd es)) = n"
  by (auto simp: contiguous_def hd_conv_nth dest: spec[of _ 0])

lemma contiguous_last:
  "contiguous n es \<Longrightarrow> es \<noteq> [] \<Longrightarrow> unat (eindex (last es)) = n + length es - 1"
  by (cases es rule: rev_cases) (auto simp: contiguous_def nth_append)

lemma unat_lastIndex: "log_wf L \<Longrightarrow> unat (lastIndex L) = unat (snapshotIndex L) + length (entries L)"
  by (auto simp: lastIndex_def log_wf_contiguous dest: contiguous_last)

text \<open>The entry a log holds at a position, over unbounded positions.\<close>

definition logNth :: "PersistentLog \<Rightarrow> nat \<Rightarrow> LogEntry option" where
  "logNth L n =
     (if unat (snapshotIndex L) < n \<and> n \<le> unat (snapshotIndex L) + length (entries L)
      then Some (entries L ! (n - unat (snapshotIndex L) - 1)) else None)"

lemma entryAt_logNth: "entryAt idx L = logNth L (unat idx)"
proof (cases "snapshotIndex L < idx")
  case True
  then show ?thesis
    by (auto simp: entryAt_def logNth_def Let_def unat_minus_minus_1 word_less_nat_alt word_le_nat_alt)
next
  case False
  then show ?thesis
    by (simp add: entryAt_def logNth_def word_less_nat_alt word_le_nat_alt)
qed

lemma termAt_logNth:
  "termAt idx L = (if idx = snapshotIndex L then snapshotTerm L
     else case logNth L (unat idx) of None \<Rightarrow> 0 | Some e \<Rightarrow> eterm e)"
proof (cases "snapshotIndex L < idx")
  case True
  then show ?thesis
    by (auto simp: termAt_def logNth_def Let_def unat_minus_minus_1 word_less_nat_alt split: option.splits)
next
  case False
  then have "idx = snapshotIndex L \<or> idx < snapshotIndex L" by auto
  then show ?thesis
    by (auto simp: termAt_def logNth_def word_less_nat_alt)
qed

lemma logNth_index: "log_wf L \<Longrightarrow> logNth L n = Some e \<Longrightarrow> unat (eindex e) = n"
  by (auto simp: logNth_def log_wf_def split: if_splits)

lemma logNth_Some_iff:
  "log_wf L \<Longrightarrow> (\<exists>e. logNth L n = Some e) \<longleftrightarrow> unat (snapshotIndex L) < n \<and> n \<le> unat (lastIndex L)"
  by (auto simp: logNth_def unat_lastIndex)

lemma entriesLoop_take:
  "entriesLoop es mc out = out @ (if mc = 0 then es else take (max 1 (mc - length out)) es)"
proof (induction es arbitrary: out)
  case (Cons e es)
  then show ?case
    by (auto simp: max_def take_Cons' le_Suc_eq not_le numeral_eq_Suc)
qed simp

lemma entriesAfter_eq:
  "entriesAfter idx mc L =
    (if idx < snapshotIndex L then []
     else let es = drop (unat idx - unat (snapshotIndex L)) (entries L) in
       if mc = 0 then es else take mc es)"
  by (auto simp: entriesAfter_def entriesLoop_take Let_def unat_sub word_less_nat_alt word_le_nat_alt not_less max_def)

lemma contiguous_entriesAfter:
  assumes "log_wf L" "snapshotIndex L \<le> idx" "idx \<le> lastIndex L"
  shows "contiguous (unat idx + 1) (entriesAfter idx mc L)"
proof -
  have le: "unat (snapshotIndex L) \<le> unat idx"
    "unat idx - unat (snapshotIndex L) \<le> length (entries L)"
    using assms by (simp_all add: word_le_nat_alt unat_lastIndex)
  then have "contiguous (unat (snapshotIndex L) + 1 + (unat idx - unat (snapshotIndex L)))
      (drop (unat idx - unat (snapshotIndex L)) (entries L))"
    using assms(1) by (intro contiguous_drop) (simp_all add: log_wf_contiguous)
  then show ?thesis
    using le assms(2) by (auto simp: entriesAfter_eq Let_def not_less[symmetric] intro: contiguous_take)
qed

subsection \<open>Appending\<close>

text \<open>
  New entries extend or overwrite a log when they are consecutive and start above the snapshot
  and not beyond the end of the log.
\<close>

definition fits_log :: "LogEntry list \<Rightarrow> PersistentLog \<Rightarrow> bool" where
  "fits_log es L \<longleftrightarrow> es \<noteq> [] \<and> contiguous (unat (eindex (hd es))) es \<and>
     snapshotIndex L < eindex (hd es) \<and> unat (eindex (hd es)) \<le> unat (lastIndex L) + 1"

lemma appendAndSync_entries:
  assumes "log_wf L" "fits_log es L"
  shows "entries (appendAndSync es L) =
    take (unat (eindex (hd es)) - unat (snapshotIndex L) - 1) (entries L) @ es"
  using assms unat_minus_minus_1[of "snapshotIndex L" "eindex (hd es)"]
  by (auto simp: appendAndSync_def fits_log_def Let_def rewriteWalLocked_def unat_lastIndex)

lemma appendAndSync_fields [simp]:
  "currentTerm (appendAndSync es L) = currentTerm L" "votedFor (appendAndSync es L) = votedFor L"
  "snapshotIndex (appendAndSync es L) = snapshotIndex L" "snapshotTerm (appendAndSync es L) = snapshotTerm L"
  by (simp_all add: appendAndSync_def rewriteWalLocked_def Let_def)

lemma setHardState_fields [simp]:
  "currentTerm (setHardState t v L) = t" "votedFor (setHardState t v L) = v"
  "snapshotIndex (setHardState t v L) = snapshotIndex L" "snapshotTerm (setHardState t v L) = snapshotTerm L"
  "entries (setHardState t v L) = entries L"
  by (simp_all add: setHardState_def writeHardStateLocked_def)

lemma compactUpTo_fields [simp]:
  "currentTerm (compactUpTo i t b L) = currentTerm L" "votedFor (compactUpTo i t b L) = votedFor L"
  by (simp_all add: compactUpTo_def rewriteWalLocked_def writeSnapshotLocked_def Let_def)

lemma compactUpTo_eq:
  "snapshotIndex L < i \<Longrightarrow> snapshotIndex (compactUpTo i t b L) = i"
  "snapshotIndex L < i \<Longrightarrow> snapshotTerm (compactUpTo i t b L) = t"
  "snapshotIndex L < i \<Longrightarrow> entries (compactUpTo i t b L) = drop (unat i - unat (snapshotIndex L)) (entries L)"
  "\<not> snapshotIndex L < i \<Longrightarrow> compactUpTo i t b L = L"
  by (auto simp: not_le compactUpTo_def rewriteWalLocked_def writeSnapshotLocked_def Let_def unat_sub)

lemma log_wf_setHardState [simp]: "log_wf (setHardState t v L) \<longleftrightarrow> log_wf L"
  by (simp add: log_wf_def)

lemma log_reads_setHardState [simp]:
  "lastIndex (setHardState t v L) = lastIndex L" "lastTerm (setHardState t v L) = lastTerm L"
  "termAt i (setHardState t v L) = termAt i L" "logNth (setHardState t v L) n = logNth L n"
  by (simp_all add: lastIndex_def lastTerm_def termAt_def logNth_def Let_def)

lemma appendAndSync_log_wf:
  assumes "log_wf L" "fits_log es L"
  shows "log_wf (appendAndSync es L)"
proof -
  let ?s = "unat (snapshotIndex L)" and ?f = "unat (eindex (hd es))"
  have f: "?s < ?f" "?f \<le> ?s + length (entries L) + 1" "contiguous ?f es" "?f + length es \<le> 2 ^ 64"
    using assms by (auto simp: fits_log_def word_less_nat_alt unat_lastIndex contiguous_def)
  have len: "length (take (?f - ?s - 1) (entries L)) = ?f - ?s - 1"
    using f by simp
  have "contiguous (?s + 1) (take (?f - ?s - 1) (entries L) @ es)"
    using f len assms(1) by (subst contiguous_append) (auto simp: log_wf_contiguous intro: contiguous_take)
  then show ?thesis
    using assms by (simp add: log_wf_contiguous appendAndSync_entries[OF assms])
qed

lemma logNth_appendAndSync:
  assumes "log_wf L" "fits_log es L"
  shows "logNth (appendAndSync es L) n =
    (if n < unat (eindex (hd es)) then logNth L n
     else if n < unat (eindex (hd es)) + length es then Some (es ! (n - unat (eindex (hd es)))) else None)"
proof -
  let ?s = "unat (snapshotIndex L)" and ?f = "unat (eindex (hd es))"
  have f: "?s < ?f" "?f \<le> ?s + length (entries L) + 1"
    using assms by (auto simp: fits_log_def word_less_nat_alt unat_lastIndex)
  have "n - Suc ?s - (?f - Suc ?s) = n - ?f" if "?f \<le> n" for n
    using that f by simp
  then show ?thesis
    using f by (auto simp: logNth_def appendAndSync_entries[OF assms] nth_append)
qed

lemma lastIndex_appendAndSync:
  assumes "es \<noteq> []"
  shows "lastIndex (appendAndSync es L) = eindex (last es)"
    and "lastTerm (appendAndSync es L) = eterm (last es)"
  using assms by (simp_all add: lastIndex_def lastTerm_def appendAndSync_def rewriteWalLocked_def Let_def)

text \<open>One entry appended at the end.\<close>

lemma append_one:
  assumes "log_wf L" "unat (lastIndex L) + 1 < 2 ^ 64" "eindex e = lastIndex L + 1"
  shows "log_wf (appendAndSync [e] L)" "lastIndex (appendAndSync [e] L) = lastIndex L + 1"
    "entries (appendAndSync [e] L) = entries L @ [e]" "logNth (appendAndSync [e] L) (unat (lastIndex L) + 1) = Some e"
    "termAt (lastIndex L + 1) (appendAndSync [e] L) = eterm e" "lastIndex L < lastIndex L + 1"
    "snapshotIndex L \<le> lastIndex L"
proof -
  have u: "unat (lastIndex L + 1) = unat (lastIndex L) + 1" using assms(2) by (simp add: unat_plus_1)
  have s: "unat (snapshotIndex L) \<le> unat (lastIndex L)" using assms(1) by (simp add: unat_lastIndex)
  have fits: "fits_log [e] L"
    using u s assms(2,3) by (simp add: fits_log_def contiguous_def word_less_nat_alt)
  show "log_wf (appendAndSync [e] L)" using assms(1) fits by (rule appendAndSync_log_wf)
  show "lastIndex (appendAndSync [e] L) = lastIndex L + 1" using assms(3) by (simp add: lastIndex_appendAndSync)
  show "entries (appendAndSync [e] L) = entries L @ [e]"
    using u s appendAndSync_entries[OF assms(1) fits] unat_lastIndex[OF assms(1)] assms(3) by simp
  show nth: "logNth (appendAndSync [e] L) (unat (lastIndex L) + 1) = Some e"
    using logNth_appendAndSync[OF assms(1) fits] u assms(3) by simp
  show "termAt (lastIndex L + 1) (appendAndSync [e] L) = eterm e"
    using nth u s by (auto simp: termAt_logNth)
  show "lastIndex L < lastIndex L + 1" using u by (simp add: word_less_nat_alt)
  show "snapshotIndex L \<le> lastIndex L" using s by (simp add: word_le_nat_alt)
qed

lemma compactUpTo_log_wf:
  assumes "log_wf L"
  shows "log_wf (compactUpTo i t b L)"
proof (cases "snapshotIndex L < i")
  case True
  let ?k = "unat i - unat (snapshotIndex L)"
  have lt: "unat (snapshotIndex L) < unat i"
    using True by (simp add: word_less_nat_alt)
  show ?thesis
  proof (cases "?k \<le> length (entries L)")
    case le: True
    then have "contiguous (unat (snapshotIndex L) + 1 + ?k) (drop ?k (entries L))"
      using assms by (intro contiguous_drop) (simp_all add: log_wf_contiguous)
    then show ?thesis
      using True lt by (simp add: log_wf_contiguous compactUpTo_eq)
  next
    case False
    then show ?thesis
      using True unsigned_less[of i, where ?'a = nat] by (simp add: log_wf_def compactUpTo_eq)
  qed
qed (use assms in \<open>simp add: compactUpTo_eq\<close>)

lemma logNth_compactUpTo:
  assumes "unat i \<le> n" "unat i < n \<or> snapshotIndex L < i"
  shows "logNth (compactUpTo i t b L) n = (if n = unat i then None else logNth L n)"
proof (cases "snapshotIndex L < i")
  case True
  then have "unat (snapshotIndex L) < unat i"
    by (simp add: word_less_nat_alt)
  then show ?thesis
    using assms True by (auto simp: logNth_def compactUpTo_eq intro: arg_cong[of _ _ "nth (entries L)"])
qed (use assms in \<open>auto simp: compactUpTo_eq\<close>)

section \<open>Durability\<close>

text \<open>A log is in sync with its directory when a restart reads back exactly its fields.\<close>

definition synced :: "PersistentLog \<Rightarrow> bool" where
  "synced L \<longleftrightarrow> loadFromDisk (plDisk L) = L"

text \<open>The updates of a log, and running a sequence of them.\<close>

datatype LogOp = SetHardState Term NodeId | AppendAndSync "LogEntry list" | CompactUpTo LogIndex Term bytes

fun runLogOp :: "LogOp \<Rightarrow> PersistentLog \<Rightarrow> PersistentLog" where
  "runLogOp (SetHardState t v) L = setHardState t v L"
| "runLogOp (AppendAndSync es) L = appendAndSync es L"
| "runLogOp (CompactUpTo i t b) L = compactUpTo i t b L"

fun logOp_ok :: "LogOp \<Rightarrow> bool" where
  "logOp_ok (AppendAndSync es) \<longleftrightarrow> (\<forall>e\<in>set es. entry_ok e)"
| "logOp_ok _ \<longleftrightarrow> True"

lemma runDiskOps_replace:
  "f \<noteq> g \<Longrightarrow> runDiskOps [WriteFile f b, Rename f g] d = (d(g \<mapsto> b))(f := None)"
  by (auto simp: runDiskOps_def fun_upd_twist)

lemma loadHardState_written:
  "d ''hardstate'' = Some (putU32 v (putU64 t [])) \<Longrightarrow> loadHardState d = (t, v)"
  by (simp add: loadHardState_def put_append reader_simps)

lemma loadSnapshotMeta_written:
  "d ''snapshot.bin'' = Some (putU64 t (putU64 i []) @ b) \<Longrightarrow> loadSnapshotMeta d = (i, t)"
  by (simp add: loadSnapshotMeta_def put_append reader_simps)

lemma load_cong:
  "d ''hardstate'' = d' ''hardstate'' \<Longrightarrow> loadHardState d = loadHardState d'"
  "d ''snapshot.bin'' = d' ''snapshot.bin'' \<Longrightarrow> loadSnapshotMeta d = loadSnapshotMeta d'"
  by (simp_all add: loadHardState_def loadSnapshotMeta_def)

lemma length_LogEntry_encode: "length (LogEntry_encode e []) = 21 + length (edata e)"
  by (simp add: LogEntry_encode_def put_append)

lemma walBytes_Cons: "walBytes (e # es) = LogEntry_encode e [] @ walBytes es"
  by (simp add: walBytes_def)

text \<open>
  Recovery of a \<^verbatim>\<open>wal.log\<close> whose tail is missing: the records that are complete are recovered and
  the partial record at the end is ignored.
\<close>

lemma loadWal_prefix:
  assumes "\<forall>e\<in>set es. entry_ok e" "prefix (unread r) (walBytes es)"
  shows "\<exists>j \<le> length es. loadWal r acc = acc @ take j es \<and>
    (\<forall>i \<le> length es. length (walBytes (take i es)) \<le> length (unread r) \<longrightarrow> i \<le> j)"
  using assms
proof (induction es arbitrary: r acc)
  case Nil
  then show ?case
    by (simp add: walBytes_def loadWal.simps reof_unread)
next
  case (Cons e es)
  have e: "entry_ok e" using Cons.prems(1) by simp
  show ?case
  proof (cases "strict_prefix (unread r) (LogEntry_encode e [])")
    case True
    have stop: "loadWal r acc = acc"
      using LogEntry.dec_torn[OF e True] by (simp add: loadWal.simps)
    have "i = 0" if "length (walBytes (take i (e # es))) \<le> length (unread r)" for i
      using that strict_prefix_length[OF True] by (cases i) (simp_all add: walBytes_Cons)
    then show ?thesis using stop by (intro exI[of _ 0]) auto
  next
    case False
    then obtain u where u: "unread r = LogEntry_encode e [] @ u" "prefix u (walBytes es)"
      using Cons.prems(2) by (auto simp: walBytes_Cons prefix_append strict_prefix_def)
    let ?r = "advance (length (LogEntry_encode e [])) r"
    have more: "loadWal r acc = loadWal ?r (acc @ [e])"
      using LogEntry.dec_enc[OF e u(1)] u(1) length_LogEntry_encode[of e]
      by (subst loadWal.simps) (auto simp: reof_unread)
    obtain j where j: "j \<le> length es" "loadWal ?r (acc @ [e]) = (acc @ [e]) @ take j es"
      "\<forall>i \<le> length es. length (walBytes (take i es)) \<le> length (unread ?r) \<longrightarrow> i \<le> j"
      using Cons.IH[of ?r "acc @ [e]"] Cons.prems(1) u by auto
    have "i \<le> Suc j" if "i \<le> length (e # es)" "length (walBytes (take i (e # es))) \<le> length (unread r)" for i
      using that j(3) u(1) by (cases i) (auto simp: walBytes_Cons)
    then show ?thesis using more j by (intro exI[of _ "Suc j"]) auto
  qed
qed

lemma loadWal_walBytes:
  assumes "\<forall>e\<in>set es. entry_ok e"
  shows "loadWal (mkReader (walBytes es)) [] = es"
proof -
  obtain j where "j \<le> length es" "loadWal (mkReader (walBytes es)) [] = take j es" "length es \<le> j"
    using loadWal_prefix[OF assms, of "mkReader (walBytes es)" "[]"] by auto
  then show ?thesis by simp
qed

lemma hardState_disk:
  "plDisk (writeHardStateLocked L) = ((plDisk L)(''hardstate'' \<mapsto> putU32 (votedFor L) (putU64 (currentTerm L) [])))(''hardstate.tmp'' := None)"
  by (simp add: writeHardStateLocked_def hardStateOps_def runDiskOps_replace)

lemma snapshot_disk:
  "plDisk (writeSnapshotLocked b L) =
    ((plDisk L)(''snapshot.bin'' \<mapsto> putU64 (snapshotTerm L) (putU64 (snapshotIndex L) []) @ b))(''snapshot.bin.tmp'' := None)"
  by (simp add: writeSnapshotLocked_def snapshotOps_def runDiskOps_replace)

lemma wal_disk:
  "plDisk (rewriteWalLocked L) = ((plDisk L)(''wal.log'' \<mapsto> walBytes (entries L)))(''wal.log.tmp'' := None)"
  by (simp add: rewriteWalLocked_def walOps_def runDiskOps_replace)

lemma synced_iff:
  "synced L \<longleftrightarrow> loadHardState (plDisk L) = (currentTerm L, votedFor L) \<and>
     loadSnapshotMeta (plDisk L) = (snapshotIndex L, snapshotTerm L) \<and>
     (case plDisk L ''wal.log'' of None \<Rightarrow> [] | Some b \<Rightarrow> loadWal (mkReader b) []) = entries L"
  by (cases L) (auto simp: synced_def loadFromDisk_def prod_eq_iff)

lemma setHardState_disk:
  "plDisk (setHardState t v L) = ((plDisk L)(''hardstate'' \<mapsto> putU32 v (putU64 t [])))(''hardstate.tmp'' := None)"
  by (simp add: setHardState_def hardState_disk)

lemma compactUpTo_disk:
  assumes "snapshotIndex L < i"
  shows "plDisk (compactUpTo i t b L) =
    ((((plDisk L)(''snapshot.bin'' \<mapsto> putU64 t (putU64 i []) @ b))(''snapshot.bin.tmp'' := None))
      (''wal.log'' \<mapsto> walBytes (entries (compactUpTo i t b L))))(''wal.log.tmp'' := None)"
proof -
  have "\<not> i \<le> snapshotIndex L" using assms by simp
  then show ?thesis
    by (simp add: compactUpTo_def wal_disk snapshot_disk Let_def)
      (simp add: rewriteWalLocked_def writeSnapshotLocked_def)
qed

lemma appendAndSync_disk:
  "es \<noteq> [] \<Longrightarrow> plDisk (appendAndSync es L) =
    ((plDisk L)(''wal.log'' \<mapsto> walBytes (entries (appendAndSync es L))))(''wal.log.tmp'' := None)"
  by (simp add: appendAndSync_def wal_disk Let_def) (simp add: rewriteWalLocked_def)

lemma synced_setHardState:
  assumes "synced L"
  shows "synced (setHardState t v L)"
proof -
  have "loadSnapshotMeta (plDisk (setHardState t v L)) = loadSnapshotMeta (plDisk L)"
    by (rule load_cong) (simp add: setHardState_disk)
  moreover have "loadHardState (plDisk (setHardState t v L)) = (t, v)"
    by (rule loadHardState_written) (simp add: setHardState_disk)
  ultimately show ?thesis
    using assms by (simp add: synced_iff) (simp add: setHardState_disk)
qed

lemma synced_appendAndSync:
  assumes "synced L" "\<forall>e\<in>set (entries L) \<union> set es. entry_ok e"
  shows "synced (appendAndSync es L)"
proof (cases "es = []")
  case True
  then show ?thesis using assms by (simp add: appendAndSync_def)
next
  case False
  have "loadSnapshotMeta (plDisk (appendAndSync es L)) = loadSnapshotMeta (plDisk L)"
    and "loadHardState (plDisk (appendAndSync es L)) = loadHardState (plDisk L)"
    using False by (auto intro!: load_cong simp: appendAndSync_disk)
  moreover have "\<forall>e\<in>set (entries (appendAndSync es L)). entry_ok e"
    using assms(2) False by (auto simp: appendAndSync_def Let_def rewriteWalLocked_def dest: in_set_takeD)
  ultimately show ?thesis
    using assms(1) False by (simp add: synced_iff appendAndSync_disk loadWal_walBytes)
qed

lemma entries_compactUpTo_subset: "set (entries (compactUpTo i t b L)) \<subseteq> set (entries L)"
  by (cases "snapshotIndex L < i") (auto simp: compactUpTo_eq dest: in_set_dropD)

lemma synced_compactUpTo:
  assumes "synced L" "\<forall>e\<in>set (entries L). entry_ok e"
  shows "synced (compactUpTo i t b L)"
proof (cases "snapshotIndex L < i")
  case False
  then show ?thesis using assms by (simp add: compactUpTo_eq)
next
  case True
  have "loadHardState (plDisk (compactUpTo i t b L)) = loadHardState (plDisk L)"
    using True by (auto intro!: load_cong simp: compactUpTo_disk)
  moreover have "loadSnapshotMeta (plDisk (compactUpTo i t b L)) = (i, t)"
    using True by (auto intro!: loadSnapshotMeta_written simp: compactUpTo_disk)
  moreover have "\<forall>e\<in>set (entries (compactUpTo i t b L)). entry_ok e"
    using assms(2) entries_compactUpTo_subset by blast
  ultimately show ?thesis
    using assms(1) True by (simp add: synced_iff compactUpTo_disk loadWal_walBytes compactUpTo_eq)
qed

section \<open>Crashes\<close>

text \<open>The disk operations of a compaction, in the order the code issues them.\<close>

definition compactOps :: "LogIndex \<Rightarrow> Term \<Rightarrow> bytes \<Rightarrow> PersistentLog \<Rightarrow> DiskOp list" where
  "compactOps i t b L =
     (let L' = L\<lparr>entries := drop (unat (i - snapshotIndex L)) (entries L), snapshotIndex := i, snapshotTerm := t\<rparr>
      in snapshotOps b L' @ walOps L')"

lemma compactOps_run:
  assumes "snapshotIndex L < i"
  shows "plDisk (compactUpTo i t b L) = runDiskOps (compactOps i t b L) (plDisk L)"
proof -
  have "\<not> i \<le> snapshotIndex L" using assms by simp
  moreover have "(if n \<le> length es then drop n es else []) = drop n es" for n and es :: "LogEntry list"
    by simp
  ultimately show ?thesis
    by (simp add: compactUpTo_def compactOps_def Let_def rewriteWalLocked_def writeSnapshotLocked_def
        snapshotOps_def walOps_def runDiskOps_def del: runDiskOp.simps)
qed

lemma load_frame:
  assumes "d ''hardstate'' = d' ''hardstate''" "d ''snapshot.bin'' = d' ''snapshot.bin''" "d ''wal.log'' = d' ''wal.log''"
  shows "loadFromDisk d = (loadFromDisk d')\<lparr>plDisk := d\<rparr>"
proof -
  have "loadHardState d = loadHardState d'" using assms(1) by (rule load_cong)
  moreover have "loadSnapshotMeta d = loadSnapshotMeta d'" using assms(2) by (rule load_cong)
  ultimately show ?thesis using assms(3) by (simp add: loadFromDisk_def)
qed

lemma crashDisk_replace:
  assumes "crashDisk [WriteFile f b, Rename f g] d d'" "f \<noteq> g"
  shows "(\<forall>h. h \<noteq> f \<longrightarrow> d' h = d h) \<or> d' = (d(g \<mapsto> b))(f := None)"
  using assms(1)
proof cases
  case (crash_between k)
  consider "k = 0" | "k = 1" | "2 \<le> k" by linarith
  then show ?thesis
    using crash_between assms(2) by cases (simp_all add: runDiskOps_replace, simp_all add: runDiskOps_def)
next
  case (crash_writing k f' b' m)
  then have "k = 0" by (cases k) (auto simp: less_Suc_eq)
  with crash_writing show ?thesis by (simp add: runDiskOps_def)
qed

lemma crash_setHardState:
  assumes "synced L" "crashDisk (hardStateOps (L\<lparr>currentTerm := t, votedFor := v\<rparr>)) (plDisk L) d"
  shows "loadFromDisk d = L\<lparr>plDisk := d\<rparr> \<or> loadFromDisk d = setHardState t v L"
proof -
  let ?b = "putU32 v (putU64 t [])"
  have "(\<forall>h. h \<noteq> ''hardstate.tmp'' \<longrightarrow> d h = plDisk L h) \<or>
      d = ((plDisk L)(''hardstate'' \<mapsto> ?b))(''hardstate.tmp'' := None)"
    using assms(2) by (intro crashDisk_replace) (simp_all add: hardStateOps_def)
  then show ?thesis
  proof
    assume "\<forall>h. h \<noteq> ''hardstate.tmp'' \<longrightarrow> d h = plDisk L h"
    then have "loadFromDisk d = (loadFromDisk (plDisk L))\<lparr>plDisk := d\<rparr>"
      by (intro load_frame) simp_all
    then show ?thesis using assms(1) by (simp add: synced_def)
  next
    assume "d = ((plDisk L)(''hardstate'' \<mapsto> ?b))(''hardstate.tmp'' := None)"
    then have "d = plDisk (setHardState t v L)" by (simp add: setHardState_disk)
    then show ?thesis using synced_setHardState[OF assms(1)] by (simp add: synced_def)
  qed
qed

lemma crash_appendAndSync:
  assumes "synced L" "\<forall>e\<in>set (entries L) \<union> set es. entry_ok e" "es \<noteq> []"
    and "crashDisk (walOps (appendAndSync es L)) (plDisk L) d"
  shows "loadFromDisk d = L\<lparr>plDisk := d\<rparr> \<or> loadFromDisk d = appendAndSync es L"
proof -
  let ?b = "walBytes (entries (appendAndSync es L))"
  have "(\<forall>h. h \<noteq> ''wal.log.tmp'' \<longrightarrow> d h = plDisk L h) \<or>
      d = ((plDisk L)(''wal.log'' \<mapsto> ?b))(''wal.log.tmp'' := None)"
    using assms(4) by (intro crashDisk_replace) (simp_all add: walOps_def)
  then show ?thesis
  proof
    assume "\<forall>h. h \<noteq> ''wal.log.tmp'' \<longrightarrow> d h = plDisk L h"
    then have "loadFromDisk d = (loadFromDisk (plDisk L))\<lparr>plDisk := d\<rparr>"
      by (intro load_frame) simp_all
    then show ?thesis using assms(1) by (simp add: synced_def)
  next
    assume "d = ((plDisk L)(''wal.log'' \<mapsto> ?b))(''wal.log.tmp'' := None)"
    then have "d = plDisk (appendAndSync es L)" using assms(3) by (simp add: appendAndSync_disk)
    then show ?thesis using synced_appendAndSync[OF assms(1,2)] by (simp add: synced_def)
  qed
qed

lemma runLogOp_keeps:
  assumes "synced L" "\<forall>e\<in>set (entries L). entry_ok e" "logOp_ok o'"
  shows "synced (runLogOp o' L) \<and> (\<forall>e\<in>set (entries (runLogOp o' L)). entry_ok e)"
proof (cases o')
  case (SetHardState t v)
  then show ?thesis using assms by (simp add: synced_setHardState)
next
  case (AppendAndSync es)
  then have "synced (appendAndSync es L)"
    using assms by (intro synced_appendAndSync) auto
  then show ?thesis
    using assms AppendAndSync
    by (auto simp: appendAndSync_def Let_def rewriteWalLocked_def split: if_splits dest: in_set_takeD)
next
  case (CompactUpTo i t b)
  then show ?thesis
    using assms entries_compactUpTo_subset[of i t b L] by (auto simp: synced_compactUpTo)
qed

section \<open>Properties\<close>

text \<open>C11. Durability: after any sequence of hard-state writes, appends and compactions, a restart
  reads back from the directory exactly the term, the vote, the snapshot position and the
  entries the log had in memory.\<close>

theorem log_recovery:
  assumes "synced L" "\<forall>e\<in>set (entries L). entry_ok e" "\<forall>o'\<in>set ops. logOp_ok o'"
  shows "loadFromDisk (plDisk (fold runLogOp ops L)) = fold runLogOp ops L"
proof -
  have "synced (fold runLogOp ops L)"
    using assms
  proof (induction ops arbitrary: L)
    case (Cons o' ops)
    then have "synced (runLogOp o' L)" "\<forall>e\<in>set (entries (runLogOp o' L)). entry_ok e"
      using runLogOp_keeps[of L o'] by auto
    then show ?case using Cons by simp
  qed simp
  then show ?thesis by (simp add: synced_def)
qed

definition sample_log_ops :: "LogOp list" where
  "sample_log_ops = [SetHardState 3 1, AppendAndSync [sample_entry], CompactUpTo 7 3 [5], AppendAndSync [sample_entry]]"

theorem log_recovery_witness:
  "loadFromDisk (plDisk (fold runLogOp sample_log_ops (loadFromDisk Map.empty))) =
    fold runLogOp sample_log_ops (loadFromDisk Map.empty)"
proof (rule log_recovery)
  show "synced (loadFromDisk Map.empty)" and "\<forall>e\<in>set (entries (loadFromDisk Map.empty)). entry_ok e"
    by (simp_all add: synced_def loadFromDisk_def)
  show "\<forall>o'\<in>set sample_log_ops. logOp_ok o'"
    by (simp add: sample_log_ops_def sample_entry_def entry_ok_def)
qed

text \<open>C13. A crash at any point of a hard-state write, even inside the write of the temporary file,
  leaves a directory from which a restart reads either the old term and vote or the new ones,
  with entries and snapshot position untouched.\<close>

theorem hard_state_crash_atomic:
  assumes "synced L" "crashDisk (hardStateOps (L\<lparr>currentTerm := t, votedFor := v\<rparr>)) (plDisk L) d"
  shows "loadFromDisk d = L\<lparr>plDisk := d\<rparr> \<or> loadFromDisk d = setHardState t v L"
  using assms by (rule crash_setHardState)

theorem hard_state_crash_atomic_witness:
  "loadFromDisk [''hardstate.tmp'' \<mapsto> [2]] = (loadFromDisk Map.empty)\<lparr>plDisk := [''hardstate.tmp'' \<mapsto> [2]]\<rparr> \<or>
   loadFromDisk [''hardstate.tmp'' \<mapsto> [2]] = setHardState 2 1 (loadFromDisk Map.empty)"
proof (rule hard_state_crash_atomic)
  let ?L = "loadFromDisk Map.empty"
  show "synced ?L" by (simp add: synced_def loadFromDisk_def)
  have "crashDisk (hardStateOps (?L\<lparr>currentTerm := 2, votedFor := 1\<rparr>)) (plDisk ?L)
      ((runDiskOps (take 0 (hardStateOps (?L\<lparr>currentTerm := 2, votedFor := 1\<rparr>))) (plDisk ?L))
        (''hardstate.tmp'' \<mapsto> take 1 (putU32 1 (putU64 2 []))))"
    by (rule crash_writing) (simp_all add: hardStateOps_def)
  then show "crashDisk (hardStateOps (?L\<lparr>currentTerm := 2, votedFor := 1\<rparr>)) (plDisk ?L) [''hardstate.tmp'' \<mapsto> [2]]"
    by (simp add: runDiskOps_def loadFromDisk_def put_append le_bytes_eval)
qed



text \<open>A write-ahead log with a torn tail is recovered up to its last complete record: reading any
  prefix of the file yields a prefix of the entries that holds every entry whose record is
  complete, and the loop returns on every input.\<close>

theorem wal_torn_tail:
  assumes "\<forall>e\<in>set es. entry_ok e"
  shows "\<exists>j \<le> length es. loadWal (mkReader (take k (walBytes es))) [] = take j es \<and>
    (\<forall>i \<le> length es. length (walBytes (take i es)) \<le> min k (length (walBytes es)) \<longrightarrow> i \<le> j)"
  using loadWal_prefix[OF assms, of "mkReader (take k (walBytes es))" "[]"]
  by (simp add: take_is_prefix min.commute)

theorem wal_torn_tail_witness:
  "\<exists>j \<le> 2. loadWal (mkReader (take 30 (walBytes [sample_entry, sample_entry]))) [] = take j [sample_entry, sample_entry] \<and> 1 \<le> j"
proof -
  let ?es = "[sample_entry, sample_entry]"
  have "\<forall>e\<in>set ?es. entry_ok e"
    by (simp add: sample_entry_def entry_ok_def)
  from wal_torn_tail[OF this, of 30] obtain j where "j \<le> length ?es"
    "loadWal (mkReader (take 30 (walBytes ?es))) [] = take j ?es"
    "\<forall>i \<le> length ?es. length (walBytes (take i ?es)) \<le> min 30 (length (walBytes ?es)) \<longrightarrow> i \<le> j"
    by blast
  then show ?thesis
    by (intro exI[of _ j]) (auto simp: walBytes_def length_LogEntry_encode sample_entry_def dest!: spec[of _ 1])
qed

text \<open>Appending entries that are consecutive, start above the snapshot and leave no gap keeps
  the log well-formed, keeps every entry before them, drops every old entry from their first
  index on, and makes them readable at their indices.\<close>

theorem append_correct:
  assumes "log_wf L" "fits_log es L"
  shows "log_wf (appendAndSync es L) \<and> lastIndex (appendAndSync es L) = eindex (last es) \<and>
    (\<forall>idx. entryAt idx (appendAndSync es L) =
      (if idx < eindex (hd es) then entryAt idx L
       else if unat idx < unat (eindex (hd es)) + length es
         then Some (es ! (unat idx - unat (eindex (hd es)))) else None))"
  using assms appendAndSync_log_wf[OF assms] lastIndex_appendAndSync[of es L]
  by (auto simp: entryAt_logNth logNth_appendAndSync word_less_nat_alt fits_log_def)

definition mkEntry :: "Term \<Rightarrow> LogIndex \<Rightarrow> LogEntry" where
  "mkEntry t i = \<lparr>eterm = t, eindex = i, etype = Command, edata = []\<rparr>"

definition sample_log :: PersistentLog where
  "sample_log = appendAndSync [mkEntry 1 1, mkEntry 1 2, mkEntry 2 3] (loadFromDisk Map.empty)"

lemma sample_log_fields:
  "snapshotIndex sample_log = 0" "entries sample_log = [mkEntry 1 1, mkEntry 1 2, mkEntry 2 3]"
  by (simp_all add: sample_log_def appendAndSync_def rewriteWalLocked_def loadFromDisk_def loadSnapshotMeta_def)

theorem append_correct_witness:
  "log_wf (appendAndSync [mkEntry 3 2] sample_log) \<and> entryAt 3 (appendAndSync [mkEntry 3 2] sample_log) = None"
proof -
  have wf: "log_wf sample_log"
    by (simp add: log_wf_def sample_log_fields mkEntry_def less_Suc_eq)
  have fits: "fits_log [mkEntry 3 2] sample_log"
    by (simp add: fits_log_def sample_log_fields lastIndex_def contiguous_def mkEntry_def)
  show ?thesis
    using append_correct[OF wf fits] by (auto simp: mkEntry_def)
qed

text \<open>Compaction keeps the log well-formed, remembers the snapshot's index and term as the new
  boundary and leaves every entry above the index as it was.\<close>

theorem compact_correct:
  assumes "log_wf L" "snapshotIndex L < i"
  shows "log_wf (compactUpTo i t b L) \<and> termAt i (compactUpTo i t b L) = t \<and>
    lastIndex (compactUpTo i t b L) = max i (lastIndex L) \<and>
    loadSnapshotBytes (compactUpTo i t b L) = Some b \<and>
    (\<forall>idx > i. entryAt idx (compactUpTo i t b L) = entryAt idx L)"
proof -
  have wf: "log_wf (compactUpTo i t b L)" using assms(1) by (rule compactUpTo_log_wf)
  have lt: "unat (snapshotIndex L) < unat i" using assms(2) by (simp add: word_less_nat_alt)
  have "unat (lastIndex (compactUpTo i t b L)) = unat (max i (lastIndex L))"
    using lt assms unat_lastIndex[OF wf] unat_lastIndex[OF assms(1)]
    by (simp add: compactUpTo_eq max_def word_le_nat_alt)
  then have "lastIndex (compactUpTo i t b L) = max i (lastIndex L)"
    by (simp only: word_unat_eq_iff)
  moreover have "\<forall>idx > i. entryAt idx (compactUpTo i t b L) = entryAt idx L"
    by (auto simp: entryAt_logNth logNth_compactUpTo word_less_nat_alt)
  moreover have "termAt i (compactUpTo i t b L) = t"
    using assms(2) by (simp add: termAt_def compactUpTo_eq)
  moreover have "loadSnapshotBytes (compactUpTo i t b L) = Some b"
    using assms(2) by (simp add: loadSnapshotBytes_def compactUpTo_disk put_append)
  ultimately show ?thesis using wf by blast
qed

theorem compact_correct_witness:
  "lastIndex (compactUpTo 2 1 [] sample_log) = 3"
proof -
  have "log_wf sample_log"
    by (simp add: log_wf_def sample_log_fields mkEntry_def less_Suc_eq)
  moreover have "snapshotIndex sample_log < 2"
    by (simp add: sample_log_fields)
  ultimately have "lastIndex (compactUpTo 2 1 [] sample_log) = max 2 (lastIndex sample_log)"
    using compact_correct[of sample_log 2 1 "[]"] by blast
  then show ?thesis by (simp add: lastIndex_def sample_log_fields mkEntry_def)
qed

section \<open>Where the log can lose its alignment\<close>

lemma sample_log_ok: "log_wf sample_log" "\<forall>e\<in>set (entries sample_log). entry_ok e"
  by (simp_all add: log_wf_def sample_log_fields mkEntry_def less_Suc_eq entry_ok_def)

lemma sample_log_disk: "plDisk sample_log = ([''wal.log'' \<mapsto> walBytes (entries sample_log)])(''wal.log.tmp'' := None)"
  using appendAndSync_disk[of "[mkEntry 1 1, mkEntry 1 2, mkEntry 2 3]" "loadFromDisk Map.empty"]
  by (simp add: sample_log_def loadFromDisk_def)

lemma sample_log_synced: "synced sample_log"
  unfolding sample_log_def
  by (rule synced_appendAndSync) (simp_all add: synced_def loadFromDisk_def mkEntry_def entry_ok_def)

text \<open>The branch of \<open>appendAndSync\<close> for entries at or below the snapshot index says it drops the
  overlapping prefix, but the entries are stored whole: the log is no longer aligned, and index
  3 then reads the entry of index 2. The log of the example has snapshot index 2.\<close>

theorem append_below_snapshot_misaligns:
  "let L = compactUpTo 2 1 [] sample_log; es = [mkEntry 1 2, mkEntry 2 3] in
     log_wf L \<and> contiguous 2 es \<and> entryAt 3 L = Some (mkEntry 2 3) \<and>
     \<not> log_wf (appendAndSync es L) \<and> entryAt 3 (appendAndSync es L) = Some (mkEntry 1 2)"
proof -
  let ?L = "compactUpTo 2 1 [] sample_log" and ?es = "[mkEntry 1 2, mkEntry 2 3]"
  have L: "snapshotIndex ?L = 2" "entries ?L = [mkEntry 2 3]"
    by (simp_all add: compactUpTo_eq sample_log_fields)
  have A: "entries (appendAndSync ?es ?L) = ?es"
    using L by (simp add: appendAndSync_def rewriteWalLocked_def mkEntry_def)
  have "log_wf ?L" using sample_log_ok by (simp add: compactUpTo_log_wf)
  moreover have "contiguous 2 ?es" by (simp add: contiguous_def mkEntry_def less_Suc_eq)
  moreover have "entryAt 3 ?L = Some (mkEntry 2 3)" by (simp add: entryAt_def L)
  moreover have "\<not> log_wf (appendAndSync ?es ?L)"
    unfolding log_wf_contiguous A by (auto simp: L contiguous_def mkEntry_def)
  moreover have "entryAt 3 (appendAndSync ?es ?L) = Some (mkEntry 1 2)" by (simp add: entryAt_def A L)
  ultimately show ?thesis by (simp add: Let_def)
qed

text \<open>A compaction is not crash-safe: the snapshot file is renamed into place before the log file
  is rewritten, and recovery does not drop the entries the snapshot covers. After a crash
  between the two renames, a restart reads a log that is not aligned: index 3 holds the entry
  of index 1.\<close>

theorem compaction_crash_misaligns:
  "\<exists>d. crashDisk (compactOps 2 1 [] sample_log) (plDisk sample_log) d \<and>
     synced sample_log \<and> log_wf sample_log \<and> \<not> log_wf (loadFromDisk d) \<and>
     entryAt 3 sample_log = Some (mkEntry 2 3) \<and> entryAt 3 (loadFromDisk d) = Some (mkEntry 1 1)"
proof -
  let ?d = "runDiskOps (take 2 (compactOps 2 1 [] sample_log)) (plDisk sample_log)"
  have d: "?d = ((plDisk sample_log)(''snapshot.bin'' \<mapsto> putU64 1 (putU64 2 []) @ []))(''snapshot.bin.tmp'' := None)"
    by (simp add: compactOps_def snapshotOps_def walOps_def Let_def runDiskOps_replace)
  have wal: "?d ''wal.log'' = Some (walBytes (entries sample_log))"
    unfolding d by (simp add: sample_log_disk)
  have meta: "loadSnapshotMeta ?d = (2, 1)"
    by (rule loadSnapshotMeta_written[where b = "[]"]) (simp add: d)
  have L: "snapshotIndex (loadFromDisk ?d) = 2" "entries (loadFromDisk ?d) = entries sample_log"
    using wal sample_log_ok by (simp_all add: loadFromDisk_def meta loadWal_walBytes)
  have "crashDisk (compactOps 2 1 [] sample_log) (plDisk sample_log) ?d"
    by (rule crash_between)
  moreover have "\<not> log_wf (loadFromDisk ?d)"
    by (auto simp: log_wf_def L sample_log_fields mkEntry_def)
  moreover have "entryAt 3 sample_log = Some (mkEntry 2 3)" "entryAt 3 (loadFromDisk ?d) = Some (mkEntry 1 1)"
    by (simp_all add: entryAt_def L sample_log_fields)
  ultimately show ?thesis using sample_log_ok sample_log_synced by blast
qed

end
