(* ===== verification/Raft_Node.thy ===== *)
theory Raft_Node
  imports Rpc_Messages Kv_Store Persistent_Log
begin

text \<open>
  One Raft node, \<^verbatim>\<open>raft/raft_node.h\<close> and \<^verbatim>\<open>raft/raft_node.cpp\<close>. The node is a record of the class's
  fields. Its environment appears in the record too: \<open>clock\<close> is the reading of
  \<^verbatim>\<open>steady_clock\<close>, \<open>rng\<close> the numbers \<^verbatim>\<open>rng_\<close> will draw, \<open>outbox\<close> the calls handed to
  \<^verbatim>\<open>transport_\<close>, and \<open>votes\<close> the vote counters the election callbacks share, one per election and
  so one per term the node ran for. The callback of a call is data: what the closure captures.
  An operation returns its value or the exception that left it, and the node as it is then.

  The code takes \<^verbatim>\<open>mu_\<close> for a section, releases it and takes it again within one handler. Each
  section is a definition of its own and a handler is their composition, so that a handler can
  be read as one step or as an interleaving of its sections.
\<close>

section \<open>State\<close>

datatype Role = Follower | Candidate | Leader

record RaftOptions =
  opt_id :: NodeId
  electionTimeoutMinMs :: int
  electionTimeoutMaxMs :: int
  heartbeatIntervalMs :: int
  snapshotThresholdEntries :: u64

record ProposeResult =
  pr_isLeader :: bool
  pr_leaderHint :: NodeId
  pr_index :: LogIndex
  pr_term :: Term

record ReadBarrier =
  targetCommit :: LogIndex
  acks :: int

text \<open>A call to the transport: the peer, the request and what the callback captured.\<close>

datatype Rpc =
    SendRequestVote NodeId RequestVoteReq Term int
  | SendAppendEntries NodeId AppendEntriesReq Term
  | SendInstallSnapshot NodeId InstallSnapshotReq LogIndex

record RaftNode =
  opts :: RaftOptions
  sm :: KvStore
  nlog :: PersistentLog
  role :: Role
  config :: ClusterConfig
  leaderId :: NodeId
  commitIndex :: LogIndex
  lastApplied :: LogIndex
  electionDeadline :: int
  nextIndex :: "(NodeId \<times> LogIndex) list"
  matchIndex :: "(NodeId \<times> LogIndex) list"
  pendingResults :: "LogIndex \<rightharpoonup> bytes"
  pendingReadBarriers :: "ReadBarrier list"
  running :: bool
  rng :: "nat \<Rightarrow> int"
  clock :: int
  votes :: "Term \<rightharpoonup> int"
  outbox :: "Rpc list"

abbreviation node_id :: "RaftNode \<Rightarrow> NodeId" where
  "node_id n \<equiv> opt_id (opts n)"

abbreviation node_term :: "RaftNode \<Rightarrow> Term" where
  "node_term n \<equiv> currentTerm (nlog n)"

text \<open>An operation's result: a value or an exception, and the node afterwards.\<close>

type_synonym 'a outcome = "'a result \<times> RaftNode"

definition abind :: "'a outcome \<Rightarrow> ('a \<Rightarrow> RaftNode \<Rightarrow> 'b outcome) \<Rightarrow> 'b outcome" where
  "abind m f = (case fst m of Inl e \<Rightarrow> (Inl e, snd m) | Inr a \<Rightarrow> f a (snd m))"

section \<open>Start and timers\<close>

text \<open>
  The constructor: the log is loaded from the directory \<open>d\<close>, the state machine \<open>s0\<close> restored
  from the snapshot, if there is one; a malformed snapshot throws.
\<close>

definition RaftNode_new :: "RaftOptions \<Rightarrow> ClusterConfig \<Rightarrow> Disk \<Rightarrow> KvStore \<Rightarrow> (nat \<Rightarrow> int) \<Rightarrow> int \<Rightarrow> RaftNode result" where
  "RaftNode_new o' initialConfig d s0 g now =
     (let L = loadFromDisk d;
          restored = (case loadSnapshotBytes L of None \<Rightarrow> (Inr (), s0) | Some b \<Rightarrow> KvStore_restore b s0)
      in case fst restored of
        Inl e \<Rightarrow> Inl e
      | Inr _ \<Rightarrow> Inr \<lparr>opts = o', sm = snd restored, nlog = L, role = Follower, config = initialConfig,
          leaderId = 0, commitIndex = snapshotIndex L, lastApplied = snapshotIndex L,
          electionDeadline = 0, nextIndex = [], matchIndex = [], pendingResults = Map.empty,
          pendingReadBarriers = [], running = False, rng = g, clock = now, votes = Map.empty, outbox = []\<rparr>)"

text \<open>\<^verbatim>\<open>uniform_int_distribution\<close> draws a number between the bounds.\<close>

definition resetElectionDeadline :: "RaftNode \<Rightarrow> RaftNode" where
  "resetElectionDeadline n =
     (let lo = electionTimeoutMinMs (opts n); hi = electionTimeoutMaxMs (opts n) in
      n\<lparr>electionDeadline := clock n + (lo + rng n 0 mod (hi - lo + 1)), rng := (\<lambda>i. rng n (Suc i))\<rparr>)"

definition start :: "RaftNode \<Rightarrow> RaftNode" where
  "start n = resetElectionDeadline (n\<lparr>running := True\<rparr>)"

definition stop :: "RaftNode \<Rightarrow> RaftNode" where
  "stop n = (if \<not> running n then n else n\<lparr>running := False\<rparr>)"

section \<open>Applying committed entries\<close>

definition applyConfigEntry :: "LogEntry \<Rightarrow> RaftNode \<Rightarrow> unit outcome" where
  "applyConfigEntry e n =
     (case ClusterConfig_decode (mkReader (edata e)) of
        Inl x \<Rightarrow> (Inl x, n)
      | Inr (c, r) \<Rightarrow>
        (let n = n\<lparr>config := c\<rparr> in
         (Inr (), if role n = Leader then
            fold (\<lambda>v n. if map_of (nextIndex n) v = None
                then n\<lparr>nextIndex := AList.update v (lastIndex (nlog n) + 1) (nextIndex n),
                       matchIndex := AList.update v 0 (matchIndex n)\<rparr>
                else n) (voters c) n
          else n)))"

text \<open>The loop that collects the entries to apply: the entries so far and \<^verbatim>\<open>lastApplied_\<close>.\<close>

function collectLoop :: "PersistentLog \<Rightarrow> LogIndex \<Rightarrow> LogIndex \<Rightarrow> LogEntry list \<Rightarrow> LogEntry list \<times> LogIndex" where
  "collectLoop L commit applied out =
     (if applied < commit then
        (case entryAt (applied + 1) L of
           None \<Rightarrow> (out, applied)
         | Some e \<Rightarrow> collectLoop L commit (applied + 1) (out @ [e]))
      else (out, applied))"
  by pat_completeness auto
termination
proof (relation "measure (\<lambda>(L, c, a, out). unat c - unat a)", goal_cases)
  case (2 L c a out e)
  then have "unat a < unat c" by (simp add: word_less_nat_alt)
  moreover have "unat c < 2 ^ 64" using unsigned_less[of c, where ?'a = nat] by simp
  ultimately show ?case by (simp add: unat_plus_1)
qed simp

declare collectLoop.simps [simp del]

definition collectToApply :: "RaftNode \<Rightarrow> LogEntry list \<times> RaftNode" where
  "collectToApply n =
     (let (es, a) = collectLoop (nlog n) (commitIndex n) (lastApplied n) []
      in (es, n\<lparr>lastApplied := a\<rparr>))"

definition applyOne :: "LogEntry \<Rightarrow> RaftNode \<Rightarrow> unit outcome" where
  "applyOne e n =
     abind (case etype e of
         Command \<Rightarrow> (case KvStore_apply (edata e) (eindex e) (sm n) of
             Inl x \<Rightarrow> (Inl x, n)
           | Inr (result, s) \<Rightarrow> (Inr result, n\<lparr>sm := s\<rparr>))
       | Config \<Rightarrow> abind (applyConfigEntry e n) (\<lambda>_ n. (Inr [], n))
       | _ \<Rightarrow> (Inr [], n))
     (\<lambda>result n. (Inr (), n\<lparr>
        pendingResults := (pendingResults n)(eindex e \<mapsto> result),
        pendingReadBarriers := filter (\<lambda>b. \<not> eindex e \<ge> targetCommit b) (pendingReadBarriers n)\<rparr>))"

fun applyEntries :: "LogEntry list \<Rightarrow> RaftNode \<Rightarrow> unit outcome" where
  "applyEntries [] n = (Inr (), n)"
| "applyEntries (e # es) n = abind (applyOne e n) (\<lambda>_. applyEntries es)"

definition applyCommittedEntries :: "RaftNode \<Rightarrow> unit outcome" where
  "applyCommittedEntries n = (let (toApply, n) = collectToApply n in applyEntries toApply n)"

section \<open>Commitment and proposals\<close>

definition matches :: "RaftNode \<Rightarrow> LogIndex list" where
  "matches n = rev (sort (lastIndex (nlog n) # map snd (filter (\<lambda>p. fst p \<noteq> node_id n) (matchIndex n))))"

definition tryAdvanceCommitIndex :: "RaftNode \<Rightarrow> unit outcome" where
  "tryAdvanceCommitIndex n =
     (if role n \<noteq> Leader then (Inr (), n)
      else let ms = matches n; majorityOff = length (voters (config n)) div 2 in
        if majorityOff \<ge> length ms then (Inr (), n)
        else let candidate = ms ! majorityOff in
          if candidate > commitIndex n \<and> termAt candidate (nlog n) = node_term n
          then applyCommittedEntries (n\<lparr>commitIndex := candidate\<rparr>)
          else (Inr (), n))"

definition propose :: "bytes \<Rightarrow> EntryType \<Rightarrow> RaftNode \<Rightarrow> ProposeResult outcome" where
  "propose commandBytes type n =
     (if role n \<noteq> Leader
      then (Inr \<lparr>pr_isLeader = False, pr_leaderHint = leaderId n, pr_index = 0, pr_term = 0\<rparr>, n)
      else
        let e = \<lparr>eterm = node_term n, eindex = lastIndex (nlog n) + 1, etype = type, edata = commandBytes\<rparr>;
            n = n\<lparr>nlog := appendAndSync [e] (nlog n)\<rparr>
        in abind (tryAdvanceCommitIndex n) (\<lambda>_ n.
          (Inr \<lparr>pr_isLeader = True, pr_leaderHint = node_id n, pr_index = eindex e, pr_term = eterm e\<rparr>, n)))"

section \<open>Replication\<close>

definition nextOf :: "NodeId \<Rightarrow> RaftNode \<Rightarrow> LogIndex" where
  "nextOf peer n = (case map_of (nextIndex n) peer of None \<Rightarrow> 1 | Some i \<Rightarrow> i)"

definition sendAppendEntriesTo :: "NodeId \<Rightarrow> RaftNode \<Rightarrow> RaftNode" where
  "sendAppendEntriesTo peer n =
     (if role n \<noteq> Leader then n
      else
        let prevIdx = nextOf peer n - 1;
            req = \<lparr>ae_term = node_term n, ae_leaderId = node_id n, prevLogIndex = prevIdx,
              prevLogTerm = termAt prevIdx (nlog n), ae_entries = entriesAfter prevIdx 200 (nlog n),
              leaderCommit = commitIndex n\<rparr>
        in n\<lparr>outbox := outbox n @ [SendAppendEntries peer req (node_term n)]\<rparr>)"

definition sendInstallSnapshotTo :: "NodeId \<Rightarrow> RaftNode \<Rightarrow> RaftNode" where
  "sendInstallSnapshotTo peer n =
     (if role n \<noteq> Leader then n
      else
        let idx = snapshotIndex (nlog n);
            data = (case loadSnapshotBytes (nlog n) of Some b \<Rightarrow> b | None \<Rightarrow> KvStore_snapshot (sm n));
            req = \<lparr>is_term = node_term n, is_leaderId = node_id n, lastIncludedIndex = idx,
              lastIncludedTerm = snapshotTerm (nlog n), is_data = data\<rparr>
        in n\<lparr>outbox := outbox n @ [SendInstallSnapshot peer req idx]\<rparr>)"

definition broadcastAppendEntries :: "RaftNode \<Rightarrow> RaftNode" where
  "broadcastAppendEntries n =
     (if role n \<noteq> Leader then n
      else fold (\<lambda>peer n.
          if peer = node_id n then n
          else if nextOf peer n \<le> snapshotIndex (nlog n) then sendInstallSnapshotTo peer n
          else sendAppendEntriesTo peer n) (voters (config n)) n)"

section \<open>Roles\<close>

definition becomeFollower :: "Term \<Rightarrow> NodeId \<Rightarrow> RaftNode \<Rightarrow> RaftNode" where
  "becomeFollower t leader n =
     (let n = (if t > node_term n then n\<lparr>nlog := setHardState t 0 (nlog n)\<rparr> else n)
      in resetElectionDeadline (n\<lparr>role := Follower, leaderId := leader\<rparr>))"

text \<open>The loop of \<open>becomeLeader\<close> over the voters; \<open>l\<close> is its \<^verbatim>\<open>last\<close>.\<close>

definition initProgress :: "LogIndex \<Rightarrow> NodeId list \<Rightarrow> RaftNode \<Rightarrow> RaftNode" where
  "initProgress l vs n =
     fold (\<lambda>v n. n\<lparr>nextIndex := AList.update v (l + 1) (nextIndex n),
       matchIndex := AList.update v 0 (matchIndex n)\<rparr>) vs n"

text \<open>The locked section of \<open>becomeLeader\<close>; it returns whether the node became leader.\<close>

definition becomeLeader_enter :: "RaftNode \<Rightarrow> bool \<times> RaftNode" where
  "becomeLeader_enter n =
     (if role n \<noteq> Candidate then (False, n)
      else
        let n = n\<lparr>role := Leader, leaderId := node_id n\<rparr>;
            l = lastIndex (nlog n)
        in (True, initProgress l (voters (config n)) (n\<lparr>nextIndex := [], matchIndex := []\<rparr>)))"

definition becomeLeader :: "RaftNode \<Rightarrow> unit outcome" where
  "becomeLeader n =
     (let (entered, n) = becomeLeader_enter n in
      if \<not> entered then (Inr (), n)
      else abind (propose [] NoOp n) (\<lambda>_ n.
        abind (tryAdvanceCommitIndex n) (\<lambda>_ n. (Inr (), broadcastAppendEntries n))))"

text \<open>The locked section of \<open>becomeCandidate\<close>.\<close>

definition becomeCandidate_enter :: "RaftNode \<Rightarrow> RaftNode" where
  "becomeCandidate_enter n =
     resetElectionDeadline (n\<lparr>nlog := setHardState (node_term n + 1) (node_id n) (nlog n),
       role := Candidate, leaderId := 0\<rparr>)"

definition becomeCandidate :: "RaftNode \<Rightarrow> unit outcome" where
  "becomeCandidate n =
     (let n = becomeCandidate_enter n;
          newTerm = node_term n; cfg = config n
      in if \<not> hasVoter cfg (node_id n) \<and> length (voters cfg) > 0 then (Inr (), n)
      else
        let n = n\<lparr>votes := (votes n)(newTerm \<mapsto> 1)\<rparr>;
            majority = int (length (voters cfg) div 2 + 1)
        in if 1 \<ge> majority then becomeLeader n
        else
          let req = \<lparr>rv_term = newTerm, candidateId = node_id n,
                lastLogIndex = lastIndex (nlog n), lastLogTerm = lastTerm (nlog n)\<rparr>
          in (Inr (), n\<lparr>outbox := outbox n @
                map (\<lambda>peer. SendRequestVote peer req newTerm majority)
                  (filter (\<lambda>peer. peer \<noteq> node_id n) (voters cfg))\<rparr>))"

section \<open>Callbacks\<close>

text \<open>
  The callback of \<open>sendRequestVote\<close>, up to the point where it releases the lock: the result says
  whether the vote completed a majority.
\<close>

definition voteResp_count :: "Term \<Rightarrow> int \<Rightarrow> RequestVoteResp \<Rightarrow> RaftNode \<Rightarrow> bool \<times> RaftNode" where
  "voteResp_count newTerm majority resp n =
     (if role n \<noteq> Candidate \<or> node_term n \<noteq> newTerm then (False, n)
      else if rvr_term resp > newTerm then (False, becomeFollower (rvr_term resp) 0 n)
      else if voteGranted resp then
        (let v = (case votes n newTerm of None \<Rightarrow> 0 | Some v \<Rightarrow> v) + 1
         in (v \<ge> majority, n\<lparr>votes := (votes n)(newTerm \<mapsto> v)\<rparr>))
      else (False, n))"

definition onVoteResp :: "Term \<Rightarrow> int \<Rightarrow> bool \<Rightarrow> RequestVoteResp \<Rightarrow> RaftNode \<Rightarrow> unit outcome" where
  "onVoteResp newTerm majority ok resp n =
     (if \<not> ok then (Inr (), n)
      else let (won, n) = voteResp_count newTerm majority resp n in
        if won then becomeLeader n else (Inr (), n))"

definition onAppendResp :: "NodeId \<Rightarrow> Term \<Rightarrow> bool \<Rightarrow> AppendEntriesResp \<Rightarrow> RaftNode \<Rightarrow> unit outcome" where
  "onAppendResp peer t ok resp n =
     (if \<not> ok then (Inr (), n)
      else if aer_term resp > node_term n then (Inr (), becomeFollower (aer_term resp) 0 n)
      else if role n \<noteq> Leader \<or> node_term n \<noteq> t then (Inr (), n)
      else if success resp then
        tryAdvanceCommitIndex (n\<lparr>matchIndex := AList.update peer (aer_matchIndex resp) (matchIndex n),
          nextIndex := AList.update peer (aer_matchIndex resp + 1) (nextIndex n)\<rparr>)
      else
        let newNext = (if conflictIndex resp > 0 then conflictIndex resp else 1)
        in (Inr (), n\<lparr>nextIndex := AList.update peer (max 1 newNext) (nextIndex n)\<rparr>))"

definition onSnapshotResp :: "NodeId \<Rightarrow> LogIndex \<Rightarrow> bool \<Rightarrow> InstallSnapshotResp \<Rightarrow> RaftNode \<Rightarrow> unit outcome" where
  "onSnapshotResp peer idx ok resp n =
     (if \<not> ok then (Inr (), n)
      else if isr_term resp > node_term n then (Inr (), becomeFollower (isr_term resp) 0 n)
      else (Inr (), n\<lparr>matchIndex := AList.update peer idx (matchIndex n),
        nextIndex := AList.update peer (idx + 1) (nextIndex n)\<rparr>))"

section \<open>RPC handlers\<close>

text \<open>The part of \<open>handleRequestVote\<close> after the term check.\<close>

definition handleRequestVote_vote :: "RequestVoteReq \<Rightarrow> RaftNode \<Rightarrow> RequestVoteResp \<times> RaftNode" where
  "handleRequestVote_vote req n =
     (let L = nlog n;
          canVote = (votedFor L = 0 \<or> votedFor L = candidateId req);
          myLast = lastIndex L; myLastTerm = lastTerm L;
          logOk = (lastLogTerm req > myLastTerm \<or> lastLogTerm req = myLastTerm \<and> lastLogIndex req \<ge> myLast)
      in if canVote \<and> logOk then
        (let n = resetElectionDeadline (n\<lparr>nlog := setHardState (currentTerm L) (candidateId req) L\<rparr>)
         in (\<lparr>rvr_term = node_term n, voteGranted = True\<rparr>, n))
      else (\<lparr>rvr_term = node_term n, voteGranted = False\<rparr>, n))"

definition handleRequestVote :: "RequestVoteReq \<Rightarrow> RaftNode \<Rightarrow> RequestVoteResp \<times> RaftNode" where
  "handleRequestVote req n =
     (if rv_term req < node_term n then (\<lparr>rvr_term = node_term n, voteGranted = False\<rparr>, n)
      else
        let n = (if rv_term req > node_term n then becomeFollower (rv_term req) 0 n else n)
        in handleRequestVote_vote req n)"

text \<open>The loop that looks for the first index of the conflicting term.\<close>

function conflictLoop :: "PersistentLog \<Rightarrow> Term \<Rightarrow> LogIndex \<Rightarrow> LogIndex" where
  "conflictLoop L t ci =
     (if ci > snapshotIndex L + 1 \<and> termAt (ci - 1) L = t then conflictLoop L t (ci - 1) else ci)"
  by pat_completeness auto
termination
proof (relation "measure (\<lambda>(L, t, ci). unat ci)", goal_cases)
  case (2 L t ci)
  then have "ci \<noteq> 0" by (metis word_not_simps(1))
  then have "unat (ci - 1) < unat ci"
    by (metis diff_less less_one unat_gt_0 unat_minus_one)
  then show ?case by simp
qed simp

declare conflictLoop.simps [simp del]

text \<open>
  The part of \<open>handleAppendEntries\<close> after it became a follower, up to the release of the lock:
  \<open>Inl\<close> is a reply that rejects the request, \<open>Inr newLast\<close> that it goes on to apply.
\<close>

definition handleAppendEntries_log :: "AppendEntriesReq \<Rightarrow> RaftNode \<Rightarrow> (AppendEntriesResp + LogIndex) \<times> RaftNode" where
  "handleAppendEntries_log req n =
     (let n = (resetElectionDeadline n)\<lparr>leaderId := ae_leaderId req\<rparr>;
          L = nlog n;
          t = termAt (prevLogIndex req) L
      in if prevLogIndex req > 0 \<and> t = 0 \<and> prevLogIndex req > snapshotIndex L
        then (Inl \<lparr>aer_term = currentTerm L, success = False, aer_matchIndex = lastIndex L + 1,
          conflictIndex = 0, conflictTerm = lastIndex L\<rparr>, n)
      else if prevLogIndex req > 0 \<and> t \<noteq> 0 \<and> t \<noteq> prevLogTerm req
        then (Inl \<lparr>aer_term = currentTerm L, success = False,
          aer_matchIndex = conflictLoop L t (prevLogIndex req), conflictIndex = t, conflictTerm = 0\<rparr>, n)
      else
        let n = (if ae_entries req \<noteq> [] then n\<lparr>nlog := appendAndSync (ae_entries req) L\<rparr> else n);
            newLast = (if ae_entries req = [] then prevLogIndex req else eindex (last (ae_entries req)));
            n = (if leaderCommit req > commitIndex n
                 then n\<lparr>commitIndex := min (leaderCommit req) newLast\<rparr> else n)
        in (Inr newLast, n))"

definition handleAppendEntries :: "AppendEntriesReq \<Rightarrow> RaftNode \<Rightarrow> AppendEntriesResp outcome" where
  "handleAppendEntries req n =
     (if ae_term req < node_term n
      then (Inr \<lparr>aer_term = node_term n, success = False, aer_matchIndex = 0, conflictIndex = 0, conflictTerm = 0\<rparr>, n)
      else
        (case handleAppendEntries_log req (becomeFollower (ae_term req) (ae_leaderId req) n) of
           (Inl resp, n) \<Rightarrow> (Inr resp, n)
         | (Inr newLast, n) \<Rightarrow> abind (applyCommittedEntries n) (\<lambda>_ n.
             (Inr \<lparr>aer_term = node_term n, success = True, aer_matchIndex = newLast,
               conflictIndex = 0, conflictTerm = 0\<rparr>, n))))"

definition handleInstallSnapshot :: "InstallSnapshotReq \<Rightarrow> RaftNode \<Rightarrow> InstallSnapshotResp outcome" where
  "handleInstallSnapshot req n =
     (if is_term req < node_term n then (Inr \<lparr>isr_term = node_term n\<rparr>, n)
      else
        let n = becomeFollower (is_term req) (is_leaderId req) n in
        if lastIncludedIndex req \<le> snapshotIndex (nlog n) then (Inr \<lparr>isr_term = node_term n\<rparr>, n)
        else
          let n = n\<lparr>nlog := compactUpTo (lastIncludedIndex req) (lastIncludedTerm req) (is_data req) (nlog n)\<rparr>;
              (res, s) = KvStore_restore (is_data req) (sm n);
              n = n\<lparr>sm := s\<rparr>
          in case res of
            Inl e \<Rightarrow> (Inl e, n)
          | Inr _ \<Rightarrow> (Inr \<lparr>isr_term = node_term n\<rparr>,
              n\<lparr>commitIndex := max (commitIndex n) (lastIncludedIndex req),
                lastApplied := max (lastApplied n) (lastIncludedIndex req)\<rparr>))"

section \<open>Client-facing calls\<close>

text \<open>
  \<open>waitApplied\<close> blocks until the entry is applied or the time is up; \<open>n\<close> is the node when the
  wait ends and \<open>out\<close> what the caller's string held.
\<close>

definition waitApplied :: "LogIndex \<Rightarrow> bytes \<Rightarrow> RaftNode \<Rightarrow> bool \<times> bytes" where
  "waitApplied idx out n =
     (let ok = lastApplied n \<ge> idx
      in (ok, if ok then (case pendingResults n idx of None \<Rightarrow> out | Some r \<Rightarrow> r) else out))"

text \<open>
  \<open>linearizableReadBarrier\<close> up to its wait, with the target it recorded if the node is leader,
  and what it returns when the wait ends in the node \<open>n\<close>.
\<close>

definition readBarrier_begin :: "RaftNode \<Rightarrow> LogIndex option \<times> RaftNode" where
  "readBarrier_begin n =
     (if role n \<noteq> Leader then (None, n) else (Some (commitIndex n), broadcastAppendEntries n))"

definition readBarrier_end :: "LogIndex option \<Rightarrow> RaftNode \<Rightarrow> bool" where
  "readBarrier_end target n = (case target of None \<Rightarrow> False | Some t \<Rightarrow> lastApplied n \<ge> t)"

definition addServerConfig :: "NodeId \<Rightarrow> bytes \<Rightarrow> ClusterConfig \<Rightarrow> ClusterConfig" where
  "addServerConfig i address c =
     (let c = (if hasVoter c i then c else c\<lparr>voters := voters c @ [i]\<rparr>);
          found = list_ex (\<lambda>p. fst p = i) (addresses c);
          as = map (\<lambda>p. if fst p = i then (fst p, address) else p) (addresses c)
      in c\<lparr>addresses := (if found then as else as @ [(i, address)])\<rparr>)"

definition addServer :: "NodeId \<Rightarrow> bytes \<Rightarrow> RaftNode \<Rightarrow> ProposeResult outcome" where
  "addServer i address n = propose (ClusterConfig_encode (addServerConfig i address (config n)) []) Config n"

definition removeServerConfig :: "NodeId \<Rightarrow> ClusterConfig \<Rightarrow> ClusterConfig" where
  "removeServerConfig i c = c\<lparr>voters := removeAll i (voters c)\<rparr>"

definition removeServer :: "NodeId \<Rightarrow> RaftNode \<Rightarrow> ProposeResult outcome" where
  "removeServer i n = propose (ClusterConfig_encode (removeServerConfig i (config n)) []) Config n"

section \<open>Snapshots and the timer loop\<close>

text \<open>\<open>forceSnapshot\<close> in its two sections: position and term under the lock, then the compaction.\<close>

definition forceSnapshot_position :: "RaftNode \<Rightarrow> (LogIndex \<times> Term) option" where
  "forceSnapshot_position n =
     (if lastApplied n \<le> snapshotIndex (nlog n) then None
      else Some (lastApplied n, termAt (lastApplied n) (nlog n)))"

definition forceSnapshot_write :: "LogIndex \<times> Term \<Rightarrow> RaftNode \<Rightarrow> RaftNode" where
  "forceSnapshot_write p n = n\<lparr>nlog := compactUpTo (fst p) (snd p) (KvStore_snapshot (sm n)) (nlog n)\<rparr>"

definition forceSnapshot :: "RaftNode \<Rightarrow> RaftNode" where
  "forceSnapshot n = (case forceSnapshot_position n of None \<Rightarrow> n | Some p \<Rightarrow> forceSnapshot_write p n)"

definition maybeSnapshot :: "RaftNode \<Rightarrow> RaftNode" where
  "maybeSnapshot n =
     (if lastApplied n - snapshotIndex (nlog n) \<ge> snapshotThresholdEntries (opts n) then forceSnapshot n else n)"

text \<open>One round of \<open>runLoop\<close>, with \<^verbatim>\<open>lastHeartbeat\<close>, the loop's local variable.\<close>

definition runLoop_round :: "int \<Rightarrow> RaftNode \<Rightarrow> int outcome" where
  "runLoop_round lastHeartbeat n =
     (let now = clock n in
      if role n = Leader then
        (if now - lastHeartbeat \<ge> heartbeatIntervalMs (opts n)
         then (Inr now, maybeSnapshot (broadcastAppendEntries n))
         else (Inr lastHeartbeat, maybeSnapshot n))
      else if now \<ge> electionDeadline n
        then abind (becomeCandidate n) (\<lambda>_ n. (Inr lastHeartbeat, maybeSnapshot n))
      else (Inr lastHeartbeat, maybeSnapshot n))"

section \<open>What the operations leave alone\<close>

lemma fst_snd_abind:
  "snd (abind m f) = (case fst m of Inl e \<Rightarrow> snd m | Inr a \<Rightarrow> snd (f a (snd m)))"
  "fst (abind m f) = (case fst m of Inl e \<Rightarrow> Inl e | Inr a \<Rightarrow> fst (f a (snd m)))"
  by (simp_all add: abind_def split: sum.splits)

lemma abind_simps [simp]:
  "abind (Inl e, n) f = (Inl e, n)" "abind (Inr a, n) f = f a n"
  by (simp_all add: abind_def)

text \<open>
  Applying entries changes the store, the configuration, the replication bookkeeping, the
  results and the read barriers; moving the commit index changes the two indices as well.
  \<open>frame\<close> says that everything else stays, \<open>apply_frame\<close> that the indices stay too.
\<close>

definition frame :: "RaftNode \<Rightarrow> RaftNode \<Rightarrow> bool" where
  "frame n n' \<longleftrightarrow> opts n' = opts n \<and> nlog n' = nlog n \<and> role n' = role n \<and> leaderId n' = leaderId n \<and>
     electionDeadline n' = electionDeadline n \<and> running n' = running n \<and> rng n' = rng n \<and>
     clock n' = clock n \<and> votes n' = votes n \<and> outbox n' = outbox n"

definition apply_frame :: "RaftNode \<Rightarrow> RaftNode \<Rightarrow> bool" where
  "apply_frame n n' \<longleftrightarrow> frame n n' \<and> commitIndex n' = commitIndex n \<and> lastApplied n' = lastApplied n"

lemma frame_refl [simp, intro]: "frame n n" "apply_frame n n"
  by (simp_all add: frame_def apply_frame_def)

lemma frame_trans: "frame a b \<Longrightarrow> frame b c \<Longrightarrow> frame a c"
  "apply_frame a b \<Longrightarrow> apply_frame b c \<Longrightarrow> apply_frame a c"
  by (simp_all add: frame_def apply_frame_def)

lemma frame_fold: "(\<And>x n. apply_frame n (f x n)) \<Longrightarrow> apply_frame n (fold f xs n)"
  by (induction xs arbitrary: n) (auto intro: frame_trans)

lemmas frame_defs = frame_def apply_frame_def

lemma initProgress_frame: "apply_frame n (initProgress l vs n)"
  unfolding initProgress_def by (rule frame_fold) (simp add: frame_defs)

lemma initProgress_config [simp]: "config (initProgress l vs n) = config n"
  by (induction vs arbitrary: n) (simp_all add: initProgress_def)

lemma applyConfigEntry_frame: "apply_frame n (snd (applyConfigEntry e n))"
proof -
  have "apply_frame m (fold (\<lambda>v n. if map_of (nextIndex n) v = None
                then n\<lparr>nextIndex := AList.update v (lastIndex (nlog n) + 1) (nextIndex n),
                       matchIndex := AList.update v 0 (matchIndex n)\<rparr>
                else n) vs m)" for vs m
    by (rule frame_fold) (simp add: frame_defs)
  from this[of "n\<lparr>config := c\<rparr>" for c] show ?thesis
    by (auto simp: applyConfigEntry_def frame_defs Let_def split: sum.splits prod.splits)
qed

lemma applyOne_frame: "apply_frame n (snd (applyOne e n))"
  using applyConfigEntry_frame[of n e]
  by (cases "etype e") (auto simp: applyOne_def abind_def frame_defs split: sum.splits prod.splits)

lemma applyEntries_frame: "apply_frame n (snd (applyEntries es n))"
proof (induction es arbitrary: n)
  case (Cons e es)
  show ?case
    using applyOne_frame[of n e] Cons.IH[of "snd (applyOne e n)"]
    by (auto simp: fst_snd_abind split: sum.splits intro: frame_trans)
qed simp

lemma applyCommittedEntries_frame:
  "frame n (snd (applyCommittedEntries n))" "commitIndex (snd (applyCommittedEntries n)) = commitIndex n"
  using applyEntries_frame
  by (auto simp: applyCommittedEntries_def collectToApply_def frame_defs split: prod.splits)

lemma tryAdvanceCommitIndex_frame: "frame n (snd (tryAdvanceCommitIndex n))"
  using applyCommittedEntries_frame(1)[of "n\<lparr>commitIndex := c\<rparr>" for c]
  by (auto simp: tryAdvanceCommitIndex_def Let_def frame_defs)

lemma resetElectionDeadline_fields [simp]:
  "opts (resetElectionDeadline n) = opts n" "sm (resetElectionDeadline n) = sm n"
  "nlog (resetElectionDeadline n) = nlog n" "role (resetElectionDeadline n) = role n"
  "config (resetElectionDeadline n) = config n" "leaderId (resetElectionDeadline n) = leaderId n"
  "commitIndex (resetElectionDeadline n) = commitIndex n" "lastApplied (resetElectionDeadline n) = lastApplied n"
  "nextIndex (resetElectionDeadline n) = nextIndex n" "matchIndex (resetElectionDeadline n) = matchIndex n"
  "votes (resetElectionDeadline n) = votes n" "outbox (resetElectionDeadline n) = outbox n"
  "pendingResults (resetElectionDeadline n) = pendingResults n" "clock (resetElectionDeadline n) = clock n"
  by (simp_all add: resetElectionDeadline_def Let_def)

lemma becomeFollower_fields [simp]:
  "opts (becomeFollower t l n) = opts n" "sm (becomeFollower t l n) = sm n"
  "role (becomeFollower t l n) = Follower" "leaderId (becomeFollower t l n) = l"
  "config (becomeFollower t l n) = config n" "commitIndex (becomeFollower t l n) = commitIndex n"
  "lastApplied (becomeFollower t l n) = lastApplied n" "votes (becomeFollower t l n) = votes n"
  "outbox (becomeFollower t l n) = outbox n" "nextIndex (becomeFollower t l n) = nextIndex n"
  "matchIndex (becomeFollower t l n) = matchIndex n" "pendingResults (becomeFollower t l n) = pendingResults n"
  "nlog (becomeFollower t l n) = (if node_term n < t then setHardState t 0 (nlog n) else nlog n)"
  by (simp_all add: becomeFollower_def Let_def)

text \<open>Sending only adds to the outbox, and what a broadcast adds are no vote requests.\<close>

definition sends :: "RaftNode \<Rightarrow> RaftNode \<Rightarrow> bool" where
  "sends n n' \<longleftrightarrow> (\<exists>cs. n' = n\<lparr>outbox := outbox n @ cs\<rparr> \<and> (\<forall>c\<in>set cs. \<forall>p q t m. c \<noteq> SendRequestVote p q t m))"

lemma sends_refl [simp, intro]: "sends n n"
  by (auto simp: sends_def intro: exI[of _ "[]"])

lemma sends_trans: "sends a b \<Longrightarrow> sends b c \<Longrightarrow> sends a c"
  by (auto simp: sends_def) (metis Un_iff append_assoc set_append)

lemma sends_step: "sends n (sendAppendEntriesTo p n)" "sends n (sendInstallSnapshotTo p n)"
  by (auto simp: sends_def sendAppendEntriesTo_def sendInstallSnapshotTo_def Let_def intro: exI[of _ "[]"])

lemma broadcastAppendEntries_sends: "sends n (broadcastAppendEntries n)"
proof -
  have "sends n (fold (\<lambda>peer n.
          if peer = node_id n then n
          else if nextOf peer n \<le> snapshotIndex (nlog n) then sendInstallSnapshotTo peer n
          else sendAppendEntriesTo peer n) ps n)" for ps
    by (induction ps arbitrary: n) (auto intro: sends_trans sends_step)
  then show ?thesis by (simp add: broadcastAppendEntries_def)
qed

end
