(* ===== verification/Raft_Election.thy ===== *)
theory Raft_Election
  imports Raft_Node
begin

text \<open>
  Terms and votes of one node. \<open>hs_le\<close> orders hard states: the term never goes back, and within
  a term a vote once cast stays. Every operation of a node is shown to follow it, and the
  operations are sorted by what they do to an election: \<open>quiet\<close> ones neither vote, nor ask for
  votes, nor win one. The invariant \<open>good\<close> of a node with a static configuration is kept by all
  of them. The cluster theory builds on these lemmas alone.
\<close>

section \<open>The order of hard states\<close>

definition hs_le :: "PersistentLog \<Rightarrow> PersistentLog \<Rightarrow> bool" where
  "hs_le L L' \<longleftrightarrow> currentTerm L < currentTerm L' \<or>
     currentTerm L = currentTerm L' \<and> (votedFor L = 0 \<or> votedFor L' = votedFor L)"

lemma hs_le_refl [simp, intro]: "hs_le L L"
  by (simp add: hs_le_def)

lemma hs_le_trans: "hs_le a b \<Longrightarrow> hs_le b c \<Longrightarrow> hs_le a c"
  by (auto simp: hs_le_def)

lemma hs_le_term: "hs_le a b \<Longrightarrow> currentTerm a \<le> currentTerm b"
  by (auto simp: hs_le_def)

section \<open>Nodes with a static configuration\<close>

text \<open>
  The configuration stays the initial one as long as no configuration entry is proposed. Then no
  log and no request carries one, and every log can be read back from its directory.
\<close>

definition static_entry :: "LogEntry \<Rightarrow> bool" where
  "static_entry e \<longleftrightarrow> entry_ok e \<and> etype e \<noteq> Config"

definition static_log :: "PersistentLog \<Rightarrow> bool" where
  "static_log L \<longleftrightarrow> synced L \<and> (\<forall>e\<in>set (entries L). static_entry e)"

fun static_call :: "Rpc \<Rightarrow> bool" where
  "static_call (SendAppendEntries p q t) \<longleftrightarrow> (\<forall>e\<in>set (ae_entries q). static_entry e)"
| "static_call _ \<longleftrightarrow> True"

definition good :: "ClusterConfig \<Rightarrow> RaftNode \<Rightarrow> bool" where
  "good cfg n \<longleftrightarrow> config n = cfg \<and> static_log (nlog n) \<and> (\<forall>c\<in>set (outbox n). static_call c)"

definition vote_calls :: "RaftNode \<Rightarrow> Rpc list" where
  "vote_calls n = filter (\<lambda>c. case c of SendRequestVote p q t m \<Rightarrow> True | _ \<Rightarrow> False) (outbox n)"

text \<open>
  A quiet step: no vote is cast, no election is started and none is won. It may hear of a later
  term and it may step down.
\<close>

definition quiet :: "RaftNode \<Rightarrow> RaftNode \<Rightarrow> bool" where
  "quiet n n' \<longleftrightarrow> opts n' = opts n \<and> votes n' = votes n \<and> vote_calls n' = vote_calls n \<and>
     (node_term n' = node_term n \<and> votedFor (nlog n') = votedFor (nlog n) \<or>
      node_term n < node_term n' \<and> votedFor (nlog n') = 0) \<and>
     (role n' = Follower \<or> role n' = role n \<and> node_term n' = node_term n)"

lemma quiet_refl [simp, intro]: "quiet n n"
  by (simp add: quiet_def)

lemma quiet_trans: "quiet a b \<Longrightarrow> quiet b c \<Longrightarrow> quiet a c"
  by (auto simp: quiet_def)

lemma quiet_hs_le: "quiet n n' \<Longrightarrow> hs_le (nlog n) (nlog n')"
  by (auto simp: quiet_def hs_le_def)

lemma static_appendAndSync:
  assumes "static_log L" "\<forall>e\<in>set es. static_entry e"
  shows "static_log (appendAndSync es L)"
proof -
  have "synced (appendAndSync es L)"
    using assms by (intro synced_appendAndSync) (auto simp: static_log_def static_entry_def)
  moreover have "set (entries (appendAndSync es L)) \<subseteq> set (entries L) \<union> set es"
    by (auto simp: appendAndSync_def Let_def rewriteWalLocked_def dest: in_set_takeD)
  ultimately show ?thesis
    using assms by (auto simp: static_log_def)
qed

lemma static_compactUpTo: "static_log L \<Longrightarrow> static_log (compactUpTo i t b L)"
  using entries_compactUpTo_subset[of i t b L]
  by (auto simp: static_log_def static_entry_def intro!: synced_compactUpTo)

lemma static_setHardState: "static_log L \<Longrightarrow> static_log (setHardState t v L)"
  by (simp add: static_log_def synced_setHardState)

lemma entriesAfter_subset: "set (entriesAfter i k L) \<subseteq> set (entries L)"
  by (auto simp: entriesAfter_eq Let_def dest: in_set_takeD in_set_dropD)

lemma entryAt_in_set: "entryAt i L = Some e \<Longrightarrow> e \<in> set (entries L)"
  by (auto simp: entryAt_def Let_def split: if_splits)

lemma collectLoop_subset: "set (fst (collectLoop L c a out)) \<subseteq> set out \<union> set (entries L)"
proof (induction L c a out rule: collectLoop.induct)
  case (1 L c a out)
  show ?case
  proof (cases "a < c \<and> entryAt (a + 1) L \<noteq> None")
    case True
    then obtain e where e: "a < c" "entryAt (a + 1) L = Some e" by auto
    then show ?thesis
      using "1"[OF e] entryAt_in_set[OF e(2)] by (auto simp: collectLoop.simps[of L c a out])
  next
    case False
    then show ?thesis by (auto simp: collectLoop.simps[of L c a out])
  qed
qed

lemma applyOne_config: "etype e \<noteq> Config \<Longrightarrow> config (snd (applyOne e n)) = config n"
  by (cases "etype e") (auto simp: applyOne_def abind_def split: sum.splits prod.splits)

lemma applyEntries_config:
  "\<forall>e\<in>set es. etype e \<noteq> Config \<Longrightarrow> config (snd (applyEntries es n)) = config n"
  by (induction es arbitrary: n) (auto simp: fst_snd_abind applyOne_config split: sum.splits)

lemma applyCommittedEntries_config:
  assumes "\<forall>e\<in>set (entries (nlog n)). etype e \<noteq> Config"
  shows "config (snd (applyCommittedEntries n)) = config n"
proof -
  obtain es a where c: "collectLoop (nlog n) (commitIndex n) (lastApplied n) [] = (es, a)"
    by fastforce
  then have "set es \<subseteq> set (entries (nlog n))"
    using collectLoop_subset[of "nlog n" "commitIndex n" "lastApplied n" "[]"] by simp
  then show ?thesis
    using assms applyEntries_config[of es "n\<lparr>lastApplied := a\<rparr>"]
    by (auto simp: applyCommittedEntries_def collectToApply_def c)
qed

lemma frame_quiet: "frame n n' \<Longrightarrow> quiet n n'"
  by (simp add: frame_def quiet_def vote_calls_def)

lemma frame_good: "frame n n' \<Longrightarrow> config n' = config n \<Longrightarrow> good cfg n \<Longrightarrow> good cfg n'"
  by (simp add: frame_def good_def)

lemma good_types: "good cfg n \<Longrightarrow> e \<in> set (entries (nlog n)) \<Longrightarrow> etype e \<noteq> Config"
  by (auto simp: good_def static_log_def static_entry_def)

lemma applyCommittedEntries_step:
  "quiet n (snd (applyCommittedEntries n))"
  "good cfg n \<Longrightarrow> good cfg (snd (applyCommittedEntries n))"
  using applyCommittedEntries_frame(1)[of n] good_types[of cfg n]
  by (auto intro: frame_quiet frame_good simp: applyCommittedEntries_config)

lemma tryAdvanceCommitIndex_step:
  "quiet n (snd (tryAdvanceCommitIndex n))"
  "good cfg n \<Longrightarrow> good cfg (snd (tryAdvanceCommitIndex n))"
proof -
  show "quiet n (snd (tryAdvanceCommitIndex n))"
    by (rule frame_quiet) (rule tryAdvanceCommitIndex_frame)
  assume "good cfg n"
  then have "good cfg (n\<lparr>commitIndex := c\<rparr>)" for c
    by (simp add: good_def)
  then have "good cfg (snd (applyCommittedEntries (n\<lparr>commitIndex := c\<rparr>)))" for c
    by (rule applyCommittedEntries_step)
  then show "good cfg (snd (tryAdvanceCommitIndex n))"
    using \<open>good cfg n\<close> by (simp add: tryAdvanceCommitIndex_def Let_def)
qed

lemma propose_step:
  "quiet n (snd (propose b ty n))"
  "good cfg n \<Longrightarrow> short b \<Longrightarrow> ty = Command \<or> ty = NoOp \<Longrightarrow> good cfg (snd (propose b ty n))"
proof -
  let ?e = "\<lparr>eterm = node_term n, eindex = lastIndex (nlog n) + 1, etype = ty, edata = b\<rparr>"
  let ?n = "n\<lparr>nlog := appendAndSync [?e] (nlog n)\<rparr>"
  have eq: "snd (propose b ty n) = (if role n \<noteq> Leader then n else snd (tryAdvanceCommitIndex ?n))"
    by (auto simp: propose_def Let_def fst_snd_abind split: sum.splits)
  have "quiet n ?n" by (simp add: quiet_def vote_calls_def)
  then show "quiet n (snd (propose b ty n))"
    using tryAdvanceCommitIndex_step(1)[of ?n] by (auto simp: eq intro: quiet_trans)
  assume g: "good cfg n" and "short b" "ty = Command \<or> ty = NoOp"
  then have "static_entry ?e"
    by (auto simp: static_entry_def entry_ok_def)
  then have "good cfg ?n"
    using g by (auto simp: good_def intro!: static_appendAndSync)
  then show "good cfg (snd (propose b ty n))"
    using g tryAdvanceCommitIndex_step(2)[of cfg ?n] by (simp add: eq)
qed

lemma send_step:
  "quiet n (sendAppendEntriesTo p n)" "good cfg n \<Longrightarrow> good cfg (sendAppendEntriesTo p n)"
  "quiet n (sendInstallSnapshotTo p n)" "good cfg n \<Longrightarrow> good cfg (sendInstallSnapshotTo p n)"
  using entriesAfter_subset
  by (fastforce simp: sendAppendEntriesTo_def sendInstallSnapshotTo_def quiet_def vote_calls_def good_def
      static_log_def Let_def)+

lemma broadcastAppendEntries_step:
  "quiet n (broadcastAppendEntries n)" "good cfg n \<Longrightarrow> good cfg (broadcastAppendEntries n)"
proof -
  let ?f = "\<lambda>peer n. if peer = node_id n then n
          else if nextOf peer n \<le> snapshotIndex (nlog n) then sendInstallSnapshotTo peer n
          else sendAppendEntriesTo peer n"
  have q: "quiet n (fold ?f ps n)" for ps
    by (induction ps arbitrary: n) (auto intro: quiet_trans send_step)
  have g: "good cfg n \<Longrightarrow> good cfg (fold ?f ps n)" for ps
    by (induction ps arbitrary: n) (auto simp: send_step)
  show "quiet n (broadcastAppendEntries n)" "good cfg n \<Longrightarrow> good cfg (broadcastAppendEntries n)"
    using q g by (simp_all add: broadcastAppendEntries_def)
qed

lemma forceSnapshot_step:
  "quiet n (forceSnapshot n)" "good cfg n \<Longrightarrow> good cfg (forceSnapshot n)"
  by (auto simp: forceSnapshot_def forceSnapshot_write_def quiet_def vote_calls_def good_def
      static_compactUpTo split: option.splits)

lemma maybeSnapshot_step:
  "quiet n (maybeSnapshot n)" "good cfg n \<Longrightarrow> good cfg (maybeSnapshot n)"
  by (simp_all add: maybeSnapshot_def forceSnapshot_step)

lemma becomeFollower_step:
  "quiet n (becomeFollower t l n)" "good cfg n \<Longrightarrow> good cfg (becomeFollower t l n)"
  by (auto simp: quiet_def vote_calls_def good_def static_setHardState)

lemma onAppendResp_step:
  "quiet n (snd (onAppendResp p t ok resp n))" "good cfg n \<Longrightarrow> good cfg (snd (onAppendResp p t ok resp n))"
proof -
  let ?n = "n\<lparr>matchIndex := AList.update p (aer_matchIndex resp) (matchIndex n),
          nextIndex := AList.update p (aer_matchIndex resp + 1) (nextIndex n)\<rparr>"
  have "quiet n ?n" by (simp add: quiet_def vote_calls_def)
  then have q: "quiet n (snd (tryAdvanceCommitIndex ?n))"
    by (rule quiet_trans) (rule tryAdvanceCommitIndex_step)
  show "quiet n (snd (onAppendResp p t ok resp n))"
    using q becomeFollower_step(1)[of n "aer_term resp" 0]
    by (simp add: onAppendResp_def Let_def) (simp add: quiet_def vote_calls_def)
  assume g: "good cfg n"
  then have "good cfg ?n" by (simp add: good_def)
  then show "good cfg (snd (onAppendResp p t ok resp n))"
    using g becomeFollower_step(2)[OF g, of "aer_term resp" 0] tryAdvanceCommitIndex_step(2)[of cfg ?n]
    by (simp add: onAppendResp_def Let_def) (simp add: good_def)
qed

lemma onSnapshotResp_step:
  "quiet n (snd (onSnapshotResp p i ok resp n))" "good cfg n \<Longrightarrow> good cfg (snd (onSnapshotResp p i ok resp n))"
  by (auto simp: onSnapshotResp_def quiet_def vote_calls_def good_def static_setHardState)

lemma handleAppendEntries_log_step:
  "quiet n (snd (handleAppendEntries_log req n))"
  "good cfg n \<Longrightarrow> \<forall>e\<in>set (ae_entries req). static_entry e \<Longrightarrow> good cfg (snd (handleAppendEntries_log req n))"
  by (auto simp: handleAppendEntries_log_def Let_def quiet_def vote_calls_def good_def intro: static_appendAndSync)

lemma handleAppendEntries_step:
  "quiet n (snd (handleAppendEntries req n))"
  "good cfg n \<Longrightarrow> \<forall>e\<in>set (ae_entries req). static_entry e \<Longrightarrow> good cfg (snd (handleAppendEntries req n))"
proof -
  let ?n1 = "becomeFollower (ae_term req) (ae_leaderId req) n"
  let ?n2 = "snd (handleAppendEntries_log req ?n1)"
  have eq: "snd (handleAppendEntries req n) \<in> {n, ?n2, snd (applyCommittedEntries ?n2)}"
    by (auto simp: handleAppendEntries_def fst_snd_abind split: sum.splits prod.splits)
  have q2: "quiet n ?n2"
    by (rule quiet_trans[OF becomeFollower_step(1) handleAppendEntries_log_step(1)])
  then show "quiet n (snd (handleAppendEntries req n))"
    using eq quiet_trans[OF q2 applyCommittedEntries_step(1)] by auto
  assume g: "good cfg n" and st: "\<forall>e\<in>set (ae_entries req). static_entry e"
  have g2: "good cfg ?n2"
    using becomeFollower_step(2)[OF g] st by (rule handleAppendEntries_log_step(2))
  then show "good cfg (snd (handleAppendEntries req n))"
    using eq g applyCommittedEntries_step(2)[OF g2] by auto
qed

lemma handleInstallSnapshot_step:
  "quiet n (snd (handleInstallSnapshot req n))"
  "good cfg n \<Longrightarrow> good cfg (snd (handleInstallSnapshot req n))"
  by (auto simp: handleInstallSnapshot_def Let_def quiet_def vote_calls_def good_def static_compactUpTo
      static_setHardState split: sum.splits prod.splits)

section \<open>Elections\<close>

text \<open>Winning: the locked section of \<open>becomeLeader\<close> and what follows it.\<close>

lemma becomeLeader_enter_fields:
  assumes "role n = Candidate"
  shows "fst (becomeLeader_enter n)" and "role (snd (becomeLeader_enter n)) = Leader"
    and "nlog (snd (becomeLeader_enter n)) = nlog n" and "opts (snd (becomeLeader_enter n)) = opts n"
    and "votes (snd (becomeLeader_enter n)) = votes n" and "outbox (snd (becomeLeader_enter n)) = outbox n"
    and "config (snd (becomeLeader_enter n)) = config n"
  using assms initProgress_frame[of "n\<lparr>role := Leader, leaderId := node_id n, nextIndex := [], matchIndex := []\<rparr>"
      "lastIndex (nlog n)" "voters (config n)"]
  by (simp_all add: becomeLeader_enter_def Let_def frame_defs)

lemma becomeLeader_not_candidate: "role n \<noteq> Candidate \<Longrightarrow> becomeLeader n = (Inr (), n)"
  by (simp add: becomeLeader_def becomeLeader_enter_def)

lemma becomeLeader_step:
  assumes "role n = Candidate"
  shows "quiet (snd (becomeLeader_enter n)) (snd (becomeLeader n))"
    and "good cfg n \<Longrightarrow> good cfg (snd (becomeLeader n))"
proof -
  let ?m = "snd (becomeLeader_enter n)"
  let ?p = "snd (propose [] NoOp ?m)"
  let ?t = "snd (tryAdvanceCommitIndex ?p)"
  have eq: "snd (becomeLeader n) \<in> {?p, ?t, broadcastAppendEntries ?t}"
    using becomeLeader_enter_fields(1)[OF assms]
    by (auto simp: becomeLeader_def fst_snd_abind split: prod.splits sum.splits)
  have "quiet ?m ?p" by (rule propose_step)
  moreover from this have "quiet ?m ?t" by (rule quiet_trans) (rule tryAdvanceCommitIndex_step)
  moreover from this have "quiet ?m (broadcastAppendEntries ?t)" by (rule quiet_trans) (rule broadcastAppendEntries_step)
  ultimately show "quiet ?m (snd (becomeLeader n))" using eq by auto
  assume "good cfg n"
  then have "good cfg ?m"
    by (simp add: good_def becomeLeader_enter_fields[OF assms])
  then have "good cfg ?p" by (intro propose_step(2)) simp_all
  moreover from this have "good cfg ?t" by (rule tryAdvanceCommitIndex_step)
  moreover from this have "good cfg (broadcastAppendEntries ?t)" by (rule broadcastAppendEntries_step)
  ultimately show "good cfg (snd (becomeLeader n))" using eq by auto
qed

lemma propose_frame_role: "role (snd (propose b ty n)) = role n"
  using tryAdvanceCommitIndex_frame by (auto simp: propose_def Let_def fst_snd_abind frame_def split: sum.splits)

lemma sends_role: "sends n n' \<Longrightarrow> role n' = role n"
  by (auto simp: sends_def)

lemma becomeLeader_role:
  assumes "role n = Candidate"
  shows "role (snd (becomeLeader n)) = Leader"
proof -
  let ?m = "snd (becomeLeader_enter n)"
  let ?p = "snd (propose [] NoOp ?m)"
  let ?t = "snd (tryAdvanceCommitIndex ?p)"
  have eq: "snd (becomeLeader n) \<in> {?p, ?t, broadcastAppendEntries ?t}"
    using becomeLeader_enter_fields(1)[OF assms]
    by (auto simp: becomeLeader_def fst_snd_abind split: prod.splits sum.splits)
  have p: "role ?p = Leader"
    using becomeLeader_enter_fields(2)[OF assms] by (simp add: propose_frame_role)
  then have t: "role ?t = Leader"
    using tryAdvanceCommitIndex_frame[of ?p] by (simp add: frame_def)
  then have "role (broadcastAppendEntries ?t) = Leader"
    using sends_role[OF broadcastAppendEntries_sends[of ?t]] by simp
  then show ?thesis using eq p t by auto
qed

text \<open>Starting an election.\<close>

definition majority :: "ClusterConfig \<Rightarrow> nat" where
  "majority cfg = length (voters cfg) div 2 + 1"

definition vote_request :: "RaftNode \<Rightarrow> RequestVoteReq" where
  "vote_request n = \<lparr>rv_term = node_term n, candidateId = node_id n,
     lastLogIndex = lastIndex (nlog n), lastLogTerm = lastTerm (nlog n)\<rparr>"

lemma becomeCandidate_enter_fields [simp]:
  "nlog (becomeCandidate_enter n) = setHardState (node_term n + 1) (node_id n) (nlog n)"
  "opts (becomeCandidate_enter n) = opts n" "role (becomeCandidate_enter n) = Candidate"
  "votes (becomeCandidate_enter n) = votes n" "outbox (becomeCandidate_enter n) = outbox n"
  "config (becomeCandidate_enter n) = config n"
  by (simp_all add: becomeCandidate_enter_def)

lemma good_becomeCandidate_enter: "good cfg n \<Longrightarrow> good cfg (becomeCandidate_enter n)"
  by (simp add: good_def static_setHardState)

text \<open>The three ways \<open>becomeCandidate\<close> can go: not a voter, a majority of one, or votes to ask for.\<close>

lemma becomeCandidate_cases:
  obtains
    (not_voter) "voters (config n) \<noteq> []" "node_id n \<notin> set (voters (config n))"
      "snd (becomeCandidate n) = becomeCandidate_enter n"
  | (alone) "majority (config n) = 1" "voters (config n) = [] \<or> node_id n \<in> set (voters (config n))"
      "snd (becomeCandidate n) = snd (becomeLeader ((becomeCandidate_enter n)\<lparr>votes := (votes n)(node_term n + 1 \<mapsto> 1)\<rparr>))"
  | (ask) "majority (config n) > 1" "node_id n \<in> set (voters (config n))"
      "snd (becomeCandidate n) = (becomeCandidate_enter n)\<lparr>votes := (votes n)(node_term n + 1 \<mapsto> 1),
        outbox := outbox n @ map (\<lambda>p. SendRequestVote p (vote_request (becomeCandidate_enter n)) (node_term n + 1)
          (int (majority (config n)))) (filter (\<lambda>p. p \<noteq> node_id n) (voters (config n)))\<rparr>"
proof -
  let ?n = "becomeCandidate_enter n"
  consider (A) "voters (config n) \<noteq> []" "node_id n \<notin> set (voters (config n))"
    | (B) "voters (config n) = [] \<or> node_id n \<in> set (voters (config n))" "majority (config n) = 1"
    | (C) "voters (config n) = [] \<or> node_id n \<in> set (voters (config n))" "majority (config n) > 1"
    unfolding majority_def by fastforce
  then show thesis
  proof cases
    case A
    then show thesis
      using that(1) by (simp add: becomeCandidate_def hasVoter_iff)
  next
    case B
    then show thesis
      using that(2) by (auto simp: becomeCandidate_def hasVoter_iff majority_def Let_def)
  next
    case C
    then show thesis
      using that(3) by (auto simp: becomeCandidate_def hasVoter_iff majority_def vote_request_def Let_def)
  qed
qed

lemma good_becomeCandidate: "good cfg n \<Longrightarrow> good cfg (snd (becomeCandidate n))"
proof (cases n rule: becomeCandidate_cases)
  case not_voter
  then show "good cfg n \<Longrightarrow> ?thesis" by (simp add: good_becomeCandidate_enter)
next
  case alone
  let ?m = "(becomeCandidate_enter n)\<lparr>votes := (votes n)(node_term n + 1 \<mapsto> 1)\<rparr>"
  assume "good cfg n"
  then have "good cfg ?m"
    using good_becomeCandidate_enter[of cfg n] by (simp add: good_def)
  then show ?thesis
    using alone becomeLeader_step(2)[of ?m cfg] by simp
next
  case ask
  assume "good cfg n"
  then show ?thesis
    using good_becomeCandidate_enter[of cfg n] ask by (auto simp: good_def)
qed

text \<open>Counting a vote.\<close>

lemma onVoteResp_cases:
  obtains (quiet) "quiet n (snd (onVoteResp t m ok resp n))"
      "ok \<Longrightarrow> role n = Candidate \<Longrightarrow> node_term n = t \<Longrightarrow> role (snd (onVoteResp t m ok resp n)) = Candidate \<Longrightarrow>
        snd (onVoteResp t m ok resp n) = n"
  | (counted) v where "role n = Candidate" "node_term n = t" "voteGranted resp" "rvr_term resp \<le> t"
      "v = (case votes n t of None \<Rightarrow> 0 | Some v \<Rightarrow> v) + 1" "v < m"
      "snd (onVoteResp t m ok resp n) = n\<lparr>votes := (votes n)(t \<mapsto> v)\<rparr>"
  | (won) v where "role n = Candidate" "node_term n = t" "voteGranted resp" "rvr_term resp \<le> t"
      "v = (case votes n t of None \<Rightarrow> 0 | Some v \<Rightarrow> v) + 1" "v \<ge> m"
      "snd (onVoteResp t m ok resp n) = snd (becomeLeader (n\<lparr>votes := (votes n)(t \<mapsto> v)\<rparr>))"
proof -
  let ?v = "(case votes n t of None \<Rightarrow> 0 | Some v \<Rightarrow> v) + 1"
  consider (A) "\<not> ok \<or> role n \<noteq> Candidate \<or> node_term n \<noteq> t"
    | (B) "ok" "role n = Candidate" "node_term n = t" "t < rvr_term resp"
    | (C) "ok" "role n = Candidate" "node_term n = t" "rvr_term resp \<le> t" "\<not> voteGranted resp"
    | (D) "ok" "role n = Candidate" "node_term n = t" "rvr_term resp \<le> t" "voteGranted resp" "?v < m"
    | (E) "ok" "role n = Candidate" "node_term n = t" "rvr_term resp \<le> t" "voteGranted resp" "?v \<ge> m"
    by fastforce
  then show thesis
  proof cases
    case A
    then have "snd (onVoteResp t m ok resp n) = n"
      by (auto simp: onVoteResp_def voteResp_count_def)
    then show thesis by (intro that(1)) auto
  next
    case B
    then have "snd (onVoteResp t m ok resp n) = becomeFollower (rvr_term resp) 0 n"
      by (simp add: onVoteResp_def voteResp_count_def)
    then show thesis
      using becomeFollower_step(1)[of n "rvr_term resp" 0] by (intro that(1)) simp_all
  next
    case C
    then have "snd (onVoteResp t m ok resp n) = n"
      by (simp add: onVoteResp_def voteResp_count_def)
    then show thesis by (intro that(1)) auto
  next
    case D
    then show thesis by (intro that(2)[of ?v]) (simp_all add: onVoteResp_def voteResp_count_def Let_def)
  next
    case E
    then show thesis by (intro that(3)[of ?v]) (simp_all add: onVoteResp_def voteResp_count_def Let_def)
  qed
qed

lemma good_onVoteResp:
  assumes "good cfg n"
  shows "good cfg (snd (onVoteResp t m ok resp n))"
proof -
  have g: "good cfg (n\<lparr>votes := v\<rparr>)" for v using assms by (simp add: good_def)
  show ?thesis
    using assms g becomeFollower_step(2)[OF assms, of "rvr_term resp" 0]
      becomeLeader_step(2)[of "n\<lparr>votes := v\<rparr>" cfg for v]
    by (auto simp: onVoteResp_def voteResp_count_def Let_def)
qed

text \<open>Casting a vote.\<close>

lemma handleRequestVote_spec:
  assumes "handleRequestVote req n = (resp, n')"
  shows "rvr_term resp = node_term n'"
    and "voteGranted resp \<Longrightarrow> node_term n' = rv_term req \<and> votedFor (nlog n') = candidateId req"
    and "hs_le (nlog n) (nlog n')"
    and "opts n' = opts n \<and> votes n' = votes n \<and> outbox n' = outbox n"
    and "role n' = Follower \<and> node_term n < node_term n' \<or> role n' = role n \<and> node_term n' = node_term n"
    and "good cfg n \<Longrightarrow> good cfg n'"
  using assms
  by (auto simp: handleRequestVote_def handleRequestVote_vote_def Let_def hs_le_def good_def
      static_setHardState split: if_splits)

end
