(* ===== verification/Raft_Cluster.thy ===== *)
theory Raft_Cluster
  imports Raft_Election
begin

text \<open>
  A cluster of Raft nodes that exchange RPCs through a \<^verbatim>\<open>Transport\<close> (\<^verbatim>\<open>net/transport.h\<close>). A step is
  one round of a node's timer loop, one handler, one callback, one client call, the loss of a
  message or the restart of a node from its directory. Requests and replies are delivered in
  any order and may be lost; AppendEntries and InstallSnapshot traffic may also be duplicated.
  A vote request and its reply are delivered at most once, as the request and response round
  trip of \<^verbatim>\<open>TcpTransport\<close> does. Handlers and callbacks are one step each. The voters are fixed:
  clients propose commands only. The timer loop is not stepped once the term counter has
  reached its last value.

  \<open>epoch\<close> counts the restarts of a node; a callback of a call made before a restart is not run.
  \<open>cast\<close> and \<open>elected\<close> are history: every vote ever cast and every leader there ever was.
\<close>

section \<open>Clusters\<close>

datatype Msg =
    Req NodeId nat Rpc
  | VoteReply NodeId nat NodeId Term int RequestVoteResp
  | AppendReply NodeId nat NodeId Term AppendEntriesResp
  | SnapReply NodeId nat NodeId LogIndex InstallSnapshotResp

record Cluster =
  nodes :: "NodeId \<Rightarrow> RaftNode"
  epoch :: "NodeId \<Rightarrow> nat"
  net :: "Msg set"
  cast :: "(NodeId \<times> Term \<times> NodeId) set"
  elected :: "(Term \<times> NodeId) set"

text \<open>Node \<open>i\<close> is now \<open>n\<close>, and the calls it made are under way.\<close>

definition install :: "NodeId \<Rightarrow> RaftNode \<Rightarrow> Cluster \<Rightarrow> Cluster" where
  "install i n c = c\<lparr>nodes := (nodes c)(i := n\<lparr>outbox := []\<rparr>),
     net := net c \<union> Req i (epoch c i) ` set (outbox n),
     cast := cast c \<union> {(i, node_term n, v) | v. v = votedFor (nlog n) \<and> v \<noteq> 0},
     elected := elected c \<union> {(t, i) | t. t = node_term n \<and> role n = Leader}\<rparr>"

definition lose :: "Msg \<Rightarrow> Cluster \<Rightarrow> Cluster" where
  "lose m c = c\<lparr>net := net c - {m}\<rparr>"

definition put_msg :: "Msg \<Rightarrow> Cluster \<Rightarrow> Cluster" where
  "put_msg m c = c\<lparr>net := insert m (net c)\<rparr>"

inductive cstep :: "ClusterConfig \<Rightarrow> Cluster \<Rightarrow> Cluster \<Rightarrow> bool" for cfg where
  tick: "node_term (nodes c i) \<noteq> - 1 \<Longrightarrow>
    cstep cfg c (install i (snd (runLoop_round hb ((nodes c i)\<lparr>clock := now, rng := g\<rparr>))) c)"
| client_propose: "short b \<Longrightarrow> cstep cfg c (install i (snd (propose b Command (nodes c i))) c)"
| client_read: "cstep cfg c (install i (snd (readBarrier_begin (nodes c i))) c)"
| snapshot: "cstep cfg c (install i (forceSnapshot (nodes c i)) c)"
| recv_vote: "Req i ep (SendRequestVote j q t m) \<in> net c \<Longrightarrow> handleRequestVote q (nodes c j) = (resp, n) \<Longrightarrow>
    cstep cfg c (put_msg (VoteReply i ep j t m resp) (install j n (lose (Req i ep (SendRequestVote j q t m)) c)))"
| recv_append: "Req i ep (SendAppendEntries j q t) \<in> net c \<Longrightarrow> handleAppendEntries q (nodes c j) = (Inr resp, n) \<Longrightarrow>
    cstep cfg c (put_msg (AppendReply i ep j t resp) (install j n c))"
| recv_append_throws: "Req i ep (SendAppendEntries j q t) \<in> net c \<Longrightarrow> handleAppendEntries q (nodes c j) = (Inl e, n) \<Longrightarrow>
    cstep cfg c (install j n c)"
| recv_snapshot: "Req i ep (SendInstallSnapshot j q x) \<in> net c \<Longrightarrow> handleInstallSnapshot q (nodes c j) = (Inr resp, n) \<Longrightarrow>
    cstep cfg c (put_msg (SnapReply i ep j x resp) (install j n c))"
| recv_snapshot_throws: "Req i ep (SendInstallSnapshot j q x) \<in> net c \<Longrightarrow> handleInstallSnapshot q (nodes c j) = (Inl e, n) \<Longrightarrow>
    cstep cfg c (install j n c)"
| vote_reply: "VoteReply i (epoch c i) j t m resp \<in> net c \<Longrightarrow>
    cstep cfg c (install i (snd (onVoteResp t m True resp (nodes c i))) (lose (VoteReply i (epoch c i) j t m resp) c))"
| append_reply: "AppendReply i (epoch c i) j t resp \<in> net c \<Longrightarrow>
    cstep cfg c (install i (snd (onAppendResp j t True resp (nodes c i))) c)"
| snap_reply: "SnapReply i (epoch c i) j x resp \<in> net c \<Longrightarrow>
    cstep cfg c (install i (snd (onSnapshotResp j x True resp (nodes c i))) c)"
| loss: "cstep cfg c (lose m c)"
| restart: "RaftNode_new (opts (nodes c i)) cfg (plDisk (nlog (nodes c i))) s0 g now = Inr n \<Longrightarrow>
    cstep cfg c (install i (start n) (c\<lparr>epoch := (epoch c)(i := Suc (epoch c i))\<rparr>))"

text \<open>A cluster starts with empty directories, every node configured with the same voters.\<close>

inductive reachable :: "ClusterConfig \<Rightarrow> Cluster \<Rightarrow> bool" for cfg where
  init: "(\<And>i. opt_id (os i) = i) \<Longrightarrow>
    (\<And>i. RaftNode_new (os i) cfg Map.empty KvStore_empty (gs i) (ts i) = Inr (ns i)) \<Longrightarrow>
    reachable cfg \<lparr>nodes = (\<lambda>i. start (ns i)), epoch = (\<lambda>_. 0), net = {}, cast = {}, elected = {}\<rparr>"
| step: "reachable cfg c \<Longrightarrow> cstep cfg c c' \<Longrightarrow> reachable cfg c'"

section \<open>The invariant\<close>

text \<open>What is under way for a vote of \<open>j\<close> in the election of \<open>i\<close> in term \<open>t\<close>.\<close>

definition tokens :: "Cluster \<Rightarrow> NodeId \<Rightarrow> Term \<Rightarrow> NodeId \<Rightarrow> Msg set" where
  "tokens c i t j = {x \<in> net c. (\<exists>q m. x = Req i (epoch c i) (SendRequestVote j q t m)) \<or>
     (\<exists>m r. x = VoteReply i (epoch c i) j t m r)}"

definition quorum :: "ClusterConfig \<Rightarrow> NodeId set \<Rightarrow> bool" where
  "quorum cfg S \<longleftrightarrow> S \<subseteq> set (voters cfg) \<and> majority cfg \<le> card S"

definition nodes_ok :: "ClusterConfig \<Rightarrow> Cluster \<Rightarrow> bool" where
  "nodes_ok cfg c \<longleftrightarrow> (\<forall>i. node_id (nodes c i) = i \<and> good cfg (nodes c i) \<and> outbox (nodes c i) = [])"

definition calls_ok :: "ClusterConfig \<Rightarrow> Cluster \<Rightarrow> bool" where
  "calls_ok cfg c \<longleftrightarrow> (\<forall>i ep call. Req i ep call \<in> net c \<longrightarrow> static_call call)"

definition vote_msg_ok :: "ClusterConfig \<Rightarrow> Cluster \<Rightarrow> NodeId \<Rightarrow> nat \<Rightarrow> NodeId \<Rightarrow> Term \<Rightarrow> int \<Rightarrow> bool" where
  "vote_msg_ok cfg c i ep j t m \<longleftrightarrow> m = int (majority cfg) \<and> i \<in> set (voters cfg) \<and> j \<in> set (voters cfg) \<and>
     j \<noteq> i \<and> ep \<le> epoch c i \<and> t \<le> node_term (nodes c i)"

definition requests_ok :: "ClusterConfig \<Rightarrow> Cluster \<Rightarrow> bool" where
  "requests_ok cfg c \<longleftrightarrow> (\<forall>i ep j q t m. Req i ep (SendRequestVote j q t m) \<in> net c \<longrightarrow>
     vote_msg_ok cfg c i ep j t m \<and> candidateId q = i \<and> rv_term q = t)"

definition replies_ok :: "ClusterConfig \<Rightarrow> Cluster \<Rightarrow> bool" where
  "replies_ok cfg c \<longleftrightarrow> (\<forall>i ep j t m r. VoteReply i ep j t m r \<in> net c \<longrightarrow>
     vote_msg_ok cfg c i ep j t m \<and> (voteGranted r \<and> rvr_term r \<le> t \<longrightarrow> (j, t, i) \<in> cast c))"

definition cast_ok :: "Cluster \<Rightarrow> bool" where
  "cast_ok c \<longleftrightarrow> (\<forall>j t k. (j, t, k) \<in> cast c \<longrightarrow> k \<noteq> 0 \<and>
     (t < node_term (nodes c j) \<or> t = node_term (nodes c j) \<and> votedFor (nlog (nodes c j)) = k))"

definition cast_once :: "Cluster \<Rightarrow> bool" where
  "cast_once c \<longleftrightarrow> (\<forall>j t k k'. (j, t, k) \<in> cast c \<longrightarrow> (j, t, k') \<in> cast c \<longrightarrow> k = k')"

definition roles_ok :: "ClusterConfig \<Rightarrow> Cluster \<Rightarrow> bool" where
  "roles_ok cfg c \<longleftrightarrow> (\<forall>i. i \<in> set (voters cfg) \<longrightarrow> role (nodes c i) \<noteq> Follower \<longrightarrow> (i, node_term (nodes c i), i) \<in> cast c) \<and>
     (\<forall>i. role (nodes c i) = Leader \<longrightarrow> (node_term (nodes c i), i) \<in> elected c)"

definition counted :: "ClusterConfig \<Rightarrow> Cluster \<Rightarrow> NodeId \<Rightarrow> NodeId set \<Rightarrow> bool" where
  "counted cfg c i S \<longleftrightarrow> S \<subseteq> set (voters cfg) \<and> i \<in> S \<and>
     votes (nodes c i) (node_term (nodes c i)) = Some (int (card S)) \<and>
     (\<forall>j\<in>S. (j, node_term (nodes c i), i) \<in> cast c) \<and>
     (\<forall>j\<in>S - {i}. tokens c i (node_term (nodes c i)) j = {}) \<and>
     (\<forall>j. \<forall>x\<in>tokens c i (node_term (nodes c i)) j. \<forall>y\<in>tokens c i (node_term (nodes c i)) j. x = y)"

definition counting_ok :: "ClusterConfig \<Rightarrow> Cluster \<Rightarrow> bool" where
  "counting_ok cfg c \<longleftrightarrow> (\<forall>i\<in>set (voters cfg). role (nodes c i) = Candidate \<longrightarrow> (\<exists>S. counted cfg c i S))"

definition elected_ok :: "ClusterConfig \<Rightarrow> Cluster \<Rightarrow> bool" where
  "elected_ok cfg c \<longleftrightarrow> (\<forall>t i. (t, i) \<in> elected c \<longrightarrow> (\<exists>S. quorum cfg S \<and> (\<forall>j\<in>S. (j, t, i) \<in> cast c)))"

definition cinv :: "ClusterConfig \<Rightarrow> Cluster \<Rightarrow> bool" where
  "cinv cfg c \<longleftrightarrow> nodes_ok cfg c \<and> calls_ok cfg c \<and> requests_ok cfg c \<and> replies_ok cfg c \<and>
     cast_ok c \<and> cast_once c \<and> roles_ok cfg c \<and> counting_ok cfg c \<and> elected_ok cfg c"

definition config_wf :: "ClusterConfig \<Rightarrow> bool" where
  "config_wf cfg \<longleftrightarrow> voters cfg \<noteq> [] \<and> distinct (voters cfg) \<and> 0 \<notin> set (voters cfg)"

lemma cinvD:
  assumes "cinv cfg c"
  shows "nodes_ok cfg c" "calls_ok cfg c" "requests_ok cfg c" "replies_ok cfg c"
    "cast_ok c" "cast_once c" "roles_ok cfg c" "counting_ok cfg c" "elected_ok cfg c"
  using assms by (simp_all add: cinv_def)

lemma install_simps [simp]:
  "nodes (install i n c) k = (if k = i then n\<lparr>outbox := []\<rparr> else nodes c k)"
  "epoch (install i n c) = epoch c"
  by (simp_all add: install_def)

lemma in_install_net:
  "x \<in> net (install i n c) \<longleftrightarrow> x \<in> net c \<or> (\<exists>call\<in>set (outbox n). x = Req i (epoch c i) call)"
  by (auto simp: install_def)

lemma cast_install_mono: "x \<in> cast c \<Longrightarrow> x \<in> cast (install i n c)"
  by (simp add: install_def)

lemma cast_install: "votedFor (nlog n) \<noteq> 0 \<Longrightarrow> (i, node_term n, votedFor (nlog n)) \<in> cast (install i n c)"
  by (simp add: install_def)

lemma lose_simps [simp]:
  "nodes (lose m c) = nodes c" "epoch (lose m c) = epoch c" "cast (lose m c) = cast c"
  "elected (lose m c) = elected c" "net (lose m c) = net c - {m}"
  by (simp_all add: lose_def)

lemma put_msg_simps [simp]:
  "nodes (put_msg m c) = nodes c" "epoch (put_msg m c) = epoch c" "cast (put_msg m c) = cast c"
  "elected (put_msg m c) = elected c" "net (put_msg m c) = insert m (net c)"
  by (simp_all add: put_msg_def)

lemma vote_msg_ok_mono:
  "vote_msg_ok cfg c i ep j t m \<Longrightarrow> epoch c i \<le> epoch c' i \<Longrightarrow> node_term (nodes c i) \<le> node_term (nodes c' i) \<Longrightarrow>
   vote_msg_ok cfg c' i ep j t m"
  by (auto simp: vote_msg_ok_def)

lemma vote_msg_ok_net [simp]:
  "vote_msg_ok cfg (lose x c) = vote_msg_ok cfg c" "vote_msg_ok cfg (put_msg x c) = vote_msg_ok cfg c"
  by (simp_all add: vote_msg_ok_def fun_eq_iff)

subsection \<open>Messages lost and replies that are no votes\<close>

lemma counted_mono:
  assumes "counted cfg c i S" "node_term (nodes c' i) = node_term (nodes c i)" "votes (nodes c' i) = votes (nodes c i)"
    and "cast c \<subseteq> cast c'" "\<And>j. tokens c' i (node_term (nodes c i)) j \<subseteq> tokens c i (node_term (nodes c i)) j"
  shows "counted cfg c' i S"
  using assms(1,4,5) unfolding counted_def assms(2,3) by blast

lemma counted_lose: "counted cfg c i S \<Longrightarrow> counted cfg (lose m c) i S"
  by (erule counted_mono) (auto simp: tokens_def)

lemma lose_cinv:
  assumes "cinv cfg c"
  shows "cinv cfg (lose m c)"
proof -
  note I = cinvD[OF assms]
  have "calls_ok cfg (lose m c)"
    using I(2) unfolding calls_ok_def lose_simps by blast
  moreover have "requests_ok cfg (lose m c)"
    using I(3) unfolding requests_ok_def lose_simps vote_msg_ok_net by blast
  moreover have "replies_ok cfg (lose m c)"
    using I(4) unfolding replies_ok_def lose_simps vote_msg_ok_net by blast
  moreover have "counting_ok cfg (lose m c)"
    using I(8) by (auto simp: counting_ok_def intro: counted_lose)
  moreover have "nodes_ok cfg (lose m c)" "cast_ok (lose m c)" "cast_once (lose m c)"
    "roles_ok cfg (lose m c)" "elected_ok cfg (lose m c)"
    using I(1,5,6,7,9) by (simp_all add: nodes_ok_def cast_ok_def cast_once_def roles_ok_def elected_ok_def)
  ultimately show ?thesis by (simp add: cinv_def)
qed

lemma put_other_cinv:
  assumes "cinv cfg c" "\<And>i ep call. x \<noteq> Req i ep call" "\<And>i ep j t m r. x \<noteq> VoteReply i ep j t m r"
  shows "cinv cfg (put_msg x c)"
proof -
  have "tokens (put_msg x c) i t j = tokens c i t j" for i t j
    using assms(2,3) unfolding tokens_def put_msg_simps by blast
  then have "counted cfg (put_msg x c) i S \<longleftrightarrow> counted cfg c i S" for i S
    by (simp add: counted_def)
  then have "counting_ok cfg (put_msg x c)"
    using cinvD(8)[OF assms(1)] by (simp add: counting_ok_def)
  moreover have "calls_ok cfg (put_msg x c)"
    using assms(2) cinvD(2)[OF assms(1)] unfolding calls_ok_def put_msg_simps by blast
  moreover have "requests_ok cfg (put_msg x c)"
    using assms(2) cinvD(3)[OF assms(1)] unfolding requests_ok_def put_msg_simps vote_msg_ok_net by blast
  moreover have "replies_ok cfg (put_msg x c)"
    using assms(3) cinvD(4)[OF assms(1)] unfolding replies_ok_def put_msg_simps vote_msg_ok_net by blast
  moreover have "nodes_ok cfg (put_msg x c)" "cast_ok (put_msg x c)" "cast_once (put_msg x c)"
    "roles_ok cfg (put_msg x c)" "elected_ok cfg (put_msg x c)"
    using cinvD[OF assms(1)] by (simp_all add: nodes_ok_def cast_ok_def cast_once_def roles_ok_def elected_ok_def)
  ultimately show ?thesis by (simp add: cinv_def)
qed

subsection \<open>A node changes\<close>

lemma tokens_install_other: "k \<noteq> i \<Longrightarrow> tokens (install i n c) k t j = tokens c k t j"
  by (auto simp: tokens_def in_install_net)

lemma counted_install_other:
  "k \<noteq> i \<Longrightarrow> counted cfg c k S \<Longrightarrow> counted cfg (install i n c) k S"
  by (erule counted_mono) (auto simp: tokens_install_other intro: cast_install_mono)

lemma install_cast_ok:
  assumes "cast_ok c" "hs_le (nlog (nodes c i)) (nlog n)"
  shows "cast_ok (install i n c)"
  unfolding cast_ok_def
proof (intro allI impI)
  fix j t k
  assume "(j, t, k) \<in> cast (install i n c)"
  then consider "(j, t, k) \<in> cast c" | "j = i" "t = node_term n" "k = votedFor (nlog n)" "k \<noteq> 0"
    by (auto simp: install_def)
  then show "k \<noteq> 0 \<and> (t < node_term (nodes (install i n c) j) \<or>
      t = node_term (nodes (install i n c) j) \<and> votedFor (nlog (nodes (install i n c) j)) = k)"
  proof cases
    case 1
    then have "k \<noteq> 0" "t < node_term (nodes c j) \<or> t = node_term (nodes c j) \<and> votedFor (nlog (nodes c j)) = k"
      using assms(1) by (auto simp: cast_ok_def)
    then show ?thesis using assms(2) by (auto simp: hs_le_def)
  qed simp
qed

lemma install_cast_once:
  assumes "cast_ok c" "cast_once c" "hs_le (nlog (nodes c i)) (nlog n)"
  shows "cast_once (install i n c)"
proof -
  have new: "k = votedFor (nlog n)" if "(i, node_term n, k) \<in> cast c" for k
    using that assms(1,3) by (fastforce simp: cast_ok_def hs_le_def)
  have "k = k'" if "(j, t, k) \<in> cast (install i n c)" "(j, t, k') \<in> cast (install i n c)" for j t k k'
  proof -
    have "(j, t, k) \<in> cast c \<or> (j, t, k) = (i, node_term n, votedFor (nlog n))"
      and "(j, t, k') \<in> cast c \<or> (j, t, k') = (i, node_term n, votedFor (nlog n))"
      using that by (auto simp: install_def)
    then show ?thesis
      using new assms(2) unfolding cast_once_def by blast
  qed
  then show ?thesis by (auto simp: cast_once_def)
qed

lemma vote_msg_ok_install:
  "vote_msg_ok cfg c k ep j t m \<Longrightarrow> node_term (nodes c i) \<le> node_term n \<Longrightarrow> vote_msg_ok cfg (install i n c) k ep j t m"
  by (auto elim: vote_msg_ok_mono)

lemma install_requests_ok:
  assumes inv: "requests_ok cfg c" and le: "node_term (nodes c i) \<le> node_term n"
    and reqs: "\<And>j q t m. SendRequestVote j q t m \<in> set (outbox n) \<Longrightarrow>
      m = int (majority cfg) \<and> i \<in> set (voters cfg) \<and> j \<in> set (voters cfg) \<and> j \<noteq> i \<and> t \<le> node_term n \<and>
      candidateId q = i \<and> rv_term q = t"
  shows "requests_ok cfg (install i n c)"
  unfolding requests_ok_def
proof (intro allI impI)
  fix k ep j q t m
  assume "Req k ep (SendRequestVote j q t m) \<in> net (install i n c)"
  then consider "Req k ep (SendRequestVote j q t m) \<in> net c"
    | "k = i" "ep = epoch c i" "SendRequestVote j q t m \<in> set (outbox n)"
    by (auto simp: in_install_net)
  then show "vote_msg_ok cfg (install i n c) k ep j t m \<and> candidateId q = k \<and> rv_term q = t"
  proof cases
    case 1
    then show ?thesis using inv vote_msg_ok_install[OF _ le] unfolding requests_ok_def by blast
  next
    case 2
    then show ?thesis using reqs[of j q t m] by (simp add: vote_msg_ok_def)
  qed
qed

lemma install_replies_ok:
  assumes "replies_ok cfg c" "node_term (nodes c i) \<le> node_term n"
  shows "replies_ok cfg (install i n c)"
  unfolding replies_ok_def
proof (intro allI impI)
  fix k ep j t m r
  assume "VoteReply k ep j t m r \<in> net (install i n c)"
  then have "VoteReply k ep j t m r \<in> net c" by (auto simp: in_install_net)
  then show "vote_msg_ok cfg (install i n c) k ep j t m \<and>
      (voteGranted r \<and> rvr_term r \<le> t \<longrightarrow> (j, t, k) \<in> cast (install i n c))"
    using assms(1) vote_msg_ok_install[OF _ assms(2)] cast_install_mono unfolding replies_ok_def by blast
qed

lemma install_elected_ok:
  assumes inv: "elected_ok cfg c"
    and lead: "role n = Leader \<Longrightarrow> (node_term n, i) \<in> elected c \<or>
      (\<exists>S. quorum cfg S \<and> (\<forall>j\<in>S. (j, node_term n, i) \<in> cast (install i n c)))"
  shows "elected_ok cfg (install i n c)"
  unfolding elected_ok_def
proof (intro allI impI)
  fix t k
  assume "(t, k) \<in> elected (install i n c)"
  then consider "(t, k) \<in> elected c" | "t = node_term n" "k = i" "role n = Leader" "(t, k) \<notin> elected c"
    by (auto simp: install_def)
  then show "\<exists>S. quorum cfg S \<and> (\<forall>j\<in>S. (j, t, k) \<in> cast (install i n c))"
  proof cases
    case 1
    then show ?thesis using inv unfolding elected_ok_def by (meson cast_install_mono)
  next
    case 2
    then show ?thesis using lead by auto
  qed
qed

lemma install_cinv:
  assumes inv: "cinv cfg c" and id: "node_id n = i" and good: "good cfg n"
    and hs: "hs_le (nlog (nodes c i)) (nlog n)"
    and reqs: "\<And>j q t m. SendRequestVote j q t m \<in> set (outbox n) \<Longrightarrow>
      m = int (majority cfg) \<and> i \<in> set (voters cfg) \<and> j \<in> set (voters cfg) \<and> j \<noteq> i \<and> t \<le> node_term n \<and>
      candidateId q = i \<and> rv_term q = t"
    and lead: "role n = Leader \<Longrightarrow> (node_term n, i) \<in> elected c \<or>
      (\<exists>S. quorum cfg S \<and> (\<forall>j\<in>S. (j, node_term n, i) \<in> cast (install i n c)))"
    and self: "i \<in> set (voters cfg) \<Longrightarrow> role n \<noteq> Follower \<Longrightarrow> (i, node_term n, i) \<in> cast (install i n c)"
    and cnt: "i \<in> set (voters cfg) \<Longrightarrow> role n = Candidate \<Longrightarrow> \<exists>S. counted cfg (install i n c) i S"
  shows "cinv cfg (install i n c)"
proof -
  note I = cinvD[OF inv]
  have le: "node_term (nodes c i) \<le> node_term n" using hs by (rule hs_le_term)
  have "nodes_ok cfg (install i n c)"
    using I(1) id good by (simp add: nodes_ok_def good_def)
  moreover have "calls_ok cfg (install i n c)"
    using I(2) good by (auto simp: calls_ok_def in_install_net good_def)
  moreover have "requests_ok cfg (install i n c)" using I(3) le reqs by (rule install_requests_ok)
  moreover have "replies_ok cfg (install i n c)" using I(4) le by (rule install_replies_ok)
  moreover have "cast_ok (install i n c)" using I(5) hs by (rule install_cast_ok)
  moreover have "cast_once (install i n c)" using I(5,6) hs by (rule install_cast_once)
  moreover have "roles_ok cfg (install i n c)"
    using I(7) self by (auto simp: roles_ok_def install_def)
  moreover have "counting_ok cfg (install i n c)"
    using I(8) cnt by (auto simp: counting_ok_def intro: counted_install_other)
  moreover have "elected_ok cfg (install i n c)" using I(9) lead by (rule install_elected_ok)
  ultimately show ?thesis by (simp add: cinv_def)
qed

lemma nodes_okD:
  assumes "cinv cfg c"
  shows "node_id (nodes c i) = i" "good cfg (nodes c i)" "outbox (nodes c i) = []" "vote_calls (nodes c i) = []"
  using cinvD(1)[OF assms] by (simp_all add: nodes_ok_def vote_calls_def)

lemma no_vote_calls: "vote_calls n = [] \<Longrightarrow> SendRequestVote j q t m \<notin> set (outbox n)"
  by (force simp: vote_calls_def filter_empty_conv)

lemma tokens_install_quiet:
  "vote_calls n = [] \<Longrightarrow> tokens (install i n c) k t j = tokens c k t j"
  by (auto simp: tokens_def in_install_net dest: no_vote_calls)

text \<open>A step that starts and wins no election keeps the invariant, whether it casts a vote or not.\<close>

lemma install_calm_cinv:
  assumes inv: "cinv cfg c" and g: "good cfg n" and hs: "hs_le (nlog (nodes c i)) (nlog n)"
    and o: "opts n = opts (nodes c i)" "votes n = votes (nodes c i)" "vote_calls n = []"
    and r: "role n = Follower \<or> role n = role (nodes c i) \<and> node_term n = node_term (nodes c i)"
  shows "cinv cfg (install i n c)"
proof (rule install_cinv[OF inv _ g hs])
  note I = cinvD[OF inv]
  have same: "role (nodes c i) = role n \<and> node_term (nodes c i) = node_term n" if "role n \<noteq> Follower"
    using r that by auto
  show "node_id n = i"
    using o nodes_okD(1)[OF inv, of i] by simp
  show "m = int (majority cfg) \<and> i \<in> set (voters cfg) \<and> j \<in> set (voters cfg) \<and> j \<noteq> i \<and> t \<le> node_term n \<and>
      candidateId r = i \<and> rv_term r = t" if "SendRequestVote j r t m \<in> set (outbox n)" for j r t m
    using that no_vote_calls[OF o(3)] by blast
  show "(node_term n, i) \<in> elected c \<or> (\<exists>S. quorum cfg S \<and> (\<forall>j\<in>S. (j, node_term n, i) \<in> cast (install i n c)))"
    if "role n = Leader"
    using I(7) same that unfolding roles_ok_def by fastforce
  show "(i, node_term n, i) \<in> cast (install i n c)" if "i \<in> set (voters cfg)" "role n \<noteq> Follower"
  proof -
    have "(i, node_term (nodes c i), i) \<in> cast c"
      using I(7) same[OF that(2)] that unfolding roles_ok_def by fastforce
    then show ?thesis using same[OF that(2)] by (simp add: cast_install_mono)
  qed
  show "\<exists>S. counted cfg (install i n c) i S" if i: "i \<in> set (voters cfg)" and r: "role n = Candidate"
  proof -
    obtain S where "counted cfg c i S"
      using I(8) i r same by (fastforce simp: counting_ok_def)
    then have "counted cfg (install i n c) i S"
      by (rule counted_mono)
        (use same r o in \<open>auto simp: tokens_install_quiet intro: cast_install_mono\<close>)
    then show ?thesis ..
  qed
qed

lemma install_quiet_cinv:
  assumes "cinv cfg c" "quiet (nodes c i) n" "good cfg n"
  shows "cinv cfg (install i n c)"
  using assms(2) nodes_okD(4)[OF assms(1), of i]
  by (intro install_calm_cinv[OF assms(1,3) quiet_hs_le]) (auto simp: quiet_def)

subsection \<open>Elections\<close>

text \<open>A candidate with a majority of votes becomes the leader.\<close>

lemma install_won_cinv:
  assumes inv: "cinv cfg c" and m: "role m = Candidate" "opts m = opts (nodes c i)" "vote_calls m = []"
    and hs: "hs_le (nlog (nodes c i)) (nlog m)" and v: "votedFor (nlog m) = i" "i \<noteq> 0"
    and S: "quorum cfg S" "\<And>j. j \<in> S \<Longrightarrow> j \<noteq> i \<Longrightarrow> (j, node_term m, i) \<in> cast c"
    and q: "quiet (snd (becomeLeader m)) n" and g: "good cfg n"
  shows "cinv cfg (install i n c)"
proof -
  let ?l = "snd (becomeLeader_enter m)"
  note E = becomeLeader_enter_fields[OF m(1)]
  have ql: "quiet ?l n" using becomeLeader_step(1)[OF m(1)] q by (rule quiet_trans)
  have vc: "vote_calls n = []" using ql E m(3) by (simp add: quiet_def vote_calls_def)
  have lead: "role n = Leader \<and> node_term n = node_term m \<and> votedFor (nlog n) = i" if "role n \<noteq> Follower"
    using ql that E v by (auto simp: quiet_def)
  have self: "(i, node_term n, i) \<in> cast (install i n c)" if "role n \<noteq> Follower"
    using lead[OF that] v cast_install[of n i c] by simp
  have hs': "hs_le (nlog (nodes c i)) (nlog n)"
    using hs quiet_hs_le[OF ql] E(3) by (auto intro: hs_le_trans)
  show ?thesis
  proof (rule install_cinv[OF inv _ g hs'])
    show "node_id n = i"
      using ql E m nodes_okD(1)[OF inv, of i] by (simp add: quiet_def)
    show "(node_term n, i) \<in> elected c \<or> (\<exists>S. quorum cfg S \<and> (\<forall>j\<in>S. (j, node_term n, i) \<in> cast (install i n c)))"
      if "role n = Leader"
    proof -
      have "(j, node_term n, i) \<in> cast (install i n c)" if "j \<in> S" for j
        using S(2)[OF that] lead self cast_install_mono \<open>role n = Leader\<close> by (cases "j = i") auto
      then show ?thesis using S(1) by blast
    qed
  qed (use no_vote_calls[OF vc] self lead in auto)
qed

lemma hs_le_next_term: "currentTerm L \<noteq> - 1 \<Longrightarrow> currentTerm L' = currentTerm L + 1 \<Longrightarrow> hs_le L L'"
  by (simp add: hs_le_def word_less_plus_1)

lemma no_old_tokens:
  assumes "cinv cfg c" "node_term (nodes c i) < t"
  shows "tokens c i t j = {}"
  using cinvD(3,4)[OF assms(1)] assms(2)
  by (fastforce simp: tokens_def requests_ok_def replies_ok_def vote_msg_ok_def)

text \<open>The tokens of a fresh election are the requests just made, one for each peer.\<close>

lemma tokens_fresh:
  assumes "tokens c i t j = {}" "vote_calls n = map (\<lambda>p. SendRequestVote p q t m) ps"
    and "x \<in> tokens (install i n c) i t j"
  shows "x = Req i (epoch c i) (SendRequestVote j q t m)"
proof -
  have "x \<notin> net c"
    using assms(1,3) by (auto simp: tokens_def)
  then obtain q' m' where x: "SendRequestVote j q' t m' \<in> set (outbox n)"
      "x = Req i (epoch c i) (SendRequestVote j q' t m')"
    using assms(3) by (auto simp: tokens_def in_install_net)
  then have "SendRequestVote j q' t m' \<in> set (vote_calls n)"
    by (simp add: vote_calls_def)
  then show ?thesis using x(2) assms(2) by auto
qed

lemma install_ask_cinv:
  assumes inv: "cinv cfg c" and t: "node_term (nodes c i) \<noteq> - 1" "t = node_term (nodes c i) + 1"
    and i: "i \<in> set (voters cfg)" "i \<noteq> 0"
    and b: "node_term b = t" "votedFor (nlog b) = i" "role b = Candidate" "opts b = opts (nodes c i)"
      "votes b t = Some 1"
      "vote_calls b = map (\<lambda>p. SendRequestVote p q t (int (majority cfg))) (filter (\<lambda>p. p \<noteq> i) (voters cfg))"
    and r: "candidateId q = i" "rv_term q = t"
    and q: "quiet b n" and g: "good cfg n"
  shows "cinv cfg (install i n c)"
proof -
  let ?c = "install i n c"
  have old: "node_term (nodes c i) < t"
    using t by (simp add: word_less_plus_1)
  have hb: "hs_le (nlog (nodes c i)) (nlog b)" using t b(1) by (auto intro: hs_le_next_term)
  have hs: "hs_le (nlog (nodes c i)) (nlog n)" using hb quiet_hs_le[OF q] by (rule hs_le_trans)
  have vc: "vote_calls n = vote_calls b" using q by (simp add: quiet_def)
  have cand: "role n = Candidate \<and> node_term n = t \<and> votedFor (nlog n) = i \<and> votes n t = Some 1" if "role n \<noteq> Follower"
    using q that b by (auto simp: quiet_def)
  have self: "(i, node_term n, i) \<in> cast ?c" if "role n \<noteq> Follower"
    using cand[OF that] i cast_install[of n i c] by simp
  have le: "t \<le> node_term n" using hs_le_term[OF quiet_hs_le[OF q]] b(1) by simp
  show ?thesis
  proof (rule install_cinv[OF inv _ g hs])
    show "node_id n = i" using q b(4) nodes_okD(1)[OF inv, of i] by (simp add: quiet_def)
    show "m = int (majority cfg) \<and> i \<in> set (voters cfg) \<and> j \<in> set (voters cfg) \<and> j \<noteq> i \<and> u \<le> node_term n \<and>
        candidateId r = i \<and> rv_term r = u" if "SendRequestVote j r u m \<in> set (outbox n)" for j r u m
    proof -
      have "SendRequestVote j r u m \<in> set (vote_calls n)" using that by (simp add: vote_calls_def)
      then show ?thesis using vc b(6) r i le by auto
    qed
    show "\<exists>S. counted cfg ?c i S" if "role n = Candidate"
    proof -
      have "x = y" if "x \<in> tokens ?c i t j" "y \<in> tokens ?c i t j" for x y j
        using tokens_fresh[OF no_old_tokens[OF inv old] trans[OF vc b(6)] that(1)]
          tokens_fresh[OF no_old_tokens[OF inv old] trans[OF vc b(6)] that(2)] by simp
      then have "counted cfg ?c i {i}"
        using i cand self \<open>role n = Candidate\<close> by (simp add: counted_def)
      then show ?thesis ..
    qed
  qed (use self cand in auto)
qed

lemma quorum_single: "majority cfg = 1 \<Longrightarrow> i \<in> set (voters cfg) \<Longrightarrow> quorum cfg {i}"
  by (simp add: quorum_def)

text \<open>An election timeout, followed by a quiet step (the automatic snapshot).\<close>

lemma install_candidate_cinv:
  assumes inv: "cinv cfg c" and wf: "config_wf cfg" and t: "node_term (nodes c i) \<noteq> - 1"
    and o: "quiet (nodes c i) o'" "outbox o' = []" "config o' = cfg" "role o' = role (nodes c i)" "node_term o' = node_term (nodes c i)"
    and q: "quiet (snd (becomeCandidate o')) n" and g: "good cfg n"
  shows "cinv cfg (install i n c)"
proof -
  have id: "node_id o' = i" "opts o' = opts (nodes c i)"
    using o(1) nodes_okD(1)[OF inv, of i] by (simp_all add: quiet_def)
  let ?b = "becomeCandidate_enter o'"
  have hb: "hs_le (nlog (nodes c i)) (nlog ?b)" using t o(5) by (auto intro: hs_le_next_term)
  show ?thesis
  proof (cases o' rule: becomeCandidate_cases)
    case not_voter
    then have qb: "quiet ?b n" and ni: "i \<notin> set (voters cfg)" using q o(3) id by auto
    have vc: "vote_calls n = []" using qb o(2) by (simp add: quiet_def vote_calls_def)
    show ?thesis
    proof (rule install_cinv[OF inv _ g hs_le_trans[OF hb quiet_hs_le[OF qb]]])
      show "node_id n = i" using qb id by (simp add: quiet_def)
    qed (use qb ni no_vote_calls[OF vc] in \<open>auto simp: quiet_def\<close>)
  next
    case alone
    let ?m = "?b\<lparr>votes := (votes o')(node_term o' + 1 \<mapsto> 1)\<rparr>"
    have i: "i \<in> set (voters cfg)" "i \<noteq> 0" using alone(2) wf o(3) id by (auto simp: config_wf_def)
    have hm: "hs_le (nlog (nodes c i)) (nlog ?m)" using hb by simp
    have "quorum cfg {i}" using alone(1) i(1) o(3) by (simp add: quorum_single)
    then show ?thesis
      by (intro install_won_cinv[OF inv, of ?m i "{i}" n] hm g)
        (use q alone i id o in \<open>simp_all add: vote_calls_def\<close>)
  next
    case ask
    have i: "i \<in> set (voters cfg)" "i \<noteq> 0" using ask(2) wf o(3) id by (auto simp: config_wf_def)
    show ?thesis
      by (rule install_ask_cinv[OF inv t refl i, of "snd (becomeCandidate o')" "vote_request ?b" n])
        (use q g ask(3) i id o in \<open>simp_all add: vote_calls_def vote_request_def filter_map comp_def\<close>)
  qed
qed

subsection \<open>Votes\<close>

text \<open>
  The reply of \<open>j\<close> to a candidate that is still waiting for it: \<open>j\<close> has voted, its vote is not
  counted yet, and once the reply is consumed nothing more of it is under way.
\<close>

lemma vote_counts:
  assumes inv: "cinv cfg c" and net: "VoteReply i (epoch c i) j (node_term (nodes c i)) m r \<in> net c"
    and v: "role (nodes c i) = Candidate" "voteGranted r" "rvr_term r \<le> node_term (nodes c i)"
  obtains S where "S \<subseteq> set (voters cfg)" "i \<in> S" "j \<in> set (voters cfg)" "j \<notin> S"
    "votes (nodes c i) (node_term (nodes c i)) = Some (int (card S))"
    "\<forall>k\<in>insert j S. (k, node_term (nodes c i), i) \<in> cast c"
    "\<forall>k\<in>insert j S - {i}. tokens (lose (VoteReply i (epoch c i) j (node_term (nodes c i)) m r) c) i (node_term (nodes c i)) k = {}"
    "\<forall>k. \<forall>x\<in>tokens c i (node_term (nodes c i)) k. \<forall>y\<in>tokens c i (node_term (nodes c i)) k. x = y"
    "votedFor (nlog (nodes c i)) = i" "i \<noteq> 0" "m = int (majority cfg)"
proof -
  let ?t = "node_term (nodes c i)" and ?x = "VoteReply i (epoch c i) j (node_term (nodes c i)) m r"
  note I = cinvD[OF inv]
  have rp: "vote_msg_ok cfg c i (epoch c i) j ?t m" "(j, ?t, i) \<in> cast c"
    using I(4) net v unfolding replies_ok_def by blast+
  then have vs: "i \<in> set (voters cfg)" "j \<in> set (voters cfg)" "j \<noteq> i" "m = int (majority cfg)"
    by (simp_all add: vote_msg_ok_def)
  obtain S where S: "counted cfg c i S" using I(8) vs(1) v(1) by (auto simp: counting_ok_def)
  have "(i, ?t, i) \<in> cast c" using I(7) vs(1) v(1) by (simp add: roles_ok_def)
  then have self: "votedFor (nlog (nodes c i)) = i" "i \<noteq> 0" using I(5) by (force simp: cast_ok_def)+
  have x: "?x \<in> tokens c i ?t j" using net by (simp add: tokens_def)
  then have jS: "j \<notin> S" using S vs(3) by (auto simp: counted_def)
  have uniq: "\<forall>k. \<forall>x\<in>tokens c i ?t k. \<forall>y\<in>tokens c i ?t k. x = y" using S by (simp add: counted_def)
  have sub: "tokens (lose ?x c) i ?t k = tokens c i ?t k - {?x}" for k by (auto simp: tokens_def)
  have "tokens (lose ?x c) i ?t k = {}" if "k \<in> insert j S - {i}" for k
    using that S x uniq sub[of k] by (cases "k = j") (auto simp: counted_def)
  then show thesis
    using that[of S] S jS rp(2) vs self uniq by (simp add: counted_def)
qed

lemma vote_reply_cinv:
  assumes inv: "cinv cfg c" and net: "VoteReply i (epoch c i) j t m r \<in> net c"
  shows "cinv cfg (install i (snd (onVoteResp t m True r (nodes c i))) (lose (VoteReply i (epoch c i) j t m r) c))"
proof -
  let ?x = "VoteReply i (epoch c i) j t m r" and ?n = "snd (onVoteResp t m True r (nodes c i))"
  let ?c = "lose ?x c"
  have inv': "cinv cfg ?c" using inv by (rule lose_cinv)
  have g: "good cfg ?n" using nodes_okD(2)[OF inv] by (rule good_onVoteResp)
  show ?thesis
  proof (rule onVoteResp_cases[where n = "nodes c i" and t = t and m = m and ok = True and resp = r], goal_cases quiet counted won)
    case quiet
    then show ?thesis using inv' g by (intro install_quiet_cinv) simp_all
  next
    case (counted v)
    note t = counted(2)[symmetric]
    obtain S where S: "S \<subseteq> set (voters cfg)" "i \<in> S" "j \<in> set (voters cfg)" "j \<notin> S"
      "votes (nodes c i) t = Some (int (card S))" "\<forall>k\<in>insert j S. (k, t, i) \<in> cast c"
      "\<forall>k\<in>insert j S - {i}. tokens ?c i t k = {}" "\<forall>k. \<forall>x\<in>tokens c i t k. \<forall>y\<in>tokens c i t k. x = y"
      using vote_counts[OF inv net[unfolded t]] counted unfolding t by metis
    have n: "?n = (nodes c i)\<lparr>votes := (votes (nodes c i))(t \<mapsto> int (card S) + 1)\<rparr>"
      using counted S(5) by simp
    have fin: "finite S" using S(1) by (rule finite_subset) simp
    have tok: "tokens (install i ?n ?c) i t k = tokens ?c i t k" for k
      using nodes_okD(4)[OF inv, of i] unfolding n by (simp add: tokens_install_quiet vote_calls_def)
    have "tokens ?c i t k \<subseteq> tokens c i t k" for k by (auto simp: tokens_def)
    then have uniq: "\<forall>k. \<forall>x\<in>tokens ?c i t k. \<forall>y\<in>tokens ?c i t k. x = y" using S(8) by blast
    have nt: "node_term (nodes (install i ?n ?c) i) = t" using counted(2) by (simp add: n)
    have vt: "votes (nodes (install i ?n ?c) i) t = Some (int (card (insert j S)))" using S(4) fin by (simp add: n)
    have cst: "\<forall>k\<in>insert j S. (k, t, i) \<in> cast (install i ?n ?c)" using S(6) by (simp add: cast_install_mono)
    have "counted cfg (install i ?n ?c) i (insert j S)"
      unfolding counted_def nt tok using S(1,2,3,7) vt cst uniq by blast
    then show ?thesis
      using inv' g S(6) nodes_okD(1,3)[OF inv, of i] counted(1,2) S(2)
      by (intro install_cinv) (auto simp: n intro: cast_install_mono)
  next
    case (won v)
    note t = won(2)[symmetric]
    obtain S where S: "S \<subseteq> set (voters cfg)" "j \<in> set (voters cfg)" "j \<notin> S"
      "votes (nodes c i) t = Some (int (card S))" "\<forall>k\<in>insert j S. (k, t, i) \<in> cast c"
      "votedFor (nlog (nodes c i)) = i" "i \<noteq> 0" "m = int (majority cfg)"
      using vote_counts[OF inv net[unfolded t]] won unfolding t by metis
    have "finite S" using S(1) by (rule finite_subset) simp
    then have "quorum cfg (insert j S)" using S won(5,6) by (simp add: quorum_def)
    then show ?thesis
      by (intro install_won_cinv[OF inv', of "(nodes c i)\<lparr>votes := (votes (nodes c i))(t \<mapsto> v)\<rparr>" i "insert j S" ?n] g)
        (use S won nodes_okD[OF inv, of i] in \<open>auto simp: vote_calls_def\<close>)
  qed
qed

text \<open>A reply takes the place of its request: the tokens of an election do not multiply.\<close>

lemma put_reply_cinv:
  assumes inv: "cinv cfg c" and ok: "vote_msg_ok cfg c i ep j t m"
    and gr: "voteGranted r \<Longrightarrow> rvr_term r \<le> t \<Longrightarrow> (j, t, i) \<in> cast c"
    and free: "role (nodes c i) = Candidate \<Longrightarrow> node_term (nodes c i) = t \<Longrightarrow> ep = epoch c i \<Longrightarrow>
      \<exists>S. counted cfg c i S \<and> j \<notin> S \<and> tokens c i t j = {}"
  shows "cinv cfg (put_msg (VoteReply i ep j t m r) c)"
proof -
  let ?x = "VoteReply i ep j t m r"
  let ?c = "put_msg ?x c"
  note I = cinvD[OF inv]
  have i: "i \<in> set (voters cfg)" using ok by (simp add: vote_msg_ok_def)
  have tok: "tokens ?c k u l = (if k = i \<and> u = t \<and> l = j \<and> ep = epoch c i then insert ?x (tokens c k u l) else tokens c k u l)" for k u l
    by (auto simp: tokens_def)
  have other: "counted cfg ?c k S" if "counted cfg c k S" "\<not> (k = i \<and> node_term (nodes c i) = t \<and> ep = epoch c i)" for k S
    using that by (intro counted_mono[OF that(1)]) (auto simp: tok)
  have this_one: "\<exists>S. counted cfg ?c i S" if cand: "role (nodes c i) = Candidate"
  proof (cases "node_term (nodes c i) = t \<and> ep = epoch c i")
    case True
    then obtain S where S: "counted cfg c i S" "j \<notin> S" "tokens c i t j = {}" using free cand by blast
    have nt: "node_term (nodes c i) = t" using True by simp
    have "tokens ?c i t l = (if l = j then {?x} else tokens c i t l)" for l
      using S(3) True unfolding tok by auto
    then have "counted cfg ?c i S"
      using S(1,2) unfolding counted_def put_msg_simps nt by (simp split: if_splits) blast
    then show ?thesis ..
  next
    case False
    then show ?thesis using I(8) i cand other unfolding counting_ok_def by metis
  qed
  have "counting_ok cfg ?c"
    using I(8) other this_one unfolding counting_ok_def put_msg_simps by metis
  moreover have "calls_ok cfg ?c" "requests_ok cfg ?c"
    using I(2,3) by (simp_all add: calls_ok_def requests_ok_def)
  moreover have "replies_ok cfg ?c"
    using I(4) ok gr unfolding replies_ok_def put_msg_simps vote_msg_ok_net by blast
  moreover have "nodes_ok cfg ?c" "cast_ok ?c" "cast_once ?c" "roles_ok cfg ?c" "elected_ok cfg ?c"
    using I(1,5,6,7,9) by (simp_all add: nodes_ok_def cast_ok_def cast_once_def roles_ok_def elected_ok_def)
  ultimately show ?thesis by (simp add: cinv_def)
qed

lemma recv_vote_cinv:
  assumes inv: "cinv cfg c" and wf: "config_wf cfg" and net: "Req i ep (SendRequestVote j q t m) \<in> net c"
    and h: "handleRequestVote q (nodes c j) = (r, n)"
  shows "cinv cfg (put_msg (VoteReply i ep j t m r) (install j n (lose (Req i ep (SendRequestVote j q t m)) c)))"
proof -
  let ?x = "Req i ep (SendRequestVote j q t m)"
  let ?c = "install j n (lose ?x c)"
  note I = cinvD[OF inv] and H = handleRequestVote_spec[OF h]
  have rq: "vote_msg_ok cfg c i ep j t m" "candidateId q = i" "rv_term q = t"
    using I(3) net unfolding requests_ok_def by blast+
  then have ne: "j \<noteq> i" "i \<noteq> 0" using wf by (auto simp: vote_msg_ok_def config_wf_def)
  have vc: "vote_calls n = []" using H(4) nodes_okD(3)[OF inv, of j] by (simp add: vote_calls_def)
  have inv2: "cinv cfg ?c"
    using H(3-6) nodes_okD(2)[OF inv, of j] vc
    by (intro install_calm_cinv lose_cinv inv) auto
  have le: "node_term (nodes c j) \<le> node_term n" using H(3) by (rule hs_le_term)
  show ?thesis
  proof (rule put_reply_cinv[OF inv2])
    show "vote_msg_ok cfg ?c i ep j t m"
      using rq(1) ne(1) by (simp add: vote_msg_ok_def)
    show "(j, t, i) \<in> cast ?c" if "voteGranted r"
      using H(2)[OF that] rq ne cast_install[of n j "lose ?x c"] by simp
    assume "role (nodes ?c i) = Candidate" "node_term (nodes ?c i) = t" "ep = epoch ?c i"
    then have e: "role (nodes c i) = Candidate" "node_term (nodes c i) = t" "ep = epoch c i" using ne by simp_all
    then obtain S where S: "counted cfg c i S"
      using I(8) rq(1) by (auto simp: counting_ok_def vote_msg_ok_def)
    have x: "?x \<in> tokens c i t j" using net e by (simp add: tokens_def)
    then have "j \<notin> S" "tokens c i t j = {?x}" using S ne e(2) by (auto simp: counted_def)
    moreover have "tokens ?c i t j = tokens c i t j - {?x}"
      unfolding tokens_install_quiet[OF vc] by (auto simp: tokens_def)
    moreover have "counted cfg ?c i S"
      using counted_install_other[OF ne(1)[symmetric] counted_lose[OF S]] .
    ultimately show "\<exists>S. counted cfg ?c i S \<and> j \<notin> S \<and> tokens ?c i t j = {}" by auto
  qed
qed

subsection \<open>Restarts, the start, and every step\<close>

lemma epoch_cinv:
  assumes inv: "cinv cfg c"
  shows "cinv cfg (c\<lparr>epoch := (epoch c)(i := Suc (epoch c i))\<rparr>)" (is "cinv cfg ?c")
proof -
  note I = cinvD[OF inv]
  have keep: "vote_msg_ok cfg c k ep j t m \<Longrightarrow> vote_msg_ok cfg ?c k ep j t m" for k ep j t m
    by (auto elim: vote_msg_ok_mono)
  have rq: "requests_ok cfg ?c" using I(3) keep by (simp add: requests_ok_def)
  have rp: "replies_ok cfg ?c" using I(4) keep by (simp add: replies_ok_def)
  have ep: "ep \<le> epoch c k" if "Req k ep (SendRequestVote j q t m) \<in> net c \<or> VoteReply k ep j t m r \<in> net c" for k ep j q t m r
    using I(3,4) that unfolding requests_ok_def replies_ok_def vote_msg_ok_def by blast
  have tok: "tokens ?c k t j \<subseteq> tokens c k t j" for k t j
    by (auto simp: tokens_def dest: ep[OF disjI1] ep[OF disjI2] split: if_splits)
  have "counted cfg ?c k S" if "counted cfg c k S" for k S
    using that tok by (intro counted_mono[OF that]) auto
  then have "counting_ok cfg ?c" using I(8) by (fastforce simp: counting_ok_def)
  moreover have "nodes_ok cfg ?c" "calls_ok cfg ?c" "cast_ok ?c" "cast_once ?c" "roles_ok cfg ?c" "elected_ok cfg ?c"
    using I(1,2,5,6,7,9) by (simp_all add: nodes_ok_def calls_ok_def cast_ok_def cast_once_def roles_ok_def elected_ok_def)
  ultimately show ?thesis using rq rp by (simp add: cinv_def)
qed

lemma RaftNode_new_fields:
  assumes "RaftNode_new o' cfg d s0 g now = Inr n"
  shows "opts n = o'" "nlog n = loadFromDisk d" "role n = Follower" "config n = cfg" "outbox n = []"
  using assms by (auto simp: RaftNode_new_def Let_def split: sum.splits)

lemma start_fields [simp]:
  "opts (start n) = opts n" "nlog (start n) = nlog n" "role (start n) = role n" "config (start n) = config n"
  "outbox (start n) = outbox n"
  by (simp_all add: start_def)

lemma restart_cinv:
  assumes inv: "cinv cfg c"
    and new: "RaftNode_new (opts (nodes c i)) cfg (plDisk (nlog (nodes c i))) s0 g now = Inr n"
  shows "cinv cfg (install i (start n) (c\<lparr>epoch := (epoch c)(i := Suc (epoch c i))\<rparr>))"
proof (rule install_cinv[OF epoch_cinv[OF inv]])
  note F = RaftNode_new_fields[OF new]
  have "nlog n = nlog (nodes c i)"
    using F(2) nodes_okD(2)[OF inv, of i] by (simp add: good_def static_log_def synced_def)
  then show "hs_le (nlog (nodes (c\<lparr>epoch := (epoch c)(i := Suc (epoch c i))\<rparr>) i)) (nlog (start n))"
    and "good cfg (start n)"
    using F nodes_okD(2)[OF inv, of i] by (simp_all add: good_def)
  show "node_id (start n) = i" using F(1) nodes_okD(1)[OF inv, of i] by simp
qed (use RaftNode_new_fields[OF new] in simp_all)

lemma static_log_empty: "static_log (loadFromDisk Map.empty)"
  by (simp add: static_log_def synced_def loadFromDisk_def Let_def loadHardState_def loadSnapshotMeta_def)

lemma runLoop_round_state:
  "snd (runLoop_round hb n) \<in> {maybeSnapshot n, maybeSnapshot (broadcastAppendEntries n),
     snd (becomeCandidate n), maybeSnapshot (snd (becomeCandidate n))}"
  by (auto simp: runLoop_round_def Let_def fst_snd_abind split: sum.splits)

lemma tick_cinv:
  assumes inv: "cinv cfg c" and wf: "config_wf cfg" and t: "node_term (nodes c i) \<noteq> - 1"
  shows "cinv cfg (install i (snd (runLoop_round hb ((nodes c i)\<lparr>clock := now, rng := g\<rparr>))) c)"
proof -
  let ?o = "(nodes c i)\<lparr>clock := now, rng := g\<rparr>"
  let ?n = "snd (runLoop_round hb ?o)" and ?b = "snd (becomeCandidate ?o)"
  have q: "quiet (nodes c i) ?o" by (simp add: quiet_def vote_calls_def)
  have g: "good cfg ?o" using nodes_okD(2)[OF inv, of i] by (simp add: good_def)
  consider "?n = maybeSnapshot ?o" | "?n = maybeSnapshot (broadcastAppendEntries ?o)" | "?n \<in> {?b, maybeSnapshot ?b}"
    using runLoop_round_state[of hb ?o] by blast
  then show ?thesis
  proof cases
    case 1
    then show ?thesis
      using inv quiet_trans[OF q maybeSnapshot_step(1)] maybeSnapshot_step(2)[OF g] by (simp add: install_quiet_cinv)
  next
    case 2
    then show ?thesis
      using inv quiet_trans[OF q quiet_trans[OF broadcastAppendEntries_step(1) maybeSnapshot_step(1)]]
        maybeSnapshot_step(2)[OF broadcastAppendEntries_step(2)[OF g]] by (simp add: install_quiet_cinv)
  next
    case 3
    then have "quiet ?b ?n" "good cfg ?n"
      using maybeSnapshot_step good_becomeCandidate[OF g] by auto
    then show ?thesis
      using nodes_okD[OF inv, of i] by (intro install_candidate_cinv[OF inv wf t q]) (simp_all add: good_def)
  qed
qed

lemma init_cinv:
  assumes "\<And>i. opt_id (os i) = i" "\<And>i. RaftNode_new (os i) cfg Map.empty KvStore_empty (gs i) (ts i) = Inr (ns i)"
  shows "cinv cfg \<lparr>nodes = (\<lambda>i. start (ns i)), epoch = (\<lambda>_. 0), net = {}, cast = {}, elected = {}\<rparr>"
  using assms(1) RaftNode_new_fields[OF assms(2)] static_log_empty
  by (simp add: cinv_def nodes_ok_def calls_ok_def requests_ok_def replies_ok_def cast_ok_def cast_once_def
      roles_ok_def counting_ok_def elected_ok_def good_def)

lemma calls_static: "cinv cfg c \<Longrightarrow> Req i ep call \<in> net c \<Longrightarrow> static_call call"
  using cinvD(2) by (auto simp: calls_ok_def)

lemma cstep_cinv:
  assumes "cstep cfg c c'" "cinv cfg c" "config_wf cfg"
  shows "cinv cfg c'"
  using assms
proof (induction rule: cstep.induct)
  case (recv_append i ep j q t c r n)
  then have "cinv cfg (install j n c)"
    using handleAppendEntries_step(1)[of "nodes c j" q] handleAppendEntries_step(2)[of cfg "nodes c j" q] calls_static[OF recv_append(3,1)] nodes_okD(2)[OF recv_append(3), of j]
    by (intro install_quiet_cinv) simp_all
  then show ?case by (rule put_other_cinv) simp_all
next
  case (recv_append_throws i ep j q t c e n)
  then show ?case
    using handleAppendEntries_step(1)[of "nodes c j" q] handleAppendEntries_step(2)[of cfg "nodes c j" q] calls_static[OF recv_append_throws(3,1)]
      nodes_okD(2)[OF recv_append_throws(3), of j]
    by (intro install_quiet_cinv) simp_all
next
  case (recv_snapshot i ep j q x c r n)
  then have "cinv cfg (install j n c)"
    using handleInstallSnapshot_step(1)[of "nodes c j" q] handleInstallSnapshot_step(2)[of cfg "nodes c j" q] nodes_okD(2)[OF recv_snapshot(3), of j]
    by (intro install_quiet_cinv) simp_all
  then show ?case by (rule put_other_cinv) simp_all
next
  case (recv_snapshot_throws i ep j q x c e n)
  then show ?case
    using handleInstallSnapshot_step(1)[of "nodes c j" q] handleInstallSnapshot_step(2)[of cfg "nodes c j" q] nodes_okD(2)[OF recv_snapshot_throws(3), of j]
    by (intro install_quiet_cinv) simp_all
next
  case (client_read c i)
  then show ?case
    using broadcastAppendEntries_step nodes_okD(2)
    by (intro install_quiet_cinv) (auto simp: readBarrier_begin_def)
qed (auto intro!: install_quiet_cinv propose_step forceSnapshot_step onAppendResp_step onSnapshotResp_step
      tick_cinv recv_vote_cinv vote_reply_cinv lose_cinv restart_cinv intro: nodes_okD)

lemma reachable_cinv: "reachable cfg c \<Longrightarrow> config_wf cfg \<Longrightarrow> cinv cfg c"
  by (induction rule: reachable.induct) (auto intro: init_cinv cstep_cinv)

section \<open>Quorums\<close>

text \<open>All an argument about elections needs of majorities is that two of them meet.\<close>

locale quorum_system =
  fixes is_quorum :: "'a set \<Rightarrow> bool"
  assumes meet: "is_quorum S \<Longrightarrow> is_quorum T \<Longrightarrow> S \<inter> T \<noteq> {}"
begin

lemma one_choice:
  assumes "is_quorum S" "is_quorum T" "\<forall>j\<in>S. vote j a" "\<forall>j\<in>T. vote j b"
    and once: "\<And>j x y. vote j x \<Longrightarrow> vote j y \<Longrightarrow> x = y"
  shows "a = b"
  using meet[OF assms(1,2)] assms(3,4) once by blast

end

lemma quorum_meet:
  assumes "quorum cfg S" "quorum cfg T"
  shows "S \<inter> T \<noteq> {}"
proof
  assume "S \<inter> T = {}"
  moreover have "finite S" "finite T" "S \<union> T \<subseteq> set (voters cfg)"
    using assms by (auto simp: quorum_def intro: finite_subset)
  ultimately have "card S + card T \<le> card (set (voters cfg))"
    using card_mono[of "set (voters cfg)" "S \<union> T"] by (simp add: card_Un_disjoint)
  also have "\<dots> \<le> length (voters cfg)" by (rule card_length)
  finally show False using assms unfolding quorum_def majority_def by linarith
qed

interpretation maj: quorum_system "quorum cfg" for cfg
  by unfold_locales (rule quorum_meet)

section \<open>Election safety\<close>

lemma elected_once:
  assumes "cinv cfg c" "(t, i) \<in> elected c" "(t, j) \<in> elected c"
  shows "i = j"
proof -
  note I = cinvD[OF assms(1)]
  obtain S T where "quorum cfg S" "\<forall>k\<in>S. (k, t, i) \<in> cast c" "quorum cfg T" "\<forall>k\<in>T. (k, t, j) \<in> cast c"
    using I(9) assms(2,3) unfolding elected_ok_def by metis
  then show ?thesis
    using maj.one_choice[of cfg S T "\<lambda>k x. (k, t, x) \<in> cast c" i j] I(6) unfolding cast_once_def by blast
qed

lemma leader_elected: "cinv cfg c \<Longrightarrow> role (nodes c i) = Leader \<Longrightarrow> (node_term (nodes c i), i) \<in> elected c"
  using cinvD(7) by (simp add: roles_ok_def)


text \<open>A run of three nodes that elects node 1: a timeout, a vote of node 2 and its reply.\<close>

definition demo_options :: "NodeId \<Rightarrow> RaftOptions" where
  "demo_options i = \<lparr>opt_id = i, electionTimeoutMinMs = 150, electionTimeoutMaxMs = 300,
     heartbeatIntervalMs = 50, snapshotThresholdEntries = 1000\<rparr>"

definition demo_config :: ClusterConfig where
  "demo_config = \<lparr>voters = [1, 2, 3], addresses = []\<rparr>"

definition demo_node :: "NodeId \<Rightarrow> RaftNode" where
  "demo_node i = \<lparr>opts = demo_options i, sm = KvStore_empty, nlog = loadFromDisk Map.empty, role = Follower,
     config = demo_config, leaderId = 0, commitIndex = 0, lastApplied = 0, electionDeadline = 150,
     nextIndex = [], matchIndex = [], pendingResults = Map.empty, pendingReadBarriers = [],
     running = True, rng = (\<lambda>_. 0), clock = 0, votes = Map.empty, outbox = []\<rparr>"

definition demo_cluster :: Cluster where
  "demo_cluster = \<lparr>nodes = demo_node, epoch = (\<lambda>_. 0), net = {}, cast = {}, elected = {}\<rparr>"

lemma empty_log: "loadFromDisk Map.empty = \<lparr>plDisk = Map.empty, currentTerm = 0, votedFor = 0,
    snapshotIndex = 0, snapshotTerm = 0, entries = []\<rparr>"
  by (simp add: loadFromDisk_def Let_def loadHardState_def loadSnapshotMeta_def)

lemma demo_options_id [simp]: "opt_id (demo_options i) = i"
  by (simp add: demo_options_def)

lemma demo_reachable: "reachable demo_config demo_cluster"
proof -
  define ns where "ns i = (demo_node i)\<lparr>electionDeadline := 0, running := False\<rparr>" for i
  have "RaftNode_new (demo_options i) demo_config Map.empty KvStore_empty (\<lambda>_. 0) 0 = Inr (ns i)" for i
    by (simp add: RaftNode_new_def ns_def demo_node_def empty_log loadSnapshotBytes_def Let_def)
  then have "reachable demo_config \<lparr>nodes = (\<lambda>i. start (ns i)), epoch = (\<lambda>_. 0), net = {}, cast = {}, elected = {}\<rparr>"
    by (intro reachable.init[where os = demo_options and gs = "\<lambda>_ _. 0" and ts = "\<lambda>_. 0"]) simp_all
  moreover have "start (ns i) = demo_node i" for i
    by (simp add: ns_def start_def resetElectionDeadline_def demo_node_def demo_options_def)
  ultimately show ?thesis by (simp add: demo_cluster_def)
qed

definition demo_candidate :: RaftNode where
  "demo_candidate = (demo_node 1)\<lparr>nlog := setHardState 1 1 (loadFromDisk Map.empty), role := Candidate,
     electionDeadline := 350, votes := [1 \<mapsto> 1], clock := 200\<rparr>"

definition demo_request :: RequestVoteReq where
  "demo_request = \<lparr>rv_term = 1, candidateId = 1, lastLogIndex = 0, lastLogTerm = 0\<rparr>"

lemma demo_timeout:
  "snd (runLoop_round 0 ((demo_node 1)\<lparr>clock := 200, rng := \<lambda>_. 0\<rparr>)) =
     demo_candidate\<lparr>outbox := [SendRequestVote 2 demo_request 1 2, SendRequestVote 3 demo_request 1 2]\<rparr>"
  by (simp add: runLoop_round_def Let_def demo_node_def demo_options_def becomeCandidate_def becomeCandidate_enter_def
      resetElectionDeadline_def demo_config_def hasVoter_iff empty_log lastIndex_def lastTerm_def abind_def
      maybeSnapshot_def demo_candidate_def demo_request_def)

definition demo_voter :: RaftNode where
  "demo_voter = snd (handleRequestVote demo_request (demo_node 2))"

lemma demo_voter_fields:
  "handleRequestVote demo_request (demo_node 2) = (\<lparr>rvr_term = 1, voteGranted = True\<rparr>, demo_voter)"
  "entries (nlog demo_voter) = []" "snapshotIndex (nlog demo_voter) = 0" "node_term demo_voter = 1" "outbox demo_voter = []"
  by (simp_all add: demo_voter_def handleRequestVote_def handleRequestVote_vote_def Let_def demo_request_def demo_node_def
      empty_log lastIndex_def lastTerm_def)

definition demo_winner :: RaftNode where
  "demo_winner = snd (onVoteResp 1 2 True \<lparr>rvr_term = 1, voteGranted = True\<rparr> demo_candidate)"

lemma demo_winner_role: "role demo_winner = Leader"
  by (simp add: demo_winner_def onVoteResp_def voteResp_count_def demo_candidate_def Let_def becomeLeader_role)

lemma demo_steps:
  obtains c1 c2 c3 where "cstep demo_config demo_cluster c1" "cstep demo_config c1 c2" "cstep demo_config c2 c3"
    "nodes c1 = demo_node(1 := demo_candidate)" "nodes c2 = demo_node(1 := demo_candidate, 2 := demo_voter)"
    "nodes c3 = demo_node(1 := demo_winner\<lparr>outbox := []\<rparr>, 2 := demo_voter)"
    "\<forall>call\<in>set (outbox demo_winner). Req 1 0 call \<in> net c3" "epoch c3 = (\<lambda>_. 0)"
proof -
  let ?q = "SendRequestVote 2 demo_request 1 2" and ?r = "\<lparr>rvr_term = 1, voteGranted = True\<rparr>"
  define n1 where "n1 = demo_candidate\<lparr>outbox := [?q, SendRequestVote 3 demo_request 1 2]\<rparr>"
  define c1 where "c1 = install 1 n1 demo_cluster"
  define c2 where "c2 = put_msg (VoteReply 1 0 2 1 2 ?r) (install 2 demo_voter (lose (Req 1 0 ?q) c1))"
  define c3 where "c3 = install 1 demo_winner (lose (VoteReply 1 0 2 1 2 ?r) c2)"
  have c0: "nodes demo_cluster = demo_node" "epoch demo_cluster = (\<lambda>_. 0)" by (simp_all add: demo_cluster_def)
  have o: "demo_candidate\<lparr>outbox := []\<rparr> = demo_candidate" "demo_voter\<lparr>outbox := []\<rparr> = demo_voter"
    using demo_voter_fields(5) by (simp_all add: demo_candidate_def demo_node_def)
  have c1: "nodes c1 = demo_node(1 := demo_candidate)" "epoch c1 = (\<lambda>_. 0)" "Req 1 0 ?q \<in> net c1"
    by (simp_all add: c1_def c0 n1_def in_install_net o fun_eq_iff)
  have "node_term (nodes demo_cluster 1) \<noteq> - 1" by (simp add: c0 demo_node_def empty_log)
  then have s1: "cstep demo_config demo_cluster c1"
    using cstep.tick[where c = demo_cluster and i = 1 and cfg = demo_config and hb = 0 and now = 200 and g = "\<lambda>_. 0"]
    by (simp add: c0 demo_timeout c1_def n1_def)
  have c2: "nodes c2 = demo_node(1 := demo_candidate, 2 := demo_voter)" "epoch c2 = (\<lambda>_. 0)" "VoteReply 1 0 2 1 2 ?r \<in> net c2"
    by (simp_all add: c2_def c1 o fun_eq_iff)
  have s2: "cstep demo_config c1 c2"
    unfolding c2_def using c1(3) demo_voter_fields(1) by (intro cstep.recv_vote) (simp_all add: c1)
  have c3: "nodes c3 = demo_node(1 := demo_winner\<lparr>outbox := []\<rparr>, 2 := demo_voter)" "epoch c3 = (\<lambda>_. 0)"
      "\<forall>call\<in>set (outbox demo_winner). Req 1 0 call \<in> net c3"
    by (auto simp: c3_def c2 in_install_net fun_eq_iff)
  have s3: "cstep demo_config c2 c3"
    using cstep.vote_reply[where c = c2 and i = 1 and j = 2 and t = 1 and m = 2 and resp = ?r and cfg = demo_config] c2
    by (simp add: c3_def demo_winner_def)
  show thesis using that s1 s2 s3 c1(1) c2(1) c3 by blast
qed


end
