(* ===== verification/Raft_Commit.thy ===== *)
theory Raft_Commit
  imports Raft_Cluster
begin

text \<open>
  Commitment and application, \<^verbatim>\<open>raft/raft_node.cpp\<close>: the median rule of
  \<open>tryAdvanceCommitIndex\<close> commits the greatest index that a majority of the voters has stored,
  and only when its entry is of the current term; \<open>applyCommittedEntries\<close> hands the state machine
  exactly the committed entries, each once and in log order; and two replicas whose logs agree
  on them end with the same content and the same results.
\<close>

section \<open>The median rule\<close>

lemma length_filter_rev_sort: "length (filter P (rev (sort xs))) = length (filter P xs)"
  by (simp add: rev_filter[symmetric] filter_sort)

lemma rev_sort_nth_mono:
  assumes "i \<le> j" "j < length xs"
  shows "rev (sort xs) ! j \<le> rev (sort xs) ! i"
  using assms by (simp add: rev_nth sorted_nth_mono)

text \<open>The element at position \<open>k\<close> of the descending order: \<open>k + 1\<close> elements reach it, \<open>k\<close> exceed it at most.\<close>

lemma descending_nth_reached:
  fixes xs :: "'a::linorder list"
  assumes "k < length xs"
  shows "k < length (filter (\<lambda>x. rev (sort xs) ! k \<le> x) xs)"
proof -
  let ?ys = "rev (sort xs)" and ?P = "\<lambda>x. rev (sort xs) ! k \<le> x"
  have "filter ?P (take (Suc k) ?ys) = take (Suc k) ?ys"
    using assms rev_sort_nth_mono[of _ k xs] by (auto simp: filter_id_conv in_set_conv_nth)
  then have "Suc k = length (filter ?P (take (Suc k) ?ys))" using assms by simp
  also have "\<dots> \<le> length (filter ?P ?ys)"
    by (metis append_take_drop_id filter_append le_add1 length_append)
  finally show ?thesis by (simp only: length_filter_rev_sort Suc_le_eq)
qed

lemma descending_nth_exceeded:
  fixes xs :: "'a::linorder list"
  assumes "k < length xs" "rev (sort xs) ! k < c"
  shows "length (filter (\<lambda>x. c \<le> x) xs) \<le> k"
proof -
  let ?ys = "rev (sort xs)" and ?P = "\<lambda>x. c \<le> x"
  have "\<not> c \<le> x" if x: "x \<in> set (drop k ?ys)" for x
  proof -
    obtain j where "j < length (drop k ?ys)" "drop k ?ys ! j = x" using x unfolding in_set_conv_nth by blast
    then have "x \<le> ?ys ! k" using rev_sort_nth_mono[of k "k + j" xs] by simp
    then show ?thesis using assms(2) by simp
  qed
  then have "filter ?P (drop k ?ys) = []" by (simp add: filter_empty_conv)
  then have "filter ?P ?ys = filter ?P (take k ?ys)"
    by (metis append_Nil2 append_take_drop_id filter_append)
  then have "length (filter ?P ?ys) \<le> k"
    using length_filter_le[of ?P "take k ?ys"] by simp
  then show ?thesis by (simp only: length_filter_rev_sort)
qed

text \<open>The voters that hold the log up to \<open>c\<close>, as far as the leader knows.\<close>

definition replicated :: "RaftNode \<Rightarrow> LogIndex \<Rightarrow> NodeId set" where
  "replicated n c = {v. v = node_id n \<and> c \<le> lastIndex (nlog n) \<or>
     v \<noteq> node_id n \<and> (\<exists>m. map_of (matchIndex n) v = Some m \<and> c \<le> m)}"

text \<open>The bookkeeping of a leader: one match index for each voter, the leader a voter itself.\<close>

definition progress_ok :: "RaftNode \<Rightarrow> bool" where
  "progress_ok n \<longleftrightarrow> distinct (map fst (matchIndex n)) \<and> set (map fst (matchIndex n)) = set (voters (config n)) \<and>
     distinct (voters (config n)) \<and> node_id n \<in> set (voters (config n))"

lemma card_alist_filter:
  assumes "distinct (map fst xs)"
  shows "card {v. v \<noteq> a \<and> (\<exists>m. map_of xs v = Some m \<and> P m)} =
    length (filter P (map snd (filter (\<lambda>p. fst p \<noteq> a) xs)))"
proof -
  let ?ys = "filter (\<lambda>p. P (snd p)) (filter (\<lambda>p. fst p \<noteq> a) xs)"
  have "{v. v \<noteq> a \<and> (\<exists>m. map_of xs v = Some m \<and> P m)} = fst ` set ?ys"
    using assms by (force simp: image_iff)
  moreover have "distinct (map fst ?ys)"
    using assms by (simp add: distinct_map_filter)
  ultimately show ?thesis
    by (simp add: distinct_card[of "map fst ?ys", simplified] filter_map comp_def)
qed

lemma card_replicated:
  assumes "distinct (map fst (matchIndex n))"
  shows "card (replicated n c) = length (filter (\<lambda>m. c \<le> m)
    (lastIndex (nlog n) # map snd (filter (\<lambda>p. fst p \<noteq> node_id n) (matchIndex n))))"
proof -
  let ?S = "{v. v \<noteq> node_id n \<and> (\<exists>m. map_of (matchIndex n) v = Some m \<and> c \<le> m)}"
  have "?S \<subseteq> fst ` set (matchIndex n)" by (auto dest!: map_of_SomeD intro: rev_image_eqI)
  then have fin: "finite ?S" by (rule finite_subset) simp
  have "replicated n c = (if c \<le> lastIndex (nlog n) then insert (node_id n) ?S else ?S)"
    by (auto simp: replicated_def)
  then show ?thesis
    using fin card_alist_filter[OF assms, of "node_id n" "\<lambda>m. c \<le> m"] by simp
qed

lemma replicated_voters:
  assumes "progress_ok n"
  shows "replicated n c \<subseteq> set (voters (config n))"
proof
  fix v assume v: "v \<in> replicated n c"
  show "v \<in> set (voters (config n))"
  proof (cases "v = node_id n")
    case False
    then have "v \<in> set (map fst (matchIndex n))"
      using v by (force simp: replicated_def dest: map_of_SomeD)
    then show ?thesis using assms by (simp add: progress_ok_def)
  qed (use assms in \<open>simp add: progress_ok_def\<close>)
qed

lemma quorum_replicated:
  assumes "progress_ok n"
  shows "quorum (config n) (replicated n c) \<longleftrightarrow> length (voters (config n)) div 2 < card (replicated n c)"
  using replicated_voters[OF assms] by (auto simp: quorum_def majority_def)

lemma length_matches:
  assumes "progress_ok n"
  shows "length (matches n) = length (voters (config n))"
proof -
  have p: "distinct (map fst (matchIndex n))" "set (map fst (matchIndex n)) = set (voters (config n))"
    "distinct (voters (config n))" "node_id n \<in> set (voters (config n))"
    using assms by (simp_all add: progress_ok_def)
  have "length (filter (\<lambda>p. fst p \<noteq> node_id n) (matchIndex n)) = card (set (voters (config n)) - {node_id n})"
  proof -
    have "distinct (map fst (filter (\<lambda>p. fst p \<noteq> node_id n) (matchIndex n)))"
      using p(1) by (rule distinct_map_filter)
    from distinct_card[OF this]
    have "length (filter (\<lambda>p. fst p \<noteq> node_id n) (matchIndex n)) =
        card (fst ` set (filter (\<lambda>p. fst p \<noteq> node_id n) (matchIndex n)))"
      by (simp only: set_map length_map)
    also have "fst ` set (filter (\<lambda>p. fst p \<noteq> node_id n) (matchIndex n)) = set (voters (config n)) - {node_id n}"
      using p(2) by auto
    finally show ?thesis .
  qed
  also have "\<dots> = length (voters (config n)) - 1"
    using p(3,4) by (simp add: distinct_card)
  finally show ?thesis
    using p(4) by (cases "voters (config n)") (auto simp: matches_def)
qed

text \<open>A new leader tracks every voter, and the replies it processes keep it so.\<close>

lemma initProgress_match:
  "matchIndex (initProgress l vs n) = fold (\<lambda>v. AList.update v 0) vs (matchIndex n)"
  by (induction vs arbitrary: n) (simp_all add: initProgress_def)

lemma fold_update_keys:
  "set (map fst (fold (\<lambda>v. AList.update v x) vs as)) = set vs \<union> set (map fst as)"
  "distinct (map fst as) \<Longrightarrow> distinct (map fst (fold (\<lambda>v. AList.update v x) vs as))"
  by (induction vs arbitrary: as) (auto simp: dom_update distinct_update)

lemma becomeLeader_enter_progress:
  assumes "role n = Candidate" "distinct (voters (config n))" "node_id n \<in> set (voters (config n))"
  shows "progress_ok (snd (becomeLeader_enter n))"
  using assms becomeLeader_enter_fields[OF assms(1)] fold_update_keys[where x = 0 and vs = "voters (config n)" and as = "[]"]
  by (simp add: progress_ok_def) (simp add: becomeLeader_enter_def Let_def initProgress_match)

lemma progress_ok_update:
  assumes "progress_ok n" "peer \<in> set (voters (config n))"
  shows "progress_ok (n\<lparr>matchIndex := AList.update peer m (matchIndex n), nextIndex := xs\<rparr>)"
  using assms by (auto simp: progress_ok_def dom_update distinct_update)

text \<open>
  The index the median rule finds is the greatest one that a majority holds; the leader goes on to apply up to it
  exactly when that is progress and the entry there is of its own term.
\<close>

lemma tryAdvanceCommitIndex_quorum:
  assumes "role n = Leader" "progress_ok n"
  obtains c where "quorum (config n) (replicated n c)" "\<And>d. quorum (config n) (replicated n d) \<Longrightarrow> d \<le> c"
    "tryAdvanceCommitIndex n = (if commitIndex n < c \<and> termAt c (nlog n) = node_term n
      then applyCommittedEntries (n\<lparr>commitIndex := c\<rparr>) else (Inr (), n))"
proof -
  let ?k = "length (voters (config n)) div 2" and ?xs = "lastIndex (nlog n) # map snd (filter (\<lambda>p. fst p \<noteq> node_id n) (matchIndex n))"
  have d: "distinct (map fst (matchIndex n))" and ne: "voters (config n) \<noteq> []"
    using assms(2) by (auto simp: progress_ok_def)
  have len: "length (matches n) = length (voters (config n))" using assms(2) by (rule length_matches)
  have k: "?k < length ?xs" using len ne by (simp add: matches_def)
  have k': "\<not> length (matches n) \<le> ?k" using k by (simp add: matches_def)
  define c where "c = matches n ! ?k"
  have "quorum (config n) (replicated n c)"
    using descending_nth_reached[OF k] unfolding quorum_replicated[OF assms(2)] card_replicated[OF d] c_def matches_def .
  moreover have "e \<le> c" if "quorum (config n) (replicated n e)" for e
    using descending_nth_exceeded[OF k, of e] that
    unfolding quorum_replicated[OF assms(2)] card_replicated[OF d] c_def matches_def by (meson leD not_le_imp_less)
  moreover have "tryAdvanceCommitIndex n = (if commitIndex n < c \<and> termAt c (nlog n) = node_term n
      then applyCommittedEntries (n\<lparr>commitIndex := c\<rparr>) else (Inr (), n))"
    using assms(1) k' by (simp add: tryAdvanceCommitIndex_def Let_def c_def)
  ultimately show thesis by (rule that)
qed


definition demo_leader :: RaftNode where
  "demo_leader = (demo_node 1)\<lparr>role := Leader, nlog := setHardState 2 1 sample_log,
     nextIndex := [(1, 4), (2, 4), (3, 1)], matchIndex := [(1, 0), (2, 3), (3, 0)]\<rparr>"

lemma demo_leader_fields [simp]:
  "role demo_leader = Leader" "config demo_leader = demo_config" "node_id demo_leader = 1"
  "commitIndex demo_leader = 0" "matchIndex demo_leader = [(1, 0), (2, 3), (3, 0)]"
  "nlog demo_leader = setHardState 2 1 sample_log" "lastApplied demo_leader = 0" "sm demo_leader = KvStore_empty"
  by (simp_all add: demo_leader_def demo_node_def)


section \<open>Applying\<close>

lemma collectLoop_eq:
  assumes "log_wf L" "snapshotIndex L \<le> a"
  shows "collectLoop L c a out =
    (out @ take (unat (min c (lastIndex L)) - unat a) (drop (unat a - unat (snapshotIndex L)) (entries L)),
     max a (min c (lastIndex L)))"
  using assms
proof (induction L c a out rule: collectLoop.induct)
  case (1 L c a out)
  let ?s = "unat (snapshotIndex L)" and ?es = "entries L"
  have sa: "?s \<le> unat a" using "1.prems" by (simp add: word_le_nat_alt)
  have last: "unat (lastIndex L) = ?s + length ?es" using "1.prems" by (simp add: unat_lastIndex)
  show ?case
  proof (cases "a < c \<and> a < lastIndex L")
    case True
    then have lt: "unat a < unat c" "unat a < ?s + length ?es" using last by (simp_all add: word_less_nat_alt)
    have "unat c < 2 ^ 64" using unsigned_less[of c, where ?'a = nat] by simp
    then have a1: "unat (a + 1) = Suc (unat a)" using lt by (simp add: unat_plus_1)
    have e: "entryAt (a + 1) L = Some (?es ! (unat a - ?s))"
      using lt sa by (simp add: entryAt_logNth logNth_def a1)
    have le: "snapshotIndex L \<le> a + 1" "a + 1 \<le> c" "a + 1 \<le> lastIndex L"
      using a1 sa lt last by (simp_all add: word_le_nat_alt)
    have "drop (unat a - ?s) ?es = ?es ! (unat a - ?s) # drop (unat (a + 1) - ?s) ?es"
      using lt sa by (simp add: a1 Cons_nth_drop_Suc Suc_diff_le)
    moreover have "unat (min c (lastIndex L)) - unat a = Suc (unat (min c (lastIndex L)) - unat (a + 1))"
      using lt last by (auto simp: a1 min_def)
    moreover have "max (a + 1) (min c (lastIndex L)) = max a (min c (lastIndex L))"
      using le True by (auto simp: max_def min_def)
    ultimately show ?thesis
      using "1.IH"[OF _ e] True "1.prems"(1) le(1) e by (simp add: collectLoop.simps[of L c a out])
  next
    case False
    have stop: "entryAt (a + 1) L = None" if "a < c" "\<not> a < lastIndex L"
    proof -
      have "unat (a + 1) = Suc (unat a)"
        using that(1) unsigned_less[of c, where ?'a = nat] by (simp add: word_less_nat_alt unat_plus_1)
      then show ?thesis using that(2) last by (simp add: entryAt_logNth logNth_def word_less_nat_alt)
    qed
    have le: "min c (lastIndex L) \<le> a" using False by (auto simp: min_def)
    then have "unat (min c (lastIndex L)) - unat a = 0" by (simp add: word_le_nat_alt)
    then show ?thesis using max_absorb1[OF le] stop False by (auto simp: collectLoop.simps[of L c a out])
  qed
qed

text \<open>The commands among some entries, with their indices, as the state machine is given them.\<close>

definition commands :: "LogEntry list \<Rightarrow> (bytes \<times> u64) list" where
  "commands es = map (\<lambda>e. (edata e, eindex e)) (filter (\<lambda>e. etype e = Command) es)"

text \<open>The results the entries leave for the callers that wait: empty for a no-op.\<close>

fun recordResults :: "LogEntry list \<Rightarrow> bytes list \<Rightarrow> (LogIndex \<rightharpoonup> bytes) \<Rightarrow> LogIndex \<rightharpoonup> bytes" where
  "recordResults [] rs m = m"
| "recordResults (e # es) rs m =
     (if etype e = Command then recordResults es (tl rs) (m(eindex e \<mapsto> hd rs))
      else recordResults es rs (m(eindex e \<mapsto> [])))"

lemma applyEntries_commands:
  assumes "\<forall>e\<in>set es. etype e \<noteq> Config"
  shows "apply_all KvStore_apply (commands es) (sm n) = Inr (rs, s) \<Longrightarrow>
      fst (applyEntries es n) = Inr () \<and> sm (snd (applyEntries es n)) = s \<and>
      pendingResults (snd (applyEntries es n)) = recordResults es rs (pendingResults n)"
    and "apply_all KvStore_apply (commands es) (sm n) = Inl x \<Longrightarrow> fst (applyEntries es n) = Inl x"
  using assms
proof (induction es arbitrary: n rs)
  case (Cons e es)
  {
    case 1
    then show ?case
      using Cons.IH(1) by (cases "etype e") (auto simp: commands_def applyOne_def rbind_Inr_iff)
  next
    case 2
    then show ?case
      using Cons.IH(2) by (cases "etype e"; cases "KvStore_apply (edata e) (eindex e) (sm n)")
        (auto simp: commands_def applyOne_def rbind_def split: sum.splits)
  }
qed (simp_all add: commands_def)

text \<open>The committed entries that are not applied yet, by position.\<close>

definition committed :: "RaftNode \<Rightarrow> LogEntry list" where
  "committed n = map (\<lambda>i. the (logNth (nlog n) i))
     [unat (lastApplied n) + 1 ..< unat (min (commitIndex n) (lastIndex (nlog n))) + 1]"

lemma committed_eq:
  assumes "log_wf (nlog n)" "snapshotIndex (nlog n) \<le> lastApplied n"
  shows "committed n = take (unat (min (commitIndex n) (lastIndex (nlog n))) - unat (lastApplied n))
    (drop (unat (lastApplied n) - unat (snapshotIndex (nlog n))) (entries (nlog n)))"
proof -
  let ?L = "nlog n" and ?a = "unat (lastApplied n)" and ?e = "unat (min (commitIndex n) (lastIndex (nlog n)))"
  have s: "unat (snapshotIndex ?L) \<le> ?a" using assms(2) by (simp add: word_le_nat_alt)
  have "?e \<le> unat (lastIndex ?L)" by (simp add: min_def word_le_nat_alt)
  then have e: "?e \<le> unat (snapshotIndex ?L) + length (entries ?L)" using unat_lastIndex[OF assms(1)] by simp
  show ?thesis
    using s e by (intro nth_equalityI) (auto simp: committed_def logNth_def simp del: upt_Suc)
qed

lemma collectToApply_eq:
  assumes "log_wf (nlog n)" "snapshotIndex (nlog n) \<le> lastApplied n"
  shows "collectToApply n =
    (committed n, n\<lparr>lastApplied := max (lastApplied n) (min (commitIndex n) (lastIndex (nlog n)))\<rparr>)"
  using assms by (simp add: collectToApply_def collectLoop_eq committed_eq)

lemma committed_subset:
  assumes "log_wf (nlog n)" "snapshotIndex (nlog n) \<le> lastApplied n"
  shows "set (committed n) \<subseteq> set (entries (nlog n))"
  using committed_eq[OF assms] by (auto dest: in_set_takeD in_set_dropD)

lemma applyCommittedEntries_eq:
  assumes "log_wf (nlog n)" "snapshotIndex (nlog n) \<le> lastApplied n" "\<forall>e\<in>set (entries (nlog n)). etype e \<noteq> Config"
  shows "lastApplied (snd (applyCommittedEntries n)) = max (lastApplied n) (min (commitIndex n) (lastIndex (nlog n))) \<and>
    (case apply_all KvStore_apply (commands (committed n)) (sm n) of
       Inr (rs, s) \<Rightarrow> fst (applyCommittedEntries n) = Inr () \<and> sm (snd (applyCommittedEntries n)) = s \<and>
         pendingResults (snd (applyCommittedEntries n)) = recordResults (committed n) rs (pendingResults n)
     | Inl x \<Rightarrow> fst (applyCommittedEntries n) = Inl x)"
proof -
  let ?m = "n\<lparr>lastApplied := max (lastApplied n) (min (commitIndex n) (lastIndex (nlog n)))\<rparr>"
  have eq: "applyCommittedEntries n = applyEntries (committed n) ?m"
    using assms by (simp add: applyCommittedEntries_def collectToApply_eq)
  have nc: "\<forall>e\<in>set (committed n). etype e \<noteq> Config"
    using committed_subset[OF assms(1,2)] assms(3) by blast
  show ?thesis
    using applyEntries_commands[OF nc, of ?m] applyEntries_frame[of ?m "committed n"]
    by (auto simp: eq apply_frame_def split: sum.splits)
qed

subsection \<open>Applying one command\<close>

lemma applyEntries_progress:
  assumes "\<forall>e\<in>set es. etype e \<noteq> Config"
  shows "nextIndex (snd (applyEntries es n)) = nextIndex n \<and> matchIndex (snd (applyEntries es n)) = matchIndex n \<and>
    config (snd (applyEntries es n)) = config n"
  using assms
proof (induction es arbitrary: n)
  case (Cons e es)
  have "nextIndex (snd (applyOne e n)) = nextIndex n \<and> matchIndex (snd (applyOne e n)) = matchIndex n \<and>
      config (snd (applyOne e n)) = config n"
    using Cons.prems by (cases "etype e") (auto simp: applyOne_def abind_def split: sum.splits prod.splits)
  then show ?case using Cons.IH[of "snd (applyOne e n)"] Cons.prems by (auto simp: fst_snd_abind split: sum.splits)
qed simp

text \<open>The bookkeeping a leader keeps of its followers and its log, which applying commands leaves alone.\<close>

definition same_progress :: "RaftNode \<Rightarrow> RaftNode \<Rightarrow> bool" where
  "same_progress n n' \<longleftrightarrow> opts n' = opts n \<and> nlog n' = nlog n \<and> role n' = role n \<and> config n' = config n \<and>
     nextIndex n' = nextIndex n \<and> matchIndex n' = matchIndex n"

lemma same_progress_refl [simp, intro]: "same_progress n n"
  by (simp add: same_progress_def)

lemma same_progressD:
  assumes "same_progress n n'"
  shows "nlog n' = nlog n" "role n' = role n" "config n' = config n" "opts n' = opts n" "matchIndex n' = matchIndex n"
    "progress_ok n' = progress_ok n" "replicated n' c = replicated n c"
  using assms by (simp_all add: same_progress_def progress_ok_def replicated_def)

lemma apply_last:
  assumes L: "log_wf (nlog n)" "entries (nlog n) = es @ [e]" "\<forall>x\<in>set (es @ [e]). etype x \<noteq> Config"
    and e: "etype e = Command" "eindex e = lastIndex (nlog n)" "KvStore_apply (edata e) (eindex e) (sm n) = Inr (result, s)"
    and n: "commitIndex n = lastIndex (nlog n)" "unat (lastIndex (nlog n)) = unat (lastApplied n) + 1"
  obtains n' where "applyCommittedEntries n = (Inr (), n')" "same_progress n n'" "commitIndex n' = lastIndex (nlog n)"
    "lastApplied n' = lastIndex (nlog n)" "sm n' = s" "pendingResults n' = (pendingResults n)(lastIndex (nlog n) \<mapsto> result)"
proof -
  have len: "unat (lastIndex (nlog n)) = unat (snapshotIndex (nlog n)) + length es + 1"
    using unat_lastIndex[OF L(1)] L(2) by simp
  then have sn: "snapshotIndex (nlog n) \<le> lastApplied n" using n(2) by (simp add: word_le_nat_alt)
  have com: "committed n = [e]"
    using committed_eq[OF L(1) sn] n(2) len by (simp add: n(1) L(2))
  have ap: "apply_all KvStore_apply (commands (committed n)) (sm n) = Inr ([result], s)"
    using e by (simp add: com commands_def rbind_def)
  have "max (lastApplied n) (lastIndex (nlog n)) = lastIndex (nlog n)" using n(2) by (simp add: max_def word_le_nat_alt)
  then have E: "lastApplied (snd (applyCommittedEntries n)) = lastIndex (nlog n)" "fst (applyCommittedEntries n) = Inr ()"
      "sm (snd (applyCommittedEntries n)) = s" "pendingResults (snd (applyCommittedEntries n)) = (pendingResults n)(eindex e \<mapsto> result)"
    using applyCommittedEntries_eq[OF L(1) sn] L(2,3) e(1) by (simp_all add: ap n(1)) (simp_all add: com)
  have "same_progress n (snd (applyCommittedEntries n))"
    using applyCommittedEntries_frame(1)[of n] applyEntries_progress[of "[e]"] e(1) collectToApply_eq[OF L(1) sn] com
    by (simp add: same_progress_def frame_def applyCommittedEntries_def)
  then show thesis
    using that[of "snd (applyCommittedEntries n)"] E e(2) applyCommittedEntries_frame(2)[of n] n(1)
    by (metis prod.collapse)
qed


text \<open>A follower with a no-op and a write committed and not applied.\<close>

definition demo_write :: LogEntry where
  "demo_write = \<lparr>eterm = 1, eindex = 2, etype = Command, edata = KvCommand_encode (sample_put [1] [2] 42 1)\<rparr>"

definition demo_log :: PersistentLog where
  "demo_log = (loadFromDisk Map.empty)\<lparr>currentTerm := 1,
     entries := [\<lparr>eterm = 1, eindex = 1, etype = NoOp, edata = []\<rparr>, demo_write]\<rparr>"

definition demo_follower :: RaftNode where
  "demo_follower = (demo_node 2)\<lparr>nlog := demo_log, commitIndex := 2\<rparr>"

lemma demo_follower_ok:
  "log_wf (nlog demo_follower)" "snapshotIndex (nlog demo_follower) \<le> lastApplied demo_follower"
  "\<forall>e\<in>set (entries (nlog demo_follower)). etype e \<noteq> Config"
  "commands (committed demo_follower) = [(KvCommand_encode (sample_put [1] [2] 42 1), 2)]"
  "sm demo_follower = KvStore_empty" "lastApplied demo_follower = 0" "commitIndex demo_follower = 2"
  "lastIndex (nlog demo_follower) = 2"
  by (auto simp: demo_follower_def demo_log_def demo_write_def demo_node_def empty_log log_wf_def less_Suc_eq
      commands_def committed_def lastIndex_def logNth_def upt_rec)

lemma demo_write_applied:
  obtains r s where "KvStore_apply (KvCommand_encode (sample_put [1] [2] 42 1)) 2 KvStore_empty = Inr (r, s)"
    "KvStore_get [1] s = Some [2]"
proof -
  have "KvCommand_decode (KvCommand_encode (sample_put [1] [2] 42 1)) = Inr (sample_put [1] [2] 42 1)"
    by (rule KvCommand_decode_encode) (simp add: sample_put_ok)
  from apply_refines[OF this, of 2 KvStore_empty] obtain r s where
    "KvStore_apply (KvCommand_encode (sample_put [1] [2] 42 1)) 2 KvStore_empty = Inr (r, s)"
    "spec_apply (sample_put [1] [2] 42 1) (kv_view KvStore_empty) = (r, kv_view s)" by blast
  moreover from this(2) have "KvStore_get [1] s = Some [2]"
    by (auto simp: spec_apply_def already_applied_def kv_view_def KvStore_empty_def spec_exec_def sample_put_def
        KvStore_get_def dest!: fun_cong[of _ _ "[1]"])
  ultimately show thesis using that by blast
qed


section \<open>Replicas\<close>

lemma recordResults_other: "i \<notin> eindex ` set es \<Longrightarrow> recordResults es rs m i = m i"
  by (induction es arbitrary: rs m) auto

lemma recordResults_same: "i \<in> eindex ` set es \<Longrightarrow> recordResults es rs m i = recordResults es rs m' i"
proof (induction es arbitrary: rs m m')
  case (Cons e es)
  show ?case
  proof (cases "i \<in> eindex ` set es")
    case True
    then show ?thesis using Cons.IH[OF True] by simp
  next
    case False
    then show ?thesis using Cons.prems by (auto simp: recordResults_other)
  qed
qed simp

lemma in_committed:
  assumes "log_wf (nlog n)" "snapshotIndex (nlog n) \<le> lastApplied n" "lastApplied n < i" "i \<le> commitIndex n"
    "commitIndex n \<le> lastIndex (nlog n)"
  shows "i \<in> eindex ` set (committed n)"
proof -
  have u: "unat (lastApplied n) < unat i" "unat i \<le> unat (commitIndex n)" "unat (commitIndex n) \<le> unat (lastIndex (nlog n))"
    "unat (snapshotIndex (nlog n)) < unat i"
    using assms by (auto simp: word_less_nat_alt word_le_nat_alt)
  then obtain e where e: "logNth (nlog n) (unat i) = Some e"
    using logNth_Some_iff[OF assms(1), of "unat i"] by auto
  have "e \<in> set (committed n)"
    unfolding committed_def set_map
    by (rule image_eqI[of _ _ "unat i"]) (use u e assms(5) in \<open>simp_all add: min_absorb1 del: upt_Suc\<close>)
  moreover have "eindex e = i"
    using logNth_index[OF assms(1) e] by (simp add: word_unat_eq_iff)
  ultimately show ?thesis by blast
qed

text \<open>
  C8. Replicas agree: two nodes that have applied the same prefix with the same content, and whose
  logs hold the same entries from there up to the same commit index, apply them with the same
  outcome. If it succeeds on one it succeeds on the other, and they end with the same content
  and the same result for every index applied.
\<close>

theorem replicas_agree:
  assumes "log_wf (nlog n)" "snapshotIndex (nlog n) \<le> lastApplied n" "\<forall>e\<in>set (entries (nlog n)). etype e \<noteq> Config"
    and "log_wf (nlog m)" "snapshotIndex (nlog m) \<le> lastApplied m" "\<forall>e\<in>set (entries (nlog m)). etype e \<noteq> Config"
    and same: "lastApplied m = lastApplied n" "commitIndex m = commitIndex n" "kv_view (sm m) = kv_view (sm n)"
    and reach: "commitIndex n \<le> lastIndex (nlog n)" "commitIndex n \<le> lastIndex (nlog m)"
    and agree: "\<forall>i. lastApplied n < i \<and> i \<le> commitIndex n \<longrightarrow> entryAt i (nlog m) = entryAt i (nlog n)"
    and ok: "fst (applyCommittedEntries n) = Inr ()"
  shows "fst (applyCommittedEntries m) = Inr () \<and>
    kv_view (sm (snd (applyCommittedEntries m))) = kv_view (sm (snd (applyCommittedEntries n))) \<and>
    (\<forall>i. lastApplied n < i \<and> i \<le> commitIndex n \<longrightarrow>
      pendingResults (snd (applyCommittedEntries m)) i = pendingResults (snd (applyCommittedEntries n)) i)"
proof -
  have "logNth (nlog m) i = logNth (nlog n) i"
    if i: "unat (lastApplied n) < i" "i \<le> unat (commitIndex n)" for i
  proof -
    have "unat (of_nat i :: LogIndex) = i"
      using i(2) unsigned_less[of "commitIndex n", where ?'a = nat] by (simp add: unat_of_nat take_bit_nat_eq_self)
    then show ?thesis
      using agree i by (auto simp: entryAt_logNth word_less_nat_alt word_le_nat_alt dest: spec[of _ "of_nat i"])
  qed
  then have es: "committed m = committed n"
    using same(1,2) reach by (auto simp: committed_def min_def simp del: upt_Suc)
  note N = applyCommittedEntries_eq[OF assms(1-3)] and M = applyCommittedEntries_eq[OF assms(4-6)]
  obtain rs s where s: "apply_all KvStore_apply (commands (committed n)) (sm n) = Inr (rs, s)"
    using N ok by (cases "apply_all KvStore_apply (commands (committed n)) (sm n)") auto
  have "same_result kv_view (apply_all KvStore_apply (commands (committed n)) (sm m)) (Inr (rs, s))"
    using kv.apply_all_view[OF same(3), of "commands (committed n)"] s by simp
  then obtain s' where s': "apply_all KvStore_apply (commands (committed n)) (sm m) = Inr (rs, s')" "kv_view s' = kv_view s"
    by (cases "apply_all KvStore_apply (commands (committed n)) (sm m)") auto
  have "pendingResults (snd (applyCommittedEntries m)) i = pendingResults (snd (applyCommittedEntries n)) i"
    if "lastApplied n < i" "i \<le> commitIndex n" for i
    using N M s s' es recordResults_same[OF in_committed[OF assms(1,2) that reach(1)]] by simp
  then show ?thesis using N M s s' es by simp
qed

text \<open>The follower above and a replica that differs in everything the theorem does not speak of.\<close>

theorem replicas_agree_witness:
  "KvStore_get [1] (sm (snd (applyCommittedEntries (demo_follower\<lparr>role := Leader, nlog := demo_log\<lparr>votedFor := 3\<rparr>\<rparr>)))) = Some [2]"
proof -
  let ?n = demo_follower and ?m = "demo_follower\<lparr>role := Leader, nlog := demo_log\<lparr>votedFor := 3\<rparr>\<rparr>"
  have L: "log_wf (demo_log\<lparr>votedFor := v\<rparr>) = log_wf demo_log" "lastIndex (demo_log\<lparr>votedFor := v\<rparr>) = lastIndex demo_log"
    "entryAt i (demo_log\<lparr>votedFor := v\<rparr>) = entryAt i demo_log" "nlog ?n = demo_log" for i v
    by (simp_all add: log_wf_def lastIndex_def entryAt_def demo_follower_def Let_def)
  obtain r s where s: "KvStore_apply (KvCommand_encode (sample_put [1] [2] 42 1)) 2 KvStore_empty = Inr (r, s)"
    "KvStore_get [1] s = Some [2]" by (rule demo_write_applied)
  note F = demo_follower_ok
  have n: "fst (applyCommittedEntries ?n) = Inr ()" "sm (snd (applyCommittedEntries ?n)) = s"
    using applyCommittedEntries_eq[OF F(1,2,3)] s by (simp_all add: F(4-8))
  have "kv_view (sm (snd (applyCommittedEntries ?m))) = kv_view (sm (snd (applyCommittedEntries ?n)))"
    using replicas_agree[of ?n ?m] F(1-3,5-8) n(1) L by simp
  then show ?thesis using n(2) s(2) by (simp add: KvStore_get_def kv_view_def)
qed

end
