(* ===== verification/Raft_Replication.thy ===== *)
theory Raft_Replication
  imports Raft_Commit
begin

text \<open>
  Log replication and snapshots, \<^verbatim>\<open>raft/raft_node.cpp\<close>: what a leader sends, what
  \<open>handleAppendEntries\<close> does with it, and what the leader may conclude from the reply; the
  backtracking loop over a conflicting term; snapshots taken, sent and restored. The last
  section holds the interleavings and message orders in which the code does not keep what the
  protocol needs, each as a theorem about a concrete or general state.
\<close>

section \<open>Entries received\<close>

lemma log_reads_becomeFollower [simp]:
  "log_wf (nlog (becomeFollower t l n)) = log_wf (nlog n)"
  "snapshotIndex (nlog (becomeFollower t l n)) = snapshotIndex (nlog n)"
  "snapshotTerm (nlog (becomeFollower t l n)) = snapshotTerm (nlog n)"
  "entries (nlog (becomeFollower t l n)) = entries (nlog n)"
  "lastIndex (nlog (becomeFollower t l n)) = lastIndex (nlog n)"
  "termAt i (nlog (becomeFollower t l n)) = termAt i (nlog n)"
  "logNth (nlog (becomeFollower t l n)) k = logNth (nlog n) k"
  "\<not> t < node_term n \<Longrightarrow> node_term (becomeFollower t l n) = t"
  by auto

text \<open>The check of the entry before the new ones, as the code makes it.\<close>

definition prev_ok :: "AppendEntriesReq \<Rightarrow> PersistentLog \<Rightarrow> bool" where
  "prev_ok req L \<longleftrightarrow> prevLogIndex req = 0 \<or>
     (if termAt (prevLogIndex req) L = 0 then prevLogIndex req \<le> snapshotIndex L
      else termAt (prevLogIndex req) L = prevLogTerm req)"

lemma handleAppendEntries_log_accept:
  assumes "prev_ok req (nlog n)"
  shows "\<exists>newLast. fst (handleAppendEntries_log req n) = Inr newLast \<and>
      newLast = (if ae_entries req = [] then prevLogIndex req else eindex (last (ae_entries req)))"
    and "nlog (snd (handleAppendEntries_log req n)) = appendAndSync (ae_entries req) (nlog n)"
    and "role (snd (handleAppendEntries_log req n)) = role n"
  using assms
  by (auto simp: handleAppendEntries_log_def prev_ok_def Let_def appendAndSync_def word_neq_0_conv split: if_splits)

lemma handleAppendEntries_log_reject:
  assumes "\<not> prev_ok req (nlog n)"
  shows "\<exists>resp. fst (handleAppendEntries_log req n) = Inl resp \<and> \<not> success resp \<and> aer_term resp = node_term n"
    and "snd (handleAppendEntries_log req n) = (resetElectionDeadline n)\<lparr>leaderId := ae_leaderId req\<rparr>"
  using assms
  by (auto simp: handleAppendEntries_log_def prev_ok_def Let_def word_neq_0_conv split: if_splits)

lemma handleAppendEntries_accept:
  assumes "\<not> ae_term req < node_term n" "prev_ok req (nlog n)"
  shows "nlog (snd (handleAppendEntries req n)) =
      appendAndSync (ae_entries req) (nlog (becomeFollower (ae_term req) (ae_leaderId req) n))"
    and "role (snd (handleAppendEntries req n)) = Follower"
    and "fst (handleAppendEntries req n) = Inr resp \<Longrightarrow> success resp \<and> aer_term resp = ae_term req \<and>
      aer_matchIndex resp = (if ae_entries req = [] then prevLogIndex req else eindex (last (ae_entries req)))"
proof -
  let ?f = "becomeFollower (ae_term req) (ae_leaderId req) n"
  have p: "prev_ok req (nlog ?f)" using assms(2) unfolding prev_ok_def log_reads_becomeFollower .
  obtain x m where h: "handleAppendEntries_log req ?f = (Inr x, m)"
      "x = (if ae_entries req = [] then prevLogIndex req else eindex (last (ae_entries req)))"
    using handleAppendEntries_log_accept(1)[OF p] by (metis prod.collapse)
  have m: "nlog m = appendAndSync (ae_entries req) (nlog ?f)" "role m = Follower"
    using handleAppendEntries_log_accept(2,3)[OF p] h by simp_all
  have fr: "nlog (snd (applyCommittedEntries m)) = nlog m" "role (snd (applyCommittedEntries m)) = role m"
    using applyCommittedEntries_frame(1)[of m] by (simp_all add: frame_def)
  note eq = handleAppendEntries_def[of req n] h(1) fst_snd_abind
  show "nlog (snd (handleAppendEntries req n)) = appendAndSync (ae_entries req) (nlog ?f)"
    and "role (snd (handleAppendEntries req n)) = Follower"
    using assms(1) m fr by (simp_all add: eq split: sum.splits)
  show "fst (handleAppendEntries req n) = Inr resp \<Longrightarrow> success resp \<and> aer_term resp = ae_term req \<and>
      aer_matchIndex resp = (if ae_entries req = [] then prevLogIndex req else eindex (last (ae_entries req)))"
    using assms(1) m fr h(2) by (auto simp: eq split: sum.splits)
qed

text \<open>Entries that follow an index the log reaches fit the log.\<close>

lemma fits_after:
  assumes "log_wf L" "contiguous (unat p + 1) es" "es \<noteq> []" "snapshotIndex L \<le> p" "p \<le> lastIndex L"
  shows "fits_log es L" "unat (eindex (hd es)) = unat p + 1"
proof -
  show h: "unat (eindex (hd es)) = unat p + 1" using assms(2,3) by (rule contiguous_hd)
  show "fits_log es L"
    using assms h by (auto simp: fits_log_def word_less_nat_alt word_le_nat_alt)
qed

lemma append_after:
  assumes "log_wf L" "contiguous (unat p + 1) es" "snapshotIndex L \<le> p" "p \<le> lastIndex L"
  shows "log_wf (appendAndSync es L)"
    and "\<And>i. i \<le> unat p \<Longrightarrow> logNth (appendAndSync es L) i = logNth L i"
    and "\<And>k. k < length es \<Longrightarrow> logNth (appendAndSync es L) (unat p + 1 + k) = Some (es ! k)"
proof -
  show "log_wf (appendAndSync es L)"
    using assms appendAndSync_log_wf[OF assms(1) fits_after(1)[OF assms(1,2)]] by (cases "es = []") (simp_all add: appendAndSync_def)
  show "logNth (appendAndSync es L) i = logNth L i" if "i \<le> unat p" for i
  proof (cases "es = []")
    case False
    then show ?thesis
      using that fits_after[OF assms(1,2) False assms(3,4)] by (simp add: logNth_appendAndSync[OF assms(1)])
  qed (simp add: appendAndSync_def)
  show "logNth (appendAndSync es L) (unat p + 1 + k) = Some (es ! k)" if "k < length es" for k
  proof -
    have ne: "es \<noteq> []" using that by auto
    show ?thesis
      using that fits_after[OF assms(1,2) ne assms(3,4)] by (simp add: logNth_appendAndSync[OF assms(1)])
  qed
qed

text \<open>
  An accepted AppendEntries: when the request is of a term the node knows or a later one, its
  entries are consecutive after \<open>prevLogIndex\<close>, and the node holds the entry before them, then the
  node is a follower of that term, keeps its log up to \<open>prevLogIndex\<close>, holds every entry of the
  request at its index, and replies success with the index of the last entry.
\<close>

theorem append_entries_accepted:
  assumes "log_wf (nlog n)" "node_term n \<le> ae_term req" "contiguous (unat (prevLogIndex req) + 1) (ae_entries req)"
    and "snapshotIndex (nlog n) \<le> prevLogIndex req" "prevLogIndex req \<le> lastIndex (nlog n)"
    and "prevLogIndex req = 0 \<or> prevLogTerm req \<noteq> 0 \<and> termAt (prevLogIndex req) (nlog n) = prevLogTerm req"
  shows "let n' = snd (handleAppendEntries req n) in
    role n' = Follower \<and> node_term n' = ae_term req \<and> log_wf (nlog n') \<and>
    (\<forall>i \<le> unat (prevLogIndex req). logNth (nlog n') i = logNth (nlog n) i) \<and>
    (\<forall>k < length (ae_entries req). logNth (nlog n') (unat (prevLogIndex req) + 1 + k) = Some (ae_entries req ! k)) \<and>
    (\<forall>resp. fst (handleAppendEntries req n) = Inr resp \<longrightarrow> success resp \<and>
      unat (aer_matchIndex resp) = unat (prevLogIndex req) + length (ae_entries req))"
proof -
  let ?f = "becomeFollower (ae_term req) (ae_leaderId req) n"
  have t: "\<not> ae_term req < node_term n" using assms(2) by simp
  have p: "prev_ok req (nlog n)" using assms(6) by (auto simp: prev_ok_def)
  note A = handleAppendEntries_accept[OF t p]
  have f: "log_wf (nlog ?f)" "snapshotIndex (nlog ?f) \<le> prevLogIndex req" "prevLogIndex req \<le> lastIndex (nlog ?f)"
    using assms(1,4,5) unfolding log_reads_becomeFollower by simp_all
  note B = append_after[OF f(1) assms(3) f(2,3), unfolded log_reads_becomeFollower, folded A(1)]
  have "node_term (snd (handleAppendEntries req n)) = ae_term req" unfolding A(1) using t by auto
  moreover have "unat (aer_matchIndex resp) = unat (prevLogIndex req) + length (ae_entries req)"
    if "fst (handleAppendEntries req n) = Inr resp" for resp
    using A(3)[OF that] contiguous_last[OF assms(3)] by auto
  ultimately show ?thesis using A(2,3) B unfolding Let_def by blast
qed

definition demo_append :: AppendEntriesReq where
  "demo_append = \<lparr>ae_term = 3, ae_leaderId = 1, prevLogIndex = 2, prevLogTerm = 1,
     ae_entries = [mkEntry 3 3, mkEntry 3 4], leaderCommit = 0\<rparr>"

definition demo_replica :: RaftNode where
  "demo_replica = (demo_node 2)\<lparr>nlog := sample_log\<rparr>"

lemma demo_replica_ok:
  "log_wf (nlog demo_replica)" "node_term demo_replica = 0" "snapshotIndex (nlog demo_replica) = 0"
  "lastIndex (nlog demo_replica) = 3" "termAt 2 (nlog demo_replica) = 1" "commitIndex demo_replica = 0"
  "entries (nlog demo_replica) = [mkEntry 1 1, mkEntry 1 2, mkEntry 2 3]" "lastApplied demo_replica = 0"
  using sample_log_ok
  by (simp_all add: demo_replica_def sample_log_fields lastIndex_def termAt_def mkEntry_def demo_node_def)
    (simp add: sample_log_def empty_log)

lemma demo_append_fields:
  "prevLogIndex demo_append = 2" "ae_term demo_append = 3" "prevLogTerm demo_append = 1"
  "ae_entries demo_append = [mkEntry 3 3, mkEntry 3 4]"
  by (simp_all add: demo_append_def)

theorem append_entries_accepted_witness:
  "logNth (nlog (snd (handleAppendEntries demo_append demo_replica))) 4 = Some (mkEntry 3 4) \<and>
   logNth (nlog (snd (handleAppendEntries demo_append demo_replica))) 2 = Some (mkEntry 1 2)"
proof -
  let ?n = "snd (handleAppendEntries demo_append demo_replica)"
  have c: "contiguous (unat (prevLogIndex demo_append) + 1) (ae_entries demo_append)"
    by (simp add: contiguous_def demo_append_fields mkEntry_def less_Suc_eq)
  have "(\<forall>i \<le> unat (prevLogIndex demo_append). logNth (nlog ?n) i = logNth (nlog demo_replica) i) \<and>
      (\<forall>k < length (ae_entries demo_append). logNth (nlog ?n) (unat (prevLogIndex demo_append) + 1 + k) = Some (ae_entries demo_append ! k))"
    using append_entries_accepted[OF demo_replica_ok(1) _ c] demo_replica_ok unfolding Let_def
    by (simp only: demo_append_fields) simp
  then have "logNth (nlog ?n) 2 = logNth (nlog demo_replica) 2" "logNth (nlog ?n) 4 = Some (mkEntry 3 4)"
    by (auto simp: demo_append_fields dest: spec[of _ 2] spec[of _ 1])
  then show ?thesis by (simp add: logNth_def demo_replica_ok)
qed

lemma handleAppendEntries_reject:
  assumes "\<not> ae_term req < node_term n" "\<not> prev_ok req (nlog n)"
  shows "snd (handleAppendEntries req n) =
      (resetElectionDeadline (becomeFollower (ae_term req) (ae_leaderId req) n))\<lparr>leaderId := ae_leaderId req\<rparr>"
    and "\<exists>resp. fst (handleAppendEntries req n) = Inr resp \<and> \<not> success resp \<and> aer_term resp = ae_term req"
proof -
  let ?f = "becomeFollower (ae_term req) (ae_leaderId req) n"
  have p: "\<not> prev_ok req (nlog ?f)" using assms(2) unfolding prev_ok_def log_reads_becomeFollower .
  have t: "node_term ?f = ae_term req" using assms(1) by (rule log_reads_becomeFollower)
  from handleAppendEntries_log_reject[OF p] obtain resp m where
    h: "handleAppendEntries_log req ?f = (Inl resp, m)" "\<not> success resp" "aer_term resp = ae_term req"
      "m = (resetElectionDeadline ?f)\<lparr>leaderId := ae_leaderId req\<rparr>"
    unfolding t by (metis prod.collapse)
  show "snd (handleAppendEntries req n) = (resetElectionDeadline ?f)\<lparr>leaderId := ae_leaderId req\<rparr>"
    and "\<exists>resp. fst (handleAppendEntries req n) = Inr resp \<and> \<not> success resp \<and> aer_term resp = ae_term req"
    using assms(1) h by (simp_all add: handleAppendEntries_def)
qed

text \<open>
  C19. A rejected AppendEntries: a request is refused, with a reply, exactly when it is of an earlier
  term or the node does not hold the entry before the new ones. Then its entries, its snapshot
  position, its commit and apply indices and its store are as before.
\<close>

theorem append_entries_rejected:
  assumes "ae_term req < node_term n \<or> \<not> prev_ok req (nlog n)"
  shows "let n' = snd (handleAppendEntries req n) in
    (\<exists>resp. fst (handleAppendEntries req n) = Inr resp \<and> \<not> success resp \<and> aer_term resp = node_term n') \<and>
    entries (nlog n') = entries (nlog n) \<and> snapshotIndex (nlog n') = snapshotIndex (nlog n) \<and>
    commitIndex n' = commitIndex n \<and> lastApplied n' = lastApplied n \<and> sm n' = sm n \<and> node_term n \<le> node_term n'"
proof (cases "ae_term req < node_term n")
  case True
  then show ?thesis by (simp add: handleAppendEntries_def Let_def)
next
  case False
  then have "\<not> prev_ok req (nlog n)" using assms by simp
  note R = handleAppendEntries_reject[OF False this]
  show ?thesis
    using R(2) False by (auto simp: R(1) Let_def)
qed

theorem append_entries_rejected_witness:
  "\<exists>resp. fst (handleAppendEntries (demo_append\<lparr>prevLogIndex := 9\<rparr>) demo_replica) = Inr resp \<and> \<not> success resp"
proof -
  have "\<not> prev_ok (demo_append\<lparr>prevLogIndex := 9\<rparr>) (nlog demo_replica)"
    by (simp add: prev_ok_def termAt_def demo_replica_ok)
  then show ?thesis
    using append_entries_rejected[of "demo_append\<lparr>prevLogIndex := 9\<rparr>" demo_replica] by (auto simp: Let_def)
qed

section \<open>One round of replication\<close>

lemma entriesAfter_nth:
  assumes "log_wf L" "snapshotIndex L \<le> p" "k < length (entriesAfter p mc L)"
  shows "logNth L (unat p + 1 + k) = Some (entriesAfter p mc L ! k)"
proof -
  have s: "unat (snapshotIndex L) \<le> unat p" "\<not> p < snapshotIndex L"
    using assms(2) by (simp_all add: word_le_nat_alt word_less_nat_alt)
  have "k < length (drop (unat p - unat (snapshotIndex L)) (entries L))"
    using assms(3) s by (auto simp: entriesAfter_eq Let_def split: if_splits)
  moreover have "entriesAfter p mc L ! k = drop (unat p - unat (snapshotIndex L)) (entries L) ! k"
    using assms(3) s by (auto simp: entriesAfter_eq Let_def split: if_splits)
  ultimately show ?thesis
    using s by (auto simp: logNth_def intro!: arg_cong[of _ _ "nth (entries L)"])
qed

lemma length_entriesAfter:
  assumes "log_wf L" "snapshotIndex L \<le> p" "p \<le> lastIndex L" "mc \<noteq> 0"
  shows "length (entriesAfter p mc L) = min mc (unat (lastIndex L) - unat p)"
proof -
  have "unat (snapshotIndex L) \<le> unat p" "\<not> p < snapshotIndex L" "unat p \<le> unat (snapshotIndex L) + length (entries L)"
    using assms(2,3) by (simp_all add: word_le_nat_alt word_less_nat_alt unat_lastIndex[OF assms(1)])
  then show ?thesis
    using assms(4) unat_lastIndex[OF assms(1)] by (auto simp: entriesAfter_eq Let_def)
qed

text \<open>The request a leader makes of a peer.\<close>

definition append_request :: "NodeId \<Rightarrow> RaftNode \<Rightarrow> AppendEntriesReq" where
  "append_request peer n = \<lparr>ae_term = node_term n, ae_leaderId = node_id n, prevLogIndex = nextOf peer n - 1,
     prevLogTerm = termAt (nextOf peer n - 1) (nlog n), ae_entries = entriesAfter (nextOf peer n - 1) 200 (nlog n),
     leaderCommit = commitIndex n\<rparr>"

lemma sendAppendEntriesTo_request:
  "role n = Leader \<Longrightarrow> outbox (sendAppendEntriesTo peer n) = outbox n @ [SendAppendEntries peer (append_request peer n) (node_term n)]"
  by (simp add: sendAppendEntriesTo_def append_request_def Let_def)

text \<open>
  C5. A round of replication: the leader sends a follower the entries after the one before its next
  index. If the follower holds that entry, and the two logs agree up to it, then afterwards they
  agree up to the index the follower reports, which is 200 entries further or the leader's last
  index. So the match index the leader then records is true.
\<close>

theorem replication_round:
  assumes "role l = Leader" "log_wf (nlog l)" "log_wf (nlog f)" "node_term f \<le> node_term l"
    and "p = nextOf peer l - 1" "snapshotIndex (nlog l) \<le> p" "p \<le> lastIndex (nlog l)"
    and "snapshotIndex (nlog f) \<le> p" "p \<le> lastIndex (nlog f)"
    and "p = 0 \<or> termAt p (nlog l) \<noteq> 0 \<and> termAt p (nlog f) = termAt p (nlog l)"
    and "\<forall>i \<le> unat p. logNth (nlog f) i = logNth (nlog l) i"
    and "outbox (sendAppendEntriesTo peer l) = outbox l @ [SendAppendEntries peer req t]"
    and "handleAppendEntries req f = (Inr resp, f')"
  shows "success resp \<and> unat (aer_matchIndex resp) = min (unat p + 200) (unat (lastIndex (nlog l))) \<and>
    (\<forall>i \<le> unat (aer_matchIndex resp). logNth (nlog f') i = logNth (nlog l) i)"
proof -
  have req: "req = append_request peer l" using assms(12) sendAppendEntriesTo_request[OF assms(1), of peer] by simp
  let ?es = "entriesAfter p 200 (nlog l)"
  have R: "ae_term req = node_term l" "prevLogIndex req = p" "prevLogTerm req = termAt p (nlog l)" "ae_entries req = ?es"
    by (simp_all add: req append_request_def assms(5))
  let ?f = "becomeFollower (ae_term req) (ae_leaderId req) f"
  have t: "\<not> ae_term req < node_term f" using assms(4) R(1) by simp
  have pk: "prev_ok req (nlog f)" using assms(10) R by (auto simp: prev_ok_def)
  note A = handleAppendEntries_accept[OF t pk]
  have c: "contiguous (unat p + 1) ?es" using assms(2,6,7) by (rule contiguous_entriesAfter)
  have f: "log_wf (nlog ?f)" "snapshotIndex (nlog ?f) \<le> p" "p \<le> lastIndex (nlog ?f)"
    using assms(3,8,9) unfolding log_reads_becomeFollower by simp_all
  note B = append_after[OF f(1) c f(2,3), unfolded log_reads_becomeFollower, folded R(4), folded A(1), unfolded R(4)]
  have len: "unat p + length ?es = min (unat p + 200) (unat (lastIndex (nlog l)))"
    using length_entriesAfter[OF assms(2,6,7), of 200] assms(7) by (simp add: word_le_nat_alt)
  have s: "success resp" "aer_matchIndex resp = (if ?es = [] then p else eindex (last ?es))"
    using A(3)[of resp] assms(13) R by simp_all
  have m: "unat (aer_matchIndex resp) = unat p + length ?es" using s(2) contiguous_last[OF c] by auto
  have "logNth (nlog f') i = logNth (nlog l) i" if "i \<le> unat (aer_matchIndex resp)" for i
  proof (cases "i \<le> unat p")
    case True
    then show ?thesis using B(2)[OF True] assms(11,13) by simp
  next
    case False
    then have k: "i - unat p - 1 < length ?es" "unat p + 1 + (i - unat p - 1) = i" using that m by auto
    show ?thesis
      using B(3)[OF k(1)] entriesAfter_nth[OF assms(2,6) k(1)] assms(13) unfolding k(2) by simp
  qed
  then show ?thesis using s m len by simp
qed

lemma nothing_to_apply: "commitIndex n \<le> lastApplied n \<Longrightarrow> applyCommittedEntries n = (Inr (), n)"
  by (simp add: applyCommittedEntries_def collectToApply_def collectLoop.simps not_less[symmetric])

lemma heartbeat_returns:
  assumes "leaderCommit req \<le> commitIndex n" "commitIndex n \<le> lastApplied n"
  shows "\<exists>resp n'. handleAppendEntries req n = (Inr resp, n')"
  using assms by (auto simp: handleAppendEntries_def handleAppendEntries_log_def Let_def nothing_to_apply)

theorem replication_round_witness:
  "\<exists>resp f'. handleAppendEntries (append_request 3 demo_leader) (demo_node 3) = (Inr resp, f') \<and>
     unat (aer_matchIndex resp) = 3 \<and> logNth (nlog f') 2 = Some (mkEntry 1 2)"
proof -
  let ?q = "append_request 3 demo_leader" and ?L = "nlog demo_leader"
  have nx: "nextOf 3 demo_leader = 1" by (simp add: nextOf_def demo_leader_def)
  have n3: "nlog (demo_node 3) = loadFromDisk Map.empty" "commitIndex (demo_node 3) = 0" "lastApplied (demo_node 3) = 0"
    by (simp_all add: demo_node_def)
  have L: "log_wf ?L" "snapshotIndex ?L = 0" "lastIndex ?L = 3" "logNth ?L 2 = Some (mkEntry 1 2)"
    using sample_log_ok by (simp_all add: sample_log_fields lastIndex_def mkEntry_def logNth_def)
  have "leaderCommit ?q \<le> commitIndex (demo_node 3)" by (simp add: append_request_def n3)
  then obtain resp f' where h: "handleAppendEntries ?q (demo_node 3) = (Inr resp, f')"
    using heartbeat_returns n3 by fastforce
  have "success resp \<and> unat (aer_matchIndex resp) = min (unat (0 :: LogIndex) + 200) (unat (lastIndex ?L)) \<and>
      (\<forall>i \<le> unat (aer_matchIndex resp). logNth (nlog f') i = logNth ?L i)"
    by (rule replication_round[OF _ _ _ _ _ _ _ _ _ _ _ sendAppendEntriesTo_request h])
      (use L nx n3 in \<open>auto simp: empty_log log_wf_def lastIndex_def logNth_def\<close>)
  then show ?thesis using h L by auto
qed

section \<open>Proposals\<close>

text \<open>
  A leader only appends: a proposal to a leader adds exactly one entry, of its term, at the next
  index, keeps every entry it had and returns that index and term; any other node changes nothing
  and names the leader it knows.
\<close>

theorem propose_appends:
  assumes "log_wf (nlog n)" "unat (lastIndex (nlog n)) + 1 < 2 ^ 64"
  shows "if role n = Leader then
      (let e = \<lparr>eterm = node_term n, eindex = lastIndex (nlog n) + 1, etype = ty, edata = b\<rparr>;
           n' = snd (propose b ty n) in
        entries (nlog n') = entries (nlog n) @ [e] \<and> log_wf (nlog n') \<and>
        (\<forall>r. fst (propose b ty n) = Inr r \<longrightarrow>
          r = \<lparr>pr_isLeader = True, pr_leaderHint = node_id n, pr_index = lastIndex (nlog n) + 1, pr_term = node_term n\<rparr>))
    else propose b ty n = (Inr \<lparr>pr_isLeader = False, pr_leaderHint = leaderId n, pr_index = 0, pr_term = 0\<rparr>, n)"
proof (cases "role n = Leader")
  case True
  let ?e = "\<lparr>eterm = node_term n, eindex = lastIndex (nlog n) + 1, etype = ty, edata = b\<rparr>"
  let ?m = "n\<lparr>nlog := appendAndSync [?e] (nlog n)\<rparr>"
  note A = append_one[OF assms, of ?e, simplified]
  have eq: "propose b ty n = abind (tryAdvanceCommitIndex ?m) (\<lambda>_ n'.
      (Inr \<lparr>pr_isLeader = True, pr_leaderHint = node_id n', pr_index = lastIndex (nlog n) + 1, pr_term = node_term n\<rparr>, n'))"
    using True by (simp add: propose_def Let_def)
  have fr: "nlog (snd (tryAdvanceCommitIndex ?m)) = nlog ?m" "opts (snd (tryAdvanceCommitIndex ?m)) = opts n"
    using tryAdvanceCommitIndex_frame[of ?m] by (simp_all add: frame_def)
  have n': "nlog (snd (propose b ty n)) = appendAndSync [?e] (nlog n)"
    using fr by (simp add: eq fst_snd_abind split: sum.splits)
  show ?thesis
    using True n' A(1,3) fr(2)
    by (auto simp: Let_def) (simp add: eq fst_snd_abind split: sum.splits)
qed (simp add: propose_def)

theorem propose_appends_witness:
  "entries (nlog (snd (propose [7] Command demo_leader))) =
     entries sample_log @ [\<lparr>eterm = 2, eindex = 4, etype = Command, edata = [7]\<rparr>]"
proof -
  have L: "log_wf (nlog demo_leader)" "lastIndex (nlog demo_leader) = 3"
    using sample_log_ok by (simp_all add: sample_log_fields lastIndex_def mkEntry_def)
  then show ?thesis
    using propose_appends[of demo_leader Command "[7]"] by (simp add: Let_def)
qed

section \<open>Backtracking over a conflicting term\<close>

text \<open>
  The loop of \<open>handleAppendEntries\<close> over a conflicting term ends and finds the first index of the
  run of entries with that term: everything from the result up to the start has the term, and
  the entry before the result does not, unless it is the first one above the snapshot.
\<close>

theorem conflict_backtrack:
  assumes "snapshotIndex L < ci" "termAt ci L = t"
  shows "snapshotIndex L < conflictLoop L t ci \<and> conflictLoop L t ci \<le> ci \<and>
    (\<forall>j. conflictLoop L t ci \<le> j \<and> j \<le> ci \<longrightarrow> termAt j L = t) \<and>
    (conflictLoop L t ci = snapshotIndex L + 1 \<or> termAt (conflictLoop L t ci - 1) L \<noteq> t)"
  using assms
proof (induction L t ci rule: conflictLoop.induct)
  case (1 L t ci)
  have s: "unat (snapshotIndex L) < unat ci" using "1.prems" by (simp add: word_less_nat_alt)
  then have s1: "unat (snapshotIndex L + 1) = unat (snapshotIndex L) + 1"
    using unsigned_less[of ci, where ?'a = nat] by (simp add: unat_plus_1)
  have c1: "unat (ci - 1) = unat ci - 1" using s by (metis gr_implies_not0 unat_minus_one word_unat_eq_iff unat_0)
  show ?case
  proof (cases "snapshotIndex L + 1 < ci \<and> termAt (ci - 1) L = t")
    case True
    then have lt: "snapshotIndex L < ci - 1" using s1 c1 by (auto simp: word_less_nat_alt)
    let ?r = "conflictLoop L t (ci - 1)"
    have r: "conflictLoop L t ci = ?r" using True by (simp add: conflictLoop.simps[of L t ci])
    note IH = "1.IH"[OF True lt conjunct2[OF True]]
    have "unat ?r \<le> unat (ci - 1)" using IH by (simp only: word_le_nat_alt)
    then have "unat ?r \<le> unat ci" using c1 by linarith
    moreover have "termAt j L = t" if "?r \<le> j" "j \<le> ci" for j
    proof (cases "j = ci")
      case False
      then have "unat j < unat ci" using that(2) by (simp add: word_le_nat_alt word_unat_eq_iff le_neq_implies_less)
      then have "j \<le> ci - 1" using c1 by (simp add: word_le_nat_alt)
      then show ?thesis using IH that(1) by blast
    qed (use "1.prems" in simp)
    ultimately show ?thesis using IH unfolding r by (simp add: word_le_nat_alt)
  next
    case False
    then have r: "conflictLoop L t ci = ci" by (auto simp: conflictLoop.simps[of L t ci])
    have "ci = snapshotIndex L + 1 \<or> termAt (ci - 1) L \<noteq> t"
      using False s s1 by (auto simp: word_less_nat_alt word_unat_eq_iff)
    then show ?thesis using "1.prems" unfolding r by (metis order.antisym order.refl)
  qed
qed

theorem conflict_backtrack_witness:
  "conflictLoop sample_log 1 2 = 1"
proof -
  have "snapshotIndex sample_log < 2" "termAt 2 sample_log = 1"
    by (simp_all add: sample_log_fields termAt_def mkEntry_def)
  from conflict_backtrack[OF this] have "conflictLoop sample_log 1 2 \<noteq> 2 \<and> 0 < conflictLoop sample_log 1 2 \<and> conflictLoop sample_log 1 2 \<le> 2"
    by (auto simp: sample_log_fields termAt_def mkEntry_def)
  then have "0 < unat (conflictLoop sample_log 1 2)" "unat (conflictLoop sample_log 1 2) \<le> 2" "unat (conflictLoop sample_log 1 2) \<noteq> 2"
    by (auto simp: word_less_nat_alt word_le_nat_alt word_unat_eq_iff)
  then have "unat (conflictLoop sample_log 1 2) = 1" by linarith
  then show ?thesis by (simp add: word_unat_eq_iff)
qed

section \<open>Snapshots\<close>

lemma loadSnapshotBytes_compactUpTo: "snapshotIndex L < i \<Longrightarrow> loadSnapshotBytes (compactUpTo i t b L) = Some b"
  by (simp add: loadSnapshotBytes_def compactUpTo_disk put_append)

lemma forceSnapshot_log:
  assumes "snapshotIndex (nlog n) < lastApplied n"
  shows "nlog (forceSnapshot n) =
    compactUpTo (lastApplied n) (termAt (lastApplied n) (nlog n)) (KvStore_snapshot (sm n)) (nlog n)"
  using assms by (simp add: forceSnapshot_def forceSnapshot_position_def forceSnapshot_write_def not_le[symmetric])

text \<open>
  C24. Snapshot and restart: a node that takes a snapshot and is then restarted from its directory
  comes back with the content its store had, its term and vote, its commit and apply index at the
  last applied entry, and every log entry after it.
\<close>

theorem snapshot_restart:
  assumes "static_log (nlog n)" "snapshotIndex (nlog n) < lastApplied n" "kv_inv (sm n)" "kv_fits (sm n)"
  shows "\<exists>m. RaftNode_new o' cfg (plDisk (nlog (forceSnapshot n))) s0 g now = Inr m \<and>
    kv_view (sm m) = kv_view (sm n) \<and> lastApplied m = lastApplied n \<and> commitIndex m = lastApplied n \<and>
    node_term m = node_term n \<and> votedFor (nlog m) = votedFor (nlog n) \<and>
    (\<forall>i > lastApplied n. entryAt i (nlog m) = entryAt i (nlog n))"
proof -
  let ?L = "nlog (forceSnapshot n)"
  note L = forceSnapshot_log[OF assms(2)]
  have load: "loadFromDisk (plDisk ?L) = ?L"
    using static_compactUpTo[OF assms(1)] unfolding L static_log_def synced_def by blast
  have b: "loadSnapshotBytes ?L = Some (KvStore_snapshot (sm n))"
    unfolding L using assms(2) by (rule loadSnapshotBytes_compactUpTo)
  have r: "fst (KvStore_restore (KvStore_snapshot (sm n)) s0) = Inr ()"
      "kv_view (snd (KvStore_restore (KvStore_snapshot (sm n)) s0)) = kv_view (sm n)"
    using kv.rest_snap[OF assms(3,4)] by simp_all
  have s: "snapshotIndex ?L = lastApplied n" unfolding L using assms(2) by (rule compactUpTo_eq)
  have e: "entryAt i ?L = entryAt i (nlog n)" if "lastApplied n < i" for i
    using that unfolding L by (simp add: entryAt_logNth logNth_compactUpTo word_less_nat_alt)
  have t: "currentTerm ?L = node_term n" "votedFor ?L = votedFor (nlog n)" unfolding L by simp_all
  show ?thesis
    using r s e t by (simp add: RaftNode_new_def load b Let_def)
qed

definition demo_applied :: RaftNode where
  "demo_applied = demo_replica\<lparr>lastApplied := 2, commitIndex := 2, sm := \<lparr>kv_data = [([1], [2])], kv_lastSeq = []\<rparr>\<rparr>"

lemma demo_applied_ok:
  "static_log (nlog demo_applied)" "snapshotIndex (nlog demo_applied) < lastApplied demo_applied"
  "kv_inv (sm demo_applied)" "kv_fits (sm demo_applied)" "nlog demo_applied = sample_log"
  using sample_log_synced
  by (simp_all add: demo_applied_def demo_replica_def sample_log_fields kv_inv_def kv_fits_def static_log_def
      static_entry_def mkEntry_def entry_ok_def)

theorem snapshot_restart_witness:
  "\<exists>m. RaftNode_new (demo_options 2) demo_config (plDisk (nlog (forceSnapshot demo_applied))) KvStore_empty (\<lambda>_. 0) 0 = Inr m \<and>
     KvStore_get [1] (sm m) = Some [2] \<and> entryAt 3 (nlog m) = Some (mkEntry 2 3)"
proof -
  have d: "kv_view (sm demo_applied) = ([[1] \<mapsto> [2]], Map.empty)" "lastApplied demo_applied = 2"
    by (simp_all add: demo_applied_def kv_view_def)
  have e: "entryAt 3 sample_log = Some (mkEntry 2 3)" by (simp add: entryAt_def sample_log_fields)
  from snapshot_restart[OF demo_applied_ok(1-4), of "demo_options 2" demo_config KvStore_empty "\<lambda>_. 0" 0]
  obtain m where m: "RaftNode_new (demo_options 2) demo_config (plDisk (nlog (forceSnapshot demo_applied))) KvStore_empty (\<lambda>_. 0) 0 = Inr m"
    "kv_view (sm m) = ([[1] \<mapsto> [2]], Map.empty)" "\<forall>i > 2. entryAt i (nlog m) = entryAt i sample_log"
    unfolding d demo_applied_ok(5) by blast
  have "KvStore_get [1] (sm m) = Some [2]" using m(2) by (simp add: KvStore_get_def kv_view_def)
  then show ?thesis using m e by auto
qed

text \<open>The request for a snapshot the leader holds on disk, and what the follower does with it.\<close>

definition snapshot_request :: "RaftNode \<Rightarrow> bytes \<Rightarrow> InstallSnapshotReq" where
  "snapshot_request n b = \<lparr>is_term = node_term n, is_leaderId = node_id n, lastIncludedIndex = snapshotIndex (nlog n),
     lastIncludedTerm = snapshotTerm (nlog n), is_data = b\<rparr>"

lemma sendInstallSnapshotTo_request:
  "role n = Leader \<Longrightarrow> loadSnapshotBytes (nlog n) = Some b \<Longrightarrow>
   outbox (sendInstallSnapshotTo peer n) = outbox n @ [SendInstallSnapshot peer (snapshot_request n b) (snapshotIndex (nlog n))]"
  by (simp add: sendInstallSnapshotTo_def snapshot_request_def Let_def)

lemma handleInstallSnapshot_install:
  assumes "\<not> is_term req < node_term f" "snapshotIndex (nlog f) < lastIncludedIndex req"
    and "fst (KvStore_restore (is_data req) (sm f)) = Inr ()"
  shows "handleInstallSnapshot req f = (Inr \<lparr>isr_term = is_term req\<rparr>,
    (becomeFollower (is_term req) (is_leaderId req) f)\<lparr>
      nlog := compactUpTo (lastIncludedIndex req) (lastIncludedTerm req) (is_data req)
        (nlog (becomeFollower (is_term req) (is_leaderId req) f)),
      sm := snd (KvStore_restore (is_data req) (sm f)),
      commitIndex := max (commitIndex f) (lastIncludedIndex req),
      lastApplied := max (lastApplied f) (lastIncludedIndex req)\<rparr>)"
  using assms
  by (auto simp: handleInstallSnapshot_def Let_def split_def not_le[symmetric])

text \<open>
  C25. A snapshot that reaches a follower that is behind brings it to the leader's snapshot: the
  follower's store has the content that was snapshotted, its log starts after the snapshot with
  the entries it had there, and its apply index is the snapshot's.
\<close>

theorem snapshot_transfer:
  assumes "role l = Leader" "loadSnapshotBytes (nlog l) = Some (KvStore_snapshot s)" "kv_inv s" "kv_fits s"
    and "outbox (sendInstallSnapshotTo peer l) = outbox l @ [SendInstallSnapshot peer req x]"
    and "node_term f \<le> node_term l" "log_wf (nlog f)" "snapshotIndex (nlog f) < snapshotIndex (nlog l)"
      "lastApplied f \<le> snapshotIndex (nlog l)"
  shows "let f' = snd (handleInstallSnapshot req f) in
    fst (handleInstallSnapshot req f) = Inr \<lparr>isr_term = node_term l\<rparr> \<and>
    kv_view (sm f') = kv_view s \<and> log_wf (nlog f') \<and> lastApplied f' = snapshotIndex (nlog l) \<and>
    snapshotIndex (nlog f') = snapshotIndex (nlog l) \<and> snapshotTerm (nlog f') = snapshotTerm (nlog l) \<and>
    (\<forall>i > snapshotIndex (nlog l). entryAt i (nlog f') = entryAt i (nlog f))"
proof -
  have q: "req = snapshot_request l (KvStore_snapshot s)"
    using assms(5) sendInstallSnapshotTo_request[OF assms(1,2), of peer] by simp
  have R: "is_term req = node_term l" "lastIncludedIndex req = snapshotIndex (nlog l)"
    "lastIncludedTerm req = snapshotTerm (nlog l)" "is_data req = KvStore_snapshot s"
    by (simp_all add: q snapshot_request_def)
  let ?g = "becomeFollower (is_term req) (is_leaderId req) f"
  have r: "fst (KvStore_restore (KvStore_snapshot s) (sm f)) = Inr ()"
      "kv_view (snd (KvStore_restore (KvStore_snapshot s) (sm f))) = kv_view s"
    using kv.rest_snap[OF assms(3,4)] by simp_all
  have h: "handleInstallSnapshot req f = (Inr \<lparr>isr_term = is_term req\<rparr>,
    ?g\<lparr>nlog := compactUpTo (lastIncludedIndex req) (lastIncludedTerm req) (is_data req) (nlog ?g),
      sm := snd (KvStore_restore (is_data req) (sm f)),
      commitIndex := max (commitIndex f) (lastIncludedIndex req),
      lastApplied := max (lastApplied f) (lastIncludedIndex req)\<rparr>)"
    using assms(6,8) r(1) R by (intro handleInstallSnapshot_install) simp_all
  have g: "snapshotIndex (nlog ?g) < snapshotIndex (nlog l)" "log_wf (nlog ?g)"
    using assms(7,8) unfolding log_reads_becomeFollower by simp_all
  have e: "entryAt i (compactUpTo (snapshotIndex (nlog l)) t b (nlog ?g)) = entryAt i (nlog f)"
    if "snapshotIndex (nlog l) < i" for i t b
    using that unfolding entryAt_logNth by (subst logNth_compactUpTo) (auto simp: word_less_nat_alt)
  show ?thesis
    using r(2) e assms(9) compactUpTo_log_wf[OF g(2)] compactUpTo_eq(1,2)[OF g(1)]
    unfolding h R by (simp add: Let_def max_absorb2)
qed

lemma demo_snapshot:
  "loadSnapshotBytes (nlog (forceSnapshot demo_applied)) = Some (KvStore_snapshot (sm demo_applied))"
  "snapshotIndex (nlog (forceSnapshot demo_applied)) = 2" "node_term (forceSnapshot demo_applied) = 0"
  using demo_applied_ok(2) demo_replica_ok(2) 
  by (simp_all add: forceSnapshot_log loadSnapshotBytes_compactUpTo compactUpTo_eq)
    (simp_all add: demo_applied_def)

theorem snapshot_transfer_witness:
  "KvStore_get [1] (sm (snd (handleInstallSnapshot
     (snapshot_request (forceSnapshot demo_applied) (KvStore_snapshot (sm demo_applied))) (demo_node 3)))) = Some [2]"
proof -
  let ?l = "(forceSnapshot demo_applied)\<lparr>role := Leader\<rparr>" and ?s = "sm demo_applied"
  have q: "snapshot_request ?l (KvStore_snapshot ?s) = snapshot_request (forceSnapshot demo_applied) (KvStore_snapshot ?s)"
    by (simp add: snapshot_request_def)
  have b: "role ?l = Leader" "loadSnapshotBytes (nlog ?l) = Some (KvStore_snapshot ?s)" using demo_snapshot by simp_all
  have f: "nlog (demo_node 3) = loadFromDisk Map.empty" "lastApplied (demo_node 3) = 0" by (simp_all add: demo_node_def)
  have "kv_view (sm (snd (handleInstallSnapshot (snapshot_request ?l (KvStore_snapshot ?s)) (demo_node 3)))) = kv_view ?s"
    using snapshot_transfer[OF b demo_applied_ok(3,4) sendInstallSnapshotTo_request[OF b], of "demo_node 3"] demo_snapshot
    by (simp add: Let_def f empty_log log_wf_def)
  then show ?thesis unfolding q by (simp add: KvStore_get_def kv_view_def demo_applied_def)
qed

section \<open>Orders of messages the code does not survive\<close>

text \<open>
  The reply to a request with a gap loses its hint. The comment on the leader's side expects the
  index to continue at in \<open>conflictIndex\<close>, but the reply carries it in the position of
  \<open>matchIndex\<close>: the leader goes back to index 1 instead of the follower's last index. For a
  conflicting term the leader continues at an index that is the number of the term.
\<close>

theorem conflict_hint_lost:
  assumes "role l = Leader" "node_term l = ae_term req" "\<not> ae_term req < node_term f" "\<not> prev_ok req (nlog f)"
    and "handleAppendEntries req f = (Inr resp, f')"
  shows "map_of (nextIndex (snd (onAppendResp peer (ae_term req) True resp l))) peer =
      Some (max 1 (termAt (prevLogIndex req) (nlog f))) \<and>
    (termAt (prevLogIndex req) (nlog f) = 0 \<longrightarrow> aer_matchIndex resp = lastIndex (nlog f) + 1)"
proof -
  let ?g = "becomeFollower (ae_term req) (ae_leaderId req) f"
  let ?t = "termAt (prevLogIndex req) (nlog f)"
  have tm: "node_term ?g = ae_term req" using assms(3) by (rule log_reads_becomeFollower)
  have "\<exists>m. handleAppendEntries_log req ?g = (Inl resp, m)"
    using assms(3,5) handleAppendEntries_log_reject[of req ?g] assms(4)
    unfolding prev_ok_def log_reads_becomeFollower
    by (auto simp: handleAppendEntries_def split: prod.splits sum.splits)
  then have r: "resp = (if ?t = 0 then \<lparr>aer_term = ae_term req, success = False, aer_matchIndex = lastIndex (nlog f) + 1,
          conflictIndex = 0, conflictTerm = lastIndex (nlog f)\<rparr>
        else \<lparr>aer_term = ae_term req, success = False,
          aer_matchIndex = conflictLoop (nlog ?g) ?t (prevLogIndex req), conflictIndex = ?t, conflictTerm = 0\<rparr>)"
    using assms(4) tm unfolding prev_ok_def handleAppendEntries_log_def Let_def
    by (auto simp: log_reads_becomeFollower word_neq_0_conv simp del: becomeFollower_fields split: if_splits)
  show ?thesis
    using assms(1,2) by (auto simp: r onAppendResp_def Let_def update_conv' word_neq_0_conv)
qed

theorem conflict_hint_lost_witness:
  "\<exists>resp f'. handleAppendEntries (append_request 2 demo_leader) (demo_node 3) = (Inr resp, f') \<and>
     map_of (nextIndex (snd (onAppendResp 3 2 True resp demo_leader))) 3 = Some 1"
proof -
  let ?q = "append_request 2 demo_leader"
  have q: "prevLogIndex ?q = 3" "ae_term ?q = 2" by (simp_all add: append_request_def nextOf_def demo_leader_def)
  have f: "nlog (demo_node 3) = loadFromDisk Map.empty" by (simp add: demo_node_def)
  have t: "termAt 3 (loadFromDisk Map.empty) = 0" by (simp add: termAt_def empty_log)
  have np: "\<not> prev_ok ?q (nlog (demo_node 3))" by (simp add: prev_ok_def q f t) (simp add: empty_log)
  have lt: "\<not> ae_term ?q < node_term (demo_node 3)" by (simp add: q f empty_log)
  obtain resp f' where h: "handleAppendEntries ?q (demo_node 3) = (Inr resp, f')"
    using handleAppendEntries_reject(2)[OF lt np] by (metis prod.collapse)
  have "map_of (nextIndex (snd (onAppendResp 3 (ae_term ?q) True resp demo_leader))) 3 =
      Some (max 1 (termAt (prevLogIndex ?q) (nlog (demo_node 3))))"
    using conflict_hint_lost[OF demo_leader_fields(1) _ lt np h] by (simp add: q)
  then show ?thesis using h unfolding q f t by auto
qed

text \<open>
  The log is truncated even when nothing conflicts: a delayed or repeated AppendEntries that
  carries only entries the follower already has makes it drop every entry after them, although
  it may have acknowledged those to the leader.
\<close>

theorem stale_append_truncates:
  assumes "log_wf (nlog n)" "node_term n \<le> ae_term req" "0 < k" "k \<le> length (entries (nlog n))"
    and "prevLogIndex req = snapshotIndex (nlog n)" "prevLogTerm req = snapshotTerm (nlog n)"
    and "ae_entries req = take k (entries (nlog n))"
  shows "entries (nlog (snd (handleAppendEntries req n))) = take k (entries (nlog n))"
proof -
  let ?f = "becomeFollower (ae_term req) (ae_leaderId req) n" and ?s = "snapshotIndex (nlog n)"
  have "termAt ?s (nlog n) = snapshotTerm (nlog n)" by (simp add: termAt_def)
  then have p: "prev_ok req (nlog n)" using assms(5,6) by (simp add: prev_ok_def)
  have t: "\<not> ae_term req < node_term n" using assms(2) by simp
  have c: "contiguous (unat ?s + 1) (ae_entries req)"
    using assms(1,7) by (simp add: log_wf_contiguous contiguous_take)
  have ne: "ae_entries req \<noteq> []" using assms(3,4,7) by auto
  have f: "log_wf (nlog ?f)" "snapshotIndex (nlog ?f) \<le> ?s" "?s \<le> lastIndex (nlog ?f)"
    using assms(1) unfolding log_reads_becomeFollower by (simp_all add: word_le_nat_alt unat_lastIndex)
  note F = fits_after[OF f(1) c ne f(2,3)]
  show ?thesis
    unfolding handleAppendEntries_accept(1)[OF t p] appendAndSync_entries[OF f(1) F(1)] F(2)
    using assms(7) by simp
qed

theorem stale_append_truncates_witness:
  "entries (nlog (snd (handleAppendEntries (demo_append\<lparr>prevLogIndex := 0, prevLogTerm := snapshotTerm sample_log,
      ae_entries := [mkEntry 1 1]\<rparr>) demo_replica))) = [mkEntry 1 1]"
  using stale_append_truncates[OF demo_replica_ok(1), of "demo_append\<lparr>prevLogIndex := 0,
      prevLogTerm := snapshotTerm sample_log, ae_entries := [mkEntry 1 1]\<rparr>" 1] demo_replica_ok
  by (simp add: demo_append_fields) (simp add: demo_replica_def)

text \<open>
  The commit index can go back: a request that the node accepts and whose last entry lies below
  the node's commit index lowers it when the leader's commit index is higher.
\<close>

theorem commit_index_regresses:
  assumes "\<not> ae_term req < node_term n" "prev_ok req (nlog n)" "ae_entries req = []"
    and "prevLogIndex req < commitIndex n" "commitIndex n < leaderCommit req"
  shows "commitIndex (snd (handleAppendEntries req n)) = prevLogIndex req"
proof -
  let ?f = "becomeFollower (ae_term req) (ae_leaderId req) n"
  have p: "prev_ok req (nlog ?f)" using assms(2) unfolding prev_ok_def log_reads_becomeFollower .
  obtain x m where h: "handleAppendEntries_log req ?f = (Inr x, m)"
    using handleAppendEntries_log_accept(1)[OF p] by (metis prod.collapse)
  have "commitIndex m = min (leaderCommit req) (prevLogIndex req)"
    using h p assms(3,5) unfolding handleAppendEntries_log_def Let_def
    by (auto simp: word_neq_0_conv split: if_splits)
  then have "commitIndex m = prevLogIndex req"
    using assms(4,5) by (metis less_imp_le min_absorb2 order.strict_trans)
  then show ?thesis
    using assms(1) by (simp add: handleAppendEntries_def h fst_snd_abind applyCommittedEntries_frame split: sum.splits)
qed

theorem commit_index_regresses_witness:
  "commitIndex (snd (handleAppendEntries (demo_append\<lparr>ae_entries := [], leaderCommit := 4\<rparr>)
     (demo_replica\<lparr>commitIndex := 3, lastApplied := 3\<rparr>))) = 2"
proof -
  let ?q = "demo_append\<lparr>ae_entries := [], leaderCommit := 4\<rparr>" and ?n = "demo_replica\<lparr>commitIndex := 3, lastApplied := 3\<rparr>"
  have "prev_ok ?q (nlog ?n)" "\<not> ae_term ?q < node_term ?n"
    using demo_replica_ok by (simp_all add: prev_ok_def demo_append_fields)
  then show ?thesis
    using commit_index_regresses[of ?q ?n] by (simp add: demo_append_fields)
qed

text \<open>
  A repeated vote counts twice: the counter of an election does not record who voted, so a
  candidate that lacks two votes becomes leader when the reply of one voter is delivered twice,
  as a transport that duplicates messages does.
\<close>

theorem duplicate_vote_elects:
  assumes "role n = Candidate" "votes n (node_term n) = Some v" "voteGranted resp" "rvr_term resp \<le> node_term n"
  shows "role (snd (onVoteResp (node_term n) (v + 2) True resp
    (snd (onVoteResp (node_term n) (v + 2) True resp n)))) = Leader"
proof -
  let ?n = "n\<lparr>votes := (votes n)(node_term n \<mapsto> v + 1)\<rparr>"
  have "snd (onVoteResp (node_term n) (v + 2) True resp n) = ?n"
    using assms by (simp add: onVoteResp_def voteResp_count_def Let_def not_less[symmetric])
  moreover have "snd (onVoteResp (node_term n) (v + 2) True resp ?n) =
      snd (becomeLeader (n\<lparr>votes := (votes n)(node_term n \<mapsto> 2 + v)\<rparr>))"
    using assms by (simp add: onVoteResp_def voteResp_count_def Let_def not_less[symmetric])
  ultimately show ?thesis using assms(1) by (simp add: becomeLeader_role)
qed

theorem duplicate_vote_elects_witness:
  "role (snd (onVoteResp 1 3 True \<lparr>rvr_term = 1, voteGranted = True\<rparr>
     (snd (onVoteResp 1 3 True \<lparr>rvr_term = 1, voteGranted = True\<rparr> demo_candidate)))) = Leader"
proof -
  have "node_term demo_candidate = 1" "role demo_candidate = Candidate" "votes demo_candidate 1 = Some 1"
    by (simp_all add: demo_candidate_def)
  then show ?thesis
    using duplicate_vote_elects[of demo_candidate 1 "\<lparr>rvr_term = 1, voteGranted = True\<rparr>"] by simp
qed

text \<open>
  Winning an old election can elect a node in a new term: the callback releases the lock between
  counting the last vote and \<open>becomeLeader\<close>, which checks the role but not the term. If the node
  times out in between, it becomes leader of the next term with its own vote only.
\<close>

theorem stale_win_leads_next_term:
  assumes "voteResp_count (node_term n) m resp n = (True, n1)"
    and "node_id n \<in> set (voters (config n))" "1 < majority (config n)"
  shows "let n2 = snd (becomeCandidate n1); n3 = snd (becomeLeader n2) in
    role n3 = Leader \<and> votes n2 (node_term n + 1) = Some 1 \<and>
    node_term n2 = node_term n + 1 \<and> votedFor (nlog n2) = node_id n"
proof -
  have n1: "config n1 = config n" "opts n1 = opts n" "nlog n1 = nlog n"
    using assms(1) by (auto simp: voteResp_count_def Let_def split: if_splits)
  show ?thesis
  proof (cases n1 rule: becomeCandidate_cases)
    case ask
    then have "role (snd (becomeCandidate n1)) = Candidate" by simp
    then have "role (snd (becomeLeader (snd (becomeCandidate n1)))) = Leader" by (rule becomeLeader_role)
    then show ?thesis using ask(3) n1 by (simp add: Let_def)
  qed (use assms n1 in auto)
qed

theorem stale_win_leads_next_term_witness:
  "let n1 = snd (voteResp_count 1 2 \<lparr>rvr_term = 1, voteGranted = True\<rparr> demo_candidate);
       n2 = snd (becomeCandidate n1); n3 = snd (becomeLeader n2) in
     role n3 = Leader \<and> votes n2 2 = Some 1 \<and> node_term n2 = 2"
proof -
  let ?c = "voteResp_count 1 2 \<lparr>rvr_term = 1, voteGranted = True\<rparr> demo_candidate"
  have d: "node_term demo_candidate = 1" by (simp add: demo_candidate_def)
  have "voteResp_count (node_term demo_candidate) 2 \<lparr>rvr_term = 1, voteGranted = True\<rparr> demo_candidate = (True, snd ?c)"
    by (simp add: d) (simp add: voteResp_count_def demo_candidate_def Let_def)
  moreover have "node_id demo_candidate \<in> set (voters (config demo_candidate))" "1 < majority (config demo_candidate)"
    by (simp_all add: demo_candidate_def demo_node_def demo_config_def majority_def)
  ultimately show ?thesis
    using stale_win_leads_next_term[of demo_candidate 2 "\<lparr>rvr_term = 1, voteGranted = True\<rparr>" "snd ?c"] d
    by (simp add: Let_def)
qed

text \<open>
  A late snapshot rolls the store back: a snapshot above the follower's own but below what it has
  applied replaces the store by the older content, while the apply index stays where it was, so
  the entries in between are not applied again.
\<close>

theorem late_snapshot_rolls_back:
  assumes "\<not> is_term req < node_term f" "is_data req = KvStore_snapshot s" "kv_inv s" "kv_fits s"
    and "snapshotIndex (nlog f) < lastIncludedIndex req" "lastIncludedIndex req < lastApplied f"
  shows "kv_view (sm (snd (handleInstallSnapshot req f))) = kv_view s \<and>
    lastApplied (snd (handleInstallSnapshot req f)) = lastApplied f"
proof -
  have r: "fst (KvStore_restore (is_data req) (sm f)) = Inr ()" "kv_view (snd (KvStore_restore (is_data req) (sm f))) = kv_view s"
    using kv.rest_snap[OF assms(3,4)] assms(2) by simp_all
  then show ?thesis
    using assms(6) handleInstallSnapshot_install[OF assms(1,5) r(1)] by (simp add: max_absorb1)
qed

theorem late_snapshot_rolls_back_witness:
  "let f = demo_applied; req = \<lparr>is_term = 1, is_leaderId = 1, lastIncludedIndex = 1, lastIncludedTerm = 1,
       is_data = KvStore_snapshot KvStore_empty\<rparr> in
     KvStore_get [1] (sm f) = Some [2] \<and> lastApplied f = 2 \<and>
     KvStore_get [1] (sm (snd (handleInstallSnapshot req f))) = None \<and>
     lastApplied (snd (handleInstallSnapshot req f)) = 2"
proof -
  let ?q = "\<lparr>is_term = 1, is_leaderId = 1, lastIncludedIndex = 1, lastIncludedTerm = 1,
      is_data = KvStore_snapshot KvStore_empty\<rparr>"
  have f: "node_term demo_applied = 0" "snapshotIndex (nlog demo_applied) = 0" "lastApplied demo_applied = 2"
    using demo_replica_ok by (simp_all add: demo_applied_def)
  have "kv_inv KvStore_empty" "kv_fits KvStore_empty" by (simp_all add: kv_inv_def kv_fits_def KvStore_empty_def)
  then have "kv_view (sm (snd (handleInstallSnapshot ?q demo_applied))) = kv_view KvStore_empty \<and>
      lastApplied (snd (handleInstallSnapshot ?q demo_applied)) = 2"
    using late_snapshot_rolls_back[of ?q demo_applied KvStore_empty] by (simp add: f)
  then show ?thesis
    by (simp add: Let_def f KvStore_get_def kv_view_def KvStore_empty_def) (simp add: demo_applied_def)
qed

end
