(* ===== verification/Raft_Single.thy ===== *)
theory Raft_Single
  imports Raft_Replication
begin

text \<open>
  A group of one node: its leader commits what it appends and applies it before \<open>propose\<close> returns
  (\<^verbatim>\<open>raft/raft_node.cpp\<close>, the comments on lines 127 and 326). The lemmas give the components above
  the Raft node a group in which a call needs no other node.
\<close>

text \<open>A leader alone in its group that has applied its whole log.\<close>

definition alone :: "RaftNode \<Rightarrow> bool" where
  "alone n \<longleftrightarrow> role n = Leader \<and> progress_ok n \<and> voters (config n) = [node_id n] \<and> log_wf (nlog n) \<and>
     lastApplied n = lastIndex (nlog n) \<and> commitIndex n = lastIndex (nlog n) \<and>
     (\<forall>e\<in>set (entries (nlog n)). etype e \<noteq> Config)"

lemma matches_alone:
  assumes "progress_ok n" "voters (config n) = [node_id n]"
  shows "matches n = [lastIndex (nlog n)]"
proof -
  have "length (matches n) = 1" using length_matches[OF assms(1)] assms(2) by simp
  then show ?thesis by (auto simp: matches_def)
qed

lemma advance_alone:
  assumes "role n = Leader" "progress_ok n" "voters (config n) = [node_id n]"
    and "commitIndex n < lastIndex (nlog n)" "termAt (lastIndex (nlog n)) (nlog n) = node_term n"
  shows "tryAdvanceCommitIndex n = applyCommittedEntries (n\<lparr>commitIndex := lastIndex (nlog n)\<rparr>)"
  using assms matches_alone[OF assms(2,3)] by (simp add: tryAdvanceCommitIndex_def Let_def)

lemma propose_alone:
  assumes "alone n" "unat (lastIndex (nlog n)) + 1 < 2 ^ 64" "KvCommand_decode b = Inr cmd"
  obtains out n' where
    "propose b Command n = (Inr \<lparr>pr_isLeader = True, pr_leaderHint = node_id n, pr_index = lastIndex (nlog n) + 1,
       pr_term = node_term n\<rparr>, n')"
    "alone n'" "lastIndex (nlog n') = lastIndex (nlog n) + 1" "config n' = config n" "opts n' = opts n"
    "spec_apply cmd (kv_view (sm n)) = (out, kv_view (sm n'))"
    "waitApplied (lastIndex (nlog n) + 1) [] n' = (True, out)"
    "entries (nlog n') = entries (nlog n) @ [\<lparr>eterm = node_term n, eindex = lastIndex (nlog n) + 1, etype = Command, edata = b\<rparr>]"
    "kv_inv (sm n) \<Longrightarrow> kv_inv (sm n')"
proof -
  let ?L = "nlog n"
  let ?e = "\<lparr>eterm = node_term n, eindex = lastIndex ?L + 1, etype = Command, edata = b\<rparr>"
  let ?m = "n\<lparr>nlog := appendAndSync [?e] ?L\<rparr>"
  let ?c = "?m\<lparr>commitIndex := lastIndex ?L + 1\<rparr>"
  have a: "role n = Leader" "progress_ok n" "voters (config n) = [node_id n]" "log_wf ?L"
      "lastApplied n = lastIndex ?L" "commitIndex n = lastIndex ?L" "\<forall>e\<in>set (entries ?L). etype e \<noteq> Config"
    using assms(1) by (simp_all add: alone_def)
  note A = append_one[OF a(4) assms(2), of ?e, simplified]
  have adv: "tryAdvanceCommitIndex ?m = applyCommittedEntries ?c"
    using a A by (subst advance_alone) (simp_all add: progress_ok_def)
  obtain out st where ap: "KvStore_apply b (lastIndex ?L + 1) (sm n) = Inr (out, st)"
      "spec_apply cmd (kv_view (sm n)) = (out, kv_view st)"
    using apply_refines[OF assms(3)] by metis
  have nc: "\<forall>e\<in>set (entries ?L @ [?e]). etype e \<noteq> Config" using a(7) by simp
  obtain n' where C: "applyCommittedEntries ?c = (Inr (), n')" "same_progress ?c n'" "commitIndex n' = lastIndex (nlog ?c)"
      "lastApplied n' = lastIndex (nlog ?c)" "sm n' = st" "pendingResults n' = (pendingResults ?c)(lastIndex (nlog ?c) \<mapsto> out)"
    by (rule apply_last[of ?c "entries ?L" ?e out st]) (use A nc ap(1) a(5) assms(2) in \<open>simp_all add: unat_plus_1\<close>)
  note P = same_progressD[OF C(2)]
  have "propose b Command n = (Inr \<lparr>pr_isLeader = True, pr_leaderHint = node_id n, pr_index = lastIndex ?L + 1,
       pr_term = node_term n\<rparr>, n')"
    using a(1) adv C(1) P(4) by (simp add: propose_def Let_def abind_def)
  moreover have "alone n'" using P C(3,4) A nc a(1-3) by (simp add: alone_def progress_ok_def)
  moreover have "kv_inv (sm n')" if "kv_inv (sm n)" using kv.ap_inv[OF that ap(1)] C(5) by simp
  ultimately show thesis
    using that[of n' out] P C ap(2) A by (simp add: waitApplied_def)
qed

lemma broadcast_alone: "alone n \<Longrightarrow> broadcastAppendEntries n = n"
  by (simp add: alone_def broadcastAppendEntries_def)

lemma tryAdvance_alone: "alone n \<Longrightarrow> tryAdvanceCommitIndex n = (Inr (), n)"
  using matches_alone[of n] by (simp add: alone_def tryAdvanceCommitIndex_def Let_def)

text \<open>
  The entry a new leader appends brings everything that is left in the log into the store, the only
  other voter being none.
\<close>

lemma lead_alone:
  assumes m: "role m = Leader" "progress_ok m" "voters (config m) = [node_id m]" "log_wf (nlog m)"
    "unat (lastIndex (nlog m)) + 1 < 2 ^ 64" "\<forall>e\<in>set (entries (nlog m)). etype e \<noteq> Config"
    and a: "snapshotIndex (nlog m) \<le> lastApplied m" "lastApplied m \<le> lastIndex (nlog m)" "commitIndex m \<le> lastIndex (nlog m)"
    and s: "apply_all KvStore_apply (commands (drop (unat (lastApplied m) - unat (snapshotIndex (nlog m))) (entries (nlog m)))) (sm m) = Inr (rs, s)"
  obtains r n' where "propose [] NoOp m = (Inr r, n')" "alone n'" "sm n' = s"
    "entries (nlog n') = entries (nlog m) @ [\<lparr>eterm = node_term m, eindex = lastIndex (nlog m) + 1, etype = NoOp, edata = []\<rparr>]"
proof -
  let ?L = "nlog m"
  let ?e = "\<lparr>eterm = node_term m, eindex = lastIndex ?L + 1, etype = NoOp, edata = []\<rparr>"
  let ?m = "m\<lparr>nlog := appendAndSync [?e] ?L\<rparr>"
  let ?c = "?m\<lparr>commitIndex := lastIndex ?L + 1\<rparr>"
  note A = append_one[OF m(4,5), of ?e, simplified]
  have u: "unat (lastIndex ?L + 1) = unat (lastIndex ?L) + 1" using m(5) by (simp add: unat_plus_1)
  have lt: "commitIndex m < lastIndex ?L + 1" "lastApplied m \<le> lastIndex ?L + 1"
    using a(2,3) u by (simp_all add: word_less_nat_alt word_le_nat_alt)
  have adv: "tryAdvanceCommitIndex ?m = applyCommittedEntries ?c"
    using m A lt by (subst advance_alone) (simp_all add: progress_ok_def)
  have sl: "snapshotIndex (nlog ?c) \<le> lastApplied ?c" using a(1) by simp
  have len: "unat (lastIndex ?L) = unat (snapshotIndex ?L) + length (entries ?L)" using m(4) by (simp add: unat_lastIndex)
  have ge: "unat (snapshotIndex ?L) \<le> unat (lastApplied m)" "unat (lastApplied m) \<le> unat (lastIndex ?L)"
    using a(1,2) by (simp_all add: word_le_nat_alt)
  have cm: "committed ?c = drop (unat (lastApplied m) - unat (snapshotIndex ?L)) (entries ?L) @ [?e]"
    using committed_eq[of ?c] sl A u len ge by (simp add: min_def)
  have nc: "\<forall>e\<in>set (entries (nlog ?c)). etype e \<noteq> Config" using m(6) A by simp
  define n' where "n' = snd (applyCommittedEntries ?c)"
  have C: "fst (applyCommittedEntries ?c) = Inr ()" "sm n' = s" "lastApplied n' = lastIndex ?L + 1"
    using applyCommittedEntries_eq[OF _ sl nc] A s lt(2) by (simp_all add: n'_def cm commands_def max_absorb2)
  have fr: "nlog n' = nlog ?m" "opts n' = opts m" "role n' = Leader" "commitIndex n' = lastIndex ?L + 1"
    using applyCommittedEntries_frame[of ?c] m(1) by (simp_all add: n'_def frame_def)
  have "\<forall>e\<in>set (committed ?c). etype e \<noteq> Config" using m(6) by (auto simp: cm dest: in_set_dropD)
  then have cf: "config n' = config m" "matchIndex n' = matchIndex m"
    using applyEntries_progress collectToApply_eq[of ?c] A sl by (simp_all add: n'_def applyCommittedEntries_def)
  have "propose [] NoOp m = (Inr \<lparr>pr_isLeader = True, pr_leaderHint = node_id m, pr_index = lastIndex ?L + 1,
       pr_term = node_term m\<rparr>, n')"
    using m(1) adv C(1) fr(2) by (simp add: propose_def Let_def abind_def n'_def)
  moreover have "alone n'" using fr cf C(3) A nc m(2,3) by (simp add: alone_def progress_ok_def)
  ultimately show thesis using that C(2) fr(1) A by simp
qed

lemma enter_alone:
  assumes "voters (config n) = [node_id n]"
  defines "c \<equiv> (becomeCandidate_enter n)\<lparr>votes := (votes (becomeCandidate_enter n))(node_term n + 1 \<mapsto> 1)\<rparr>"
  defines "m \<equiv> snd (becomeLeader_enter c)"
  shows "becomeCandidate n = becomeLeader c" "fst (becomeLeader_enter c)" "role m = Leader" "progress_ok m" "config m = config n"
    "nlog m = setHardState (node_term n + 1) (node_id n) (nlog n)" "opts m = opts n" "lastApplied m = lastApplied n"
    "commitIndex m = commitIndex n" "sm m = sm n"
proof -
  have c: "role c = Candidate" "config c = config n" "opts c = opts n" "nlog c = setHardState (node_term n + 1) (node_id n) (nlog n)"
      "lastApplied c = lastApplied n" "commitIndex c = commitIndex n" "sm c = sm n"
    by (simp_all add: c_def becomeCandidate_enter_def resetElectionDeadline_def Let_def)
  then show "becomeCandidate n = becomeLeader c"
    using assms(1) by (simp add: becomeCandidate_def c_def becomeCandidate_enter_def resetElectionDeadline_def hasVoter_def Let_def)
  show "progress_ok m" unfolding m_def using c assms(1) by (intro becomeLeader_enter_progress) simp_all
  show "fst (becomeLeader_enter c)" "role m = Leader" "config m = config n"
    "nlog m = setHardState (node_term n + 1) (node_id n) (nlog n)" "opts m = opts n" "lastApplied m = lastApplied n"
    "commitIndex m = commitIndex n" "sm m = sm n"
    using c assms(1) by (simp_all add: m_def becomeLeader_enter_def initProgress_def Let_def)
qed

text \<open>A node that is the only voter elects itself and replays what its log holds behind its store.\<close>

lemma elect_alone:
  assumes n: "voters (config n) = [node_id n]" "log_wf (nlog n)"
    "unat (lastIndex (nlog n)) + 1 < 2 ^ 64" "\<forall>e\<in>set (entries (nlog n)). etype e \<noteq> Config"
    and a: "snapshotIndex (nlog n) \<le> lastApplied n" "lastApplied n \<le> lastIndex (nlog n)" "commitIndex n \<le> lastIndex (nlog n)"
    and s: "apply_all KvStore_apply (commands (drop (unat (lastApplied n) - unat (snapshotIndex (nlog n))) (entries (nlog n)))) (sm n) = Inr (rs, s)"
  obtains n' where "becomeCandidate n = (Inr (), n')" "alone n'" "sm n' = s"
proof -
  define c where "c = (becomeCandidate_enter n)\<lparr>votes := (votes (becomeCandidate_enter n))(node_term n + 1 \<mapsto> 1)\<rparr>"
  define m where "m = snd (becomeLeader_enter c)"
  note E = enter_alone[OF n(1), folded c_def, folded m_def]
  obtain r n' where p: "propose [] NoOp m = (Inr r, n')" "alone n'" "sm n' = s"
    by (rule lead_alone[of m rs s]) (use E(3-) n a s in simp_all)
  have "becomeLeader c = (Inr (), n')"
    using E(2) p tryAdvance_alone[OF p(2)] broadcast_alone[OF p(2)] by (simp add: becomeLeader_def m_def split_beta)
  then show thesis using that p E(1) by simp
qed

section \<open>A write to a group of one node\<close>

text \<open>
  A write proposed to a group of one node is durable and applied when \<open>propose\<close> returns: the
  entry is the last of the log, the call that waits for its index returns at once with the output
  the abstract store gives for the command, the store holds the abstract result, and the node is
  again a leader that has applied its whole log.
\<close>

theorem single_node_write:
  assumes "alone n" "unat (lastIndex (nlog n)) + 1 < 2 ^ 64" "command_ok cmd"
  shows "\<exists>r out n'. propose (KvCommand_encode cmd) Command n = (Inr r, n') \<and> pr_isLeader r \<and>
    waitApplied (pr_index r) [] n' = (True, out) \<and> spec_apply cmd (kv_view (sm n)) = (out, kv_view (sm n')) \<and>
    edata (last (entries (nlog n'))) = KvCommand_encode cmd \<and> alone n'"
  by (rule propose_alone[OF assms(1,2) KvCommand_decode_encode[OF assms(3)]])
    (intro exI conjI, auto)

definition demo_single :: RaftNode where
  "demo_single = (demo_node 1)\<lparr>role := Leader, config := \<lparr>voters = [1], addresses = []\<rparr>,
     matchIndex := [(1, 0)], nlog := setHardState 1 1 (loadFromDisk Map.empty)\<rparr>"

lemma demo_single_alone:
  "alone demo_single" "role demo_single = Leader" "lastIndex (nlog demo_single) = 0" "sm demo_single = KvStore_empty"
  "node_id demo_single = 1"
  by (simp_all add: alone_def demo_single_def demo_node_def progress_ok_def empty_log log_wf_def lastIndex_def)

theorem single_node_write_witness:
  "waitApplied 1 [] (snd (propose (KvCommand_encode (sample_put [1] [2] 42 1)) Command demo_single)) = (True, str ''OK'') \<and>
   KvStore_get [1] (sm (snd (propose (KvCommand_encode (sample_put [1] [2] 42 1)) Command demo_single))) = Some [2]"
proof -
  obtain r out n' where r: "propose (KvCommand_encode (sample_put [1] [2] 42 1)) Command demo_single = (Inr r, n')"
      "waitApplied (pr_index r) [] n' = (True, out)"
      "spec_apply (sample_put [1] [2] 42 1) (kv_view KvStore_empty) = (out, kv_view (sm n'))"
    using single_node_write[of demo_single "sample_put [1] [2] 42 1"] by (auto simp: demo_single_alone sample_put_ok)
  have "pr_index r = 1"
    using r(1) by (auto simp: propose_def Let_def demo_single_alone abind_def split: sum.splits prod.splits if_splits)
  moreover have "out = str ''OK''" "fst (kv_view (sm n')) [1] = Some [2]"
    using r(3) by (auto simp: spec_apply_def already_applied_def kv_view_def KvStore_empty_def spec_exec_def sample_put_def
        dest!: fun_cong[of _ _ "[1]"])
  ultimately show ?thesis using r(1,2) by (simp add: KvStore_get_def kv_view_def)
qed

end
