(* ===== verification/Std_Text.thy ===== *)
theory Std_Text
  imports Prelude
begin

text \<open>
  The parts of the standard library that the code uses on text: searching and cutting strings, decimal
  numbers in both directions, and the lines of a stream. Positions are 64 bits wide, and
  \<^verbatim>\<open>npos\<close> is the largest one.
\<close>

section \<open>Positions\<close>

definition npos :: u64 where
  "npos = -1"

text \<open>\<^verbatim>\<open>s.find(c, pos)\<close>\<close>

definition findFrom :: "u8 \<Rightarrow> bytes \<Rightarrow> u64 \<Rightarrow> u64" where
  "findFrom c s pos =
     (let k = length (takeWhile (\<lambda>x. x \<noteq> c) (drop (unat pos) s))
      in if unat pos + k < length s then pos + of_nat k else npos)"

text \<open>\<^verbatim>\<open>s.substr(pos, n)\<close>\<close>

definition substr :: "bytes \<Rightarrow> u64 \<Rightarrow> u64 \<Rightarrow> bytes result" where
  "substr s pos n = (if length s < unat pos then Inl OutOfRange else Inr (take (unat n) (drop (unat pos) s)))"

section \<open>Decimal numbers\<close>

text \<open>\<^verbatim>\<open>std::to_string\<close> of a number that is not negative.\<close>

fun toString :: "nat \<Rightarrow> bytes" where
  "toString n = (if n < 10 then [48 + of_nat n] else toString (n div 10) @ [48 + of_nat (n mod 10)])"

declare toString.simps [simp del]

definition intToString :: "int \<Rightarrow> bytes" where
  "intToString i = (if i < 0 then 45 # toString (nat (- i)) else toString (nat i))"

definition isDigit :: "u8 \<Rightarrow> bool" where
  "isDigit c \<longleftrightarrow> 48 \<le> c \<and> c \<le> 57"

definition isSpace :: "u8 \<Rightarrow> bool" where
  "isSpace c \<longleftrightarrow> c = 32 \<or> 9 \<le> c \<and> c \<le> 13"

definition digits :: "bytes \<Rightarrow> nat" where
  "digits ds = fold (\<lambda>c v. 10 * v + (unat c - 48)) ds 0"

text \<open>
  What \<^verbatim>\<open>strtol\<close> and \<^verbatim>\<open>strtoul\<close> read: blanks, a sign, and the longest run of digits; the result is the
  sign and the number, or the exception for no digits.
\<close>

definition number :: "bytes \<Rightarrow> (bool \<times> nat) result" where
  "number s =
     (let s = dropWhile isSpace s;
          neg = (s \<noteq> [] \<and> hd s = 45);
          s = (if s \<noteq> [] \<and> (hd s = 45 \<or> hd s = 43) then tl s else s);
          ds = takeWhile isDigit s
      in if ds = [] then Inl InvalidArgument else Inr (neg, digits ds))"

definition stoi :: "bytes \<Rightarrow> int result" where
  "stoi s = rbind (number s) (\<lambda>(neg, v).
     let i = (if neg then - int v else int v)
     in if i < - (2 ^ 31) \<or> 2 ^ 31 \<le> i then Inl OutOfRange else Inr i)"

definition stoul :: "bytes \<Rightarrow> u64 result" where
  "stoul s = rbind (number s) (\<lambda>(neg, v).
     if 2 ^ 64 \<le> v then Inl OutOfRange else Inr (if neg then - of_nat v else of_nat v))"

section \<open>Lines\<close>

text \<open>The values that \<^verbatim>\<open>while (std::getline(ss, tok, d))\<close> goes through: no value for a stream that is at its end.\<close>

fun getlines :: "u8 \<Rightarrow> bytes \<Rightarrow> bytes list" where
  "getlines d [] = []"
| "getlines d (c # s) =
     (let tok = takeWhile (\<lambda>x. x \<noteq> d) (c # s)
      in tok # getlines d (drop (length tok + 1) (c # s)))"

section \<open>Lemmas\<close>

lemma digits_snoc: "digits (ds @ [c]) = 10 * digits ds + (unat c - 48)"
  by (simp add: digits_def)

lemma digit_char:
  assumes "d < 10"
  shows "unat (48 + of_nat d :: u8) = 48 + d" "isDigit (48 + of_nat d)"
proof -
  have "unat (of_nat d :: u8) = d" using assms by (simp add: unat_of_nat take_bit_nat_eq_self)
  then show u: "unat (48 + of_nat d :: u8) = 48 + d" using assms by (simp add: unat_word_ariths)
  show "isDigit (48 + of_nat d)" using assms u by (simp add: isDigit_def word_le_nat_alt)
qed

lemma toString_digits: "digits (toString n) = n" "toString n \<noteq> []" "\<forall>c\<in>set (toString n). isDigit c"
proof (induction n rule: toString.induct)
  case (1 n)
  {
    case 1
    then show ?case
      using "1.IH"(1) digit_char[of n] digit_char[of "n mod 10"]
      by (cases "n < 10") (simp_all add: toString.simps[of n] digits_snoc, simp add: digits_def)
  next
    case 2
    then show ?case by (simp add: toString.simps[of n])
  next
    case 3
    then show ?case
      using "1.IH"(3) digit_char[of n] digit_char[of "n mod 10"]
      by (cases "n < 10") (simp_all add: toString.simps[of n])
  }
qed

lemma isDigit_not: "isDigit c \<Longrightarrow> \<not> isSpace c \<and> c \<noteq> 45 \<and> c \<noteq> 43 \<and> c \<noteq> 58 \<and> c \<noteq> 44 \<and> c \<noteq> 61"
  by (auto simp: isDigit_def isSpace_def word_le_nat_alt)

text \<open>Reading back a printed number, whatever follows it.\<close>

lemma number_toString:
  assumes "rest = [] \<or> \<not> isDigit (hd rest)"
  shows "number (toString n @ rest) = Inr (False, n)"
proof -
  obtain c cs where c: "toString n = c # cs" "isDigit c" using toString_digits[of n] by (cases "toString n") auto
  have "takeWhile isDigit (toString n @ rest) = toString n"
    using toString_digits(3)[of n] assms by (simp add: takeWhile_append2) (cases rest; simp)
  then show ?thesis
    using c isDigit_not[OF c(2)] toString_digits(1)[of n] by (simp add: number_def Let_def)
qed

lemma stoi_toString: "n < 2 ^ 31 \<Longrightarrow> stoi (toString n) = Inr (int n)"
  using number_toString[of "[]" n] by (simp add: stoi_def Let_def)

lemma stoul_toString: "n < 2 ^ 64 \<Longrightarrow> stoul (toString n) = Inr (of_nat n)"
  using number_toString[of "[]" n] by (simp add: stoul_def)

lemma unat_npos: "unat npos = 2 ^ 64 - 1"
  by (simp add: npos_def unat_eq_nat_uint uint_word_ariths)

lemma substr_rest: "length s < 2 ^ 64 \<Longrightarrow> unat pos \<le> length s \<Longrightarrow> substr s pos npos = Inr (drop (unat pos) s)"
  by (simp add: substr_def unat_npos)

lemma substr_part: "a + n \<le> length s \<Longrightarrow> length s < 2 ^ 64 \<Longrightarrow> substr s (of_nat a) (of_nat n) = Inr (take n (drop a s))"
  by (simp add: substr_def unat_of_nat take_bit_nat_eq_self)

text \<open>The first \<open>c\<close> behind a part that is skipped.\<close>

lemma findFrom_skip:
  assumes "c \<notin> set h" "length (g @ h @ c # t) < 2 ^ 64"
  shows "findFrom c (g @ h @ c # t) (of_nat (length g)) = of_nat (length g + length h)"
proof -
  have "takeWhile (\<lambda>x. x \<noteq> c) (h @ c # t) = h"
    using assms(1) by (subst takeWhile_append2) auto
  moreover have "unat (of_nat (length g) :: u64) = length g"
    using assms(2) by (simp add: unat_of_nat take_bit_nat_eq_self)
  ultimately show ?thesis by (simp add: findFrom_def Let_def)
qed

lemma substr_tail:
  assumes "length a + length b < 2 ^ 64"
  shows "substr (a @ b) (of_nat (length a)) npos = Inr b"
proof -
  have "unat (of_nat (length a) :: u64) = length a" using assms by (simp add: unat_of_nat take_bit_nat_eq_self)
  then show ?thesis using assms by (subst substr_rest) simp_all
qed

end
