(* ===== verification/Hash_Ring.thy ===== *)
theory Hash_Ring
  imports Std_Text
begin

text \<open>
  The consistent-hashing ring of \<^verbatim>\<open>shard/hash_ring.h\<close>. The ordered map \<^verbatim>\<open>ring_\<close> is an association
  list sorted by position, so that \<^verbatim>\<open>lower_bound\<close> and \<^verbatim>\<open>begin\<close> compute. The lemmas say which
  shard a key belongs to (the owner of the next position clockwise, over the wrap-around of
  64 bits) and which keys move when a shard is added or removed.
\<close>

section \<open>Ordered maps\<close>

text \<open>\<^verbatim>\<open>m[k] = v\<close>, \<^verbatim>\<open>m.erase(k)\<close> and \<^verbatim>\<open>m.lower_bound(k)\<close> of a \<^verbatim>\<open>std::map\<close>.\<close>

fun omapPut :: "'k::linorder \<Rightarrow> 'v \<Rightarrow> ('k \<times> 'v) list \<Rightarrow> ('k \<times> 'v) list" where
  "omapPut k v [] = [(k, v)]"
| "omapPut k v (p # ps) =
     (if k < fst p then (k, v) # p # ps
      else if k = fst p then (k, v) # ps
      else p # omapPut k v ps)"

definition omapErase :: "'k \<Rightarrow> ('k \<times> 'v) list \<Rightarrow> ('k \<times> 'v) list" where
  "omapErase k ps = filter (\<lambda>p. fst p \<noteq> k) ps"

definition lowerBound :: "'k::linorder \<Rightarrow> ('k \<times> 'v) list \<Rightarrow> ('k \<times> 'v) list" where
  "lowerBound k ps = dropWhile (\<lambda>p. fst p < k) ps"

abbreviation omap :: "('k::linorder \<times> 'v) list \<Rightarrow> bool" where
  "omap ps \<equiv> sorted_wrt (<) (map fst ps)"

lemma set_omapPut: "set (map fst (omapPut k v ps)) = insert k (set (map fst ps))"
  by (induction ps) auto

lemma omap_omapPut [simp]: "omap ps \<Longrightarrow> omap (omapPut k v ps)"
proof (induction ps)
  case (Cons p ps)
  then show ?case
    using set_omapPut[of k v ps] by (cases k "fst p" rule: linorder_cases) auto
qed simp

lemma map_of_omapPut: "omap ps \<Longrightarrow> map_of (omapPut k v ps) = (map_of ps)(k \<mapsto> v)"
proof (induction ps)
  case (Cons p ps)
  have "map_of ps k = None" if "k < fst p"
    using Cons.prems that by (force simp: map_of_eq_None_iff)
  then show ?case
    using Cons by (cases p) (auto simp: fun_eq_iff)
qed simp

lemma omap_filter: "omap ps \<Longrightarrow> omap (filter P ps)"
  by (induction ps) auto

lemma omap_omapErase [simp]: "omap ps \<Longrightarrow> omap (omapErase k ps)"
  by (simp add: omapErase_def omap_filter)

lemma map_of_omapErase: "map_of (omapErase k ps) = (map_of ps)(k := None)"
  by (induction ps) (auto simp: omapErase_def fun_eq_iff)

lemma omap_entries: "omap ps \<Longrightarrow> ps = map (\<lambda>k. (k, the (map_of ps k))) (map fst ps)"
proof (rule nth_equalityI)
  fix i
  assume "omap ps" "i < length ps"
  then have "map_of ps (fst (ps ! i)) = Some (snd (ps ! i))"
    by (intro map_of_is_SomeI) (simp_all add: strict_sorted_iff)
  then show "ps ! i = map (\<lambda>k. (k, the (map_of ps k))) (map fst ps) ! i"
    using \<open>i < length ps\<close> by simp
qed simp

lemma omap_unique:
  assumes "omap ps" "omap qs" "map_of ps = map_of qs"
  shows "ps = qs"
proof -
  have "set (map fst ps) = set (map fst qs)"
    using assms(3) by (metis dom_map_of_conv_image_fst list.set_map)
  then have "map fst ps = map fst qs"
    using assms(1,2) by (intro strict_sorted_equal)
  then show ?thesis
    using omap_entries[OF assms(1)] omap_entries[OF assms(2)] assms(3) by simp
qed

lemma lowerBound_spec:
  assumes "omap ps"
  shows "lowerBound h ps = [] \<Longrightarrow> k \<in> dom (map_of ps) \<Longrightarrow> k < h"
    and "lowerBound h ps = (k, v) # qs \<Longrightarrow> map_of ps k = Some v \<and> h \<le> k \<and>
      (\<forall>k' \<in> dom (map_of ps). h \<le> k' \<longrightarrow> k \<le> k')"
  using assms
proof (induction ps)
  case (Cons p ps)
  {
    case 1
    then show ?case using Cons.IH(1) by (cases p) (auto simp: lowerBound_def domIff split: if_splits)
  next
    case 2
    show ?case
    proof (cases "fst p < h")
      case True
      then have "lowerBound h ps = (k, v) # qs" using 2 by (simp add: lowerBound_def)
      then have IH: "map_of ps k = Some v" "h \<le> k" "\<forall>k' \<in> dom (map_of ps). h \<le> k' \<longrightarrow> k \<le> k'"
        using Cons.IH(2) 2 by auto
      then show ?thesis using True by (cases p) (auto split: if_splits)
    next
      case False
      then have "p = (k, v)" "qs = ps" using 2 by (simp_all add: lowerBound_def)
      then show ?thesis
        using False 2 by (force intro: less_imp_le dest: map_of_SomeD split: if_splits)
    qed
  }
qed (simp_all add: lowerBound_def)

section \<open>The ring\<close>

record HashRing =
  vnodes :: int
  ring :: "(u64 \<times> u32) list"
  ringShards :: "u32 list"

definition HashRing_new :: "int \<Rightarrow> HashRing" where
  "HashRing_new n = \<lparr>vnodes = n, ring = [], ringShards = []\<rparr>"

definition fnv :: "bytes \<Rightarrow> u64" where
  "fnv s = fold (\<lambda>c h. (h XOR ucast c) * 1099511628211) s 1469598103934665603"

text \<open>The position of virtual node \<open>v\<close> of a shard.\<close>

definition vpoint :: "u32 \<Rightarrow> nat \<Rightarrow> u64" where
  "vpoint shardId v = fnv (toString (unat shardId) @ str ''#'' @ toString v)"

definition HashRing_addShard :: "u32 \<Rightarrow> HashRing \<Rightarrow> HashRing" where
  "HashRing_addShard shardId r =
     r\<lparr>ring := fold (\<lambda>v. omapPut (vpoint shardId v) shardId) [0..<nat (vnodes r)] (ring r),
       ringShards := ringShards r @ [shardId]\<rparr>"

definition HashRing_removeShard :: "u32 \<Rightarrow> HashRing \<Rightarrow> HashRing" where
  "HashRing_removeShard shardId r =
     r\<lparr>ring := fold (\<lambda>v. omapErase (vpoint shardId v)) [0..<nat (vnodes r)] (ring r),
       ringShards := removeAll shardId (ringShards r)\<rparr>"

definition HashRing_shardFor :: "bytes \<Rightarrow> HashRing \<Rightarrow> u32" where
  "HashRing_shardFor key r =
     (if ring r = [] then 0
      else case lowerBound (fnv key) (ring r) of
          [] \<Rightarrow> snd (hd (ring r))
        | p # ps \<Rightarrow> snd p)"

section \<open>What the operations do to the ring\<close>

text \<open>The positions of a shard on a ring.\<close>

definition points :: "u32 \<Rightarrow> HashRing \<Rightarrow> u64 set" where
  "points s r = vpoint s ` {..<nat (vnodes r)}"

definition ring_inv :: "HashRing \<Rightarrow> bool" where
  "ring_inv r \<longleftrightarrow> omap (ring r)"

lemma omap_fold:
  "omap ps \<Longrightarrow> omap (fold (\<lambda>v. omapPut (f v) x) vs ps)"
  "omap ps \<Longrightarrow> omap (fold (\<lambda>v. omapErase (f v)) vs ps)"
  by (induction vs arbitrary: ps) simp_all

lemma ring_inv_ops [simp, intro]:
  "ring_inv (HashRing_new n)"
  "ring_inv r \<Longrightarrow> ring_inv (HashRing_addShard s r)"
  "ring_inv r \<Longrightarrow> ring_inv (HashRing_removeShard s r)"
  by (simp_all add: ring_inv_def HashRing_new_def HashRing_addShard_def HashRing_removeShard_def omap_fold)

lemma map_of_fold_omapPut:
  "omap ps \<Longrightarrow> map_of (fold (\<lambda>v. omapPut (f v) x) vs ps) = (\<lambda>k. if k \<in> f ` set vs then Some x else map_of ps k)"
  by (induction vs arbitrary: ps) (auto simp: map_of_omapPut fun_eq_iff)

lemma map_of_fold_omapErase:
  "map_of (fold (\<lambda>v. omapErase (f v)) vs ps) = (\<lambda>k. if k \<in> f ` set vs then None else map_of ps k)"
  by (induction vs arbitrary: ps) (auto simp: map_of_omapErase fun_eq_iff)

lemma atLeast0_upt: "set [0..<n] = {..<n}"
  by auto

lemma ring_addShard:
  "ring_inv r \<Longrightarrow> map_of (ring (HashRing_addShard s r)) = (\<lambda>k. if k \<in> points s r then Some s else map_of (ring r) k)"
  by (simp add: HashRing_addShard_def ring_inv_def map_of_fold_omapPut points_def atLeast0_upt del: set_upt)

lemma ring_removeShard:
  "map_of (ring (HashRing_removeShard s r)) = (\<lambda>k. if k \<in> points s r then None else map_of (ring r) k)"
  by (simp add: HashRing_removeShard_def map_of_fold_omapErase points_def atLeast0_upt del: set_upt)

lemma vnodes_ops [simp]:
  "vnodes (HashRing_addShard s r) = vnodes r" "vnodes (HashRing_removeShard s r) = vnodes r"
  "points s (HashRing_addShard s' r) = points s r" "points s (HashRing_removeShard s' r) = points s r"
  by (simp_all add: HashRing_addShard_def HashRing_removeShard_def points_def)

section \<open>The owner of a key\<close>

text \<open>
  Position \<open>k\<close> is the next one clockwise from \<open>h\<close>: no other position is nearer, where the distance
  is a subtraction of 64-bit words and so goes around the ring.
\<close>

definition clockwise :: "(u64 \<rightharpoonup> u32) \<Rightarrow> u64 \<Rightarrow> u64 \<Rightarrow> bool" where
  "clockwise m h k \<longleftrightarrow> k \<in> dom m \<and> (\<forall>k' \<in> dom m. k - h \<le> k' - h)"

lemma clockwise_unique: "clockwise m h k \<Longrightarrow> clockwise m h k' \<Longrightarrow> k = k'"
  by (force simp: clockwise_def dest: order.antisym)

lemma ring_distance:
  fixes h k k' :: "'a::len word"
  shows "h \<le> k \<Longrightarrow> k \<le> k' \<Longrightarrow> k - h \<le> k' - h"
    and "k' < h \<Longrightarrow> h \<le> k \<Longrightarrow> k - h \<le> k' - h"
    and "k' < h \<Longrightarrow> k \<le> k' \<Longrightarrow> k - h \<le> k' - h"
proof -
  define B where "B = (2 :: nat) ^ LENGTH('a)"
  have "unat k < B" unfolding B_def by (rule unsigned_less)
  then show "h \<le> k \<Longrightarrow> k \<le> k' \<Longrightarrow> k - h \<le> k' - h"
    and "k' < h \<Longrightarrow> h \<le> k \<Longrightarrow> k - h \<le> k' - h"
    and "k' < h \<Longrightarrow> k \<le> k' \<Longrightarrow> k - h \<le> k' - h"
    by (auto simp: word_le_nat_alt word_less_nat_alt unat_sub_if' B_def[symmetric])
qed

lemma shardFor_owner:
  assumes "ring_inv r" "ring r \<noteq> []"
  shows "\<exists>k. clockwise (map_of (ring r)) (fnv key) k \<and> map_of (ring r) k = Some (HashRing_shardFor key r)"
proof -
  let ?h = "fnv key" and ?m = "map_of (ring r)"
  have o: "omap (ring r)" using assms(1) by (simp add: ring_inv_def)
  show ?thesis
  proof (cases "lowerBound ?h (ring r)")
    case Nil
    obtain k v ps where r: "ring r = (k, v) # ps" using assms(2) by (cases "ring r") auto
    have before: "k' < ?h" if "k' \<in> dom ?m" for k' using lowerBound_spec(1)[OF o Nil that] .
    have "k \<le> k'" if "k' \<in> dom ?m" for k'
      using o that by (auto simp: r dom_map_of_conv_image_fst intro: less_imp_le)
    then have "clockwise ?m ?h k"
      using before by (auto simp: clockwise_def r intro: ring_distance(3))
    then show ?thesis using Nil r by (auto simp: HashRing_shardFor_def)
  next
    case (Cons p ps)
    obtain k v where p: "p = (k, v)" by fastforce
    have k: "?m k = Some v" "?h \<le> k" "\<forall>k' \<in> dom ?m. ?h \<le> k' \<longrightarrow> k \<le> k'"
      using lowerBound_spec(2)[OF o Cons[unfolded p]] by auto
    have "k - ?h \<le> k' - ?h" if "k' \<in> dom ?m" for k'
      using k that by (cases "?h \<le> k'") (auto intro: ring_distance(1,2) simp: not_le)
    then have "clockwise ?m ?h k" using k(1) by (auto simp: clockwise_def)
    then show ?thesis using Cons p k(1) assms(2) by (auto simp: HashRing_shardFor_def)
  qed
qed

lemma shardFor_eq:
  assumes "ring_inv r" "clockwise (map_of (ring r)) (fnv key) k" "map_of (ring r) k = Some v"
  shows "HashRing_shardFor key r = v"
proof -
  have "ring r \<noteq> []" using assms(3) by auto
  from shardFor_owner[OF assms(1) this, of key] show ?thesis
    using clockwise_unique[OF assms(2)] assms(3) by auto
qed

text \<open>
  C30. Routing: on a ring that is not empty the shard of a key is the one at the next position clockwise
  from the key's hash, where the distance is a subtraction of 64-bit words. So the binary
  search with its fall-back to the first position is the nearest-successor rule.
\<close>

theorem shard_for_successor:
  assumes "ring_inv r" "ring r \<noteq> []"
  shows "HashRing_shardFor key r = v \<longleftrightarrow>
    (\<exists>k. clockwise (map_of (ring r)) (fnv key) k \<and> map_of (ring r) k = Some v)"
  using shardFor_owner[OF assms, of key] shardFor_eq[OF assms(1), of key] by auto

theorem shard_for_successor_witness:
  "HashRing_shardFor [1, 2] (HashRing_addShard 7 (HashRing_new 1)) = 7"
proof -
  let ?r = "HashRing_addShard 7 (HashRing_new 1)"
  have r: "ring ?r = [(vpoint 7 0, 7)]" by (simp add: HashRing_addShard_def HashRing_new_def)
  have "clockwise (map_of (ring ?r)) (fnv [1, 2]) (vpoint 7 0)" by (simp add: clockwise_def r)
  then show ?thesis
    using shard_for_successor[of ?r "[1, 2]" 7] r by auto
qed

lemma addShard_moves:
  assumes "ring_inv r" "HashRing_shardFor key (HashRing_addShard s r) \<noteq> HashRing_shardFor key r"
  shows "HashRing_shardFor key (HashRing_addShard s r) = s"
proof -
  let ?a = "HashRing_addShard s r"
  let ?m = "map_of (ring r)" and ?h = "fnv key"
  have ia: "ring_inv ?a" using assms(1) by auto
  have nea: "ring ?a \<noteq> []"
  proof
    assume "ring ?a = []"
    then have "map_of (ring ?a) = Map.empty" by simp
    then have "?m = Map.empty" using ring_addShard[OF assms(1), of s] by (metis option.distinct(1))
    then show False using assms(2) \<open>ring ?a = []\<close> by (simp add: HashRing_shardFor_def)
  qed
  from shardFor_owner[OF ia nea] obtain k where
    k: "clockwise (map_of (ring ?a)) ?h k" "map_of (ring ?a) k = Some (HashRing_shardFor key ?a)" by blast
  show "HashRing_shardFor key ?a = s"
  proof (cases "k \<in> points s r")
    case True
    then show ?thesis using k(2) by (simp add: ring_addShard[OF assms(1)])
  next
    case False
    then have m: "?m k = Some (HashRing_shardFor key ?a)" using k(2) by (simp add: ring_addShard[OF assms(1)])
    then have "clockwise ?m ?h k"
      using k(1) by (auto simp: clockwise_def ring_addShard[OF assms(1)])
    from shardFor_eq[OF assms(1) this m] show ?thesis using assms(2) by simp
  qed
qed

lemma removeShard_stays:
  assumes "ring_inv r" "\<forall>k \<in> points s r. map_of (ring r) k \<in> {None, Some s}" "HashRing_shardFor key r \<noteq> s"
  shows "HashRing_shardFor key (HashRing_removeShard s r) = HashRing_shardFor key r"
proof -
  let ?d = "HashRing_removeShard s r"
  let ?m = "map_of (ring r)" and ?h = "fnv key"
  have id: "ring_inv ?d" using assms(1) by auto
  show "HashRing_shardFor key ?d = HashRing_shardFor key r"
  proof (cases "ring r = []")
    case True
    then have "map_of (ring ?d) = Map.empty" by (simp add: ring_removeShard fun_eq_iff)
    then show ?thesis using True by (simp add: HashRing_shardFor_def)
  next
    case False
    from shardFor_owner[OF assms(1) False] obtain k where
      k: "clockwise ?m ?h k" "?m k = Some (HashRing_shardFor key r)" by blast
    then have "k \<notin> points s r" using assms(2,3) by auto
    then have m: "map_of (ring ?d) k = Some (HashRing_shardFor key r)" using k(2) by (simp add: ring_removeShard)
    moreover have "clockwise (map_of (ring ?d)) ?h k"
      using k(1) m by (auto simp: clockwise_def ring_removeShard split: if_splits)
    ultimately show ?thesis using shardFor_eq[OF id] by blast
  qed
qed



text \<open>Adding a shard that is not there and removing it again gives back the ring.\<close>

lemma remove_add:
  assumes "ring_inv r" "points s r \<inter> dom (map_of (ring r)) = {}" "s \<notin> set (ringShards r)"
  shows "HashRing_removeShard s (HashRing_addShard s r) = r"
proof -
  have "map_of (ring (HashRing_removeShard s (HashRing_addShard s r))) = map_of (ring r)"
    using assms(2) by (auto simp: ring_removeShard ring_addShard[OF assms(1)] fun_eq_iff disjoint_iff domIff)
  moreover have "ring_inv (HashRing_removeShard s (HashRing_addShard s r))" using assms(1) by auto
  ultimately have "ring (HashRing_removeShard s (HashRing_addShard s r)) = ring r"
    using assms(1) unfolding ring_inv_def by (intro omap_unique)
  moreover have "ringShards (HashRing_removeShard s (HashRing_addShard s r)) = ringShards r"
    using assms(3) by (simp add: HashRing_removeShard_def HashRing_addShard_def removeAll_id)
  ultimately show ?thesis
    by (cases r) (simp add: HashRing_removeShard_def HashRing_addShard_def)
qed

end
