(* ===== verification/Shard_Manager.thy ===== *)
theory Shard_Manager
  imports Raft_Single Hash_Ring
begin

text \<open>
  The shard manager of \<^verbatim>\<open>shard/shard_manager.h\<close>: the ring and one Raft group for each shard. A
  \<^verbatim>\<open>ShardGroup\<close> points to a node and to the store that node applies to (\<^verbatim>\<open>server/main.cpp\<close>
  builds it so), and the model keeps the node, whose field \<open>sm\<close> is that store. A call that
  waits for an index lets the rest of the system run meanwhile: \<open>others\<close> is what the other
  threads and nodes do to the groups during one wait.
\<close>

section \<open>Groups\<close>

type_synonym Groups = "u32 \<rightharpoonup> RaftNode"

record ShardManager =
  smRing :: HashRing
  smGroups :: Groups

definition ShardManager_new :: "int \<Rightarrow> ShardManager" where
  "ShardManager_new n = \<lparr>smRing = HashRing_new n, smGroups = Map.empty\<rparr>"

definition ShardManager_addShard :: "u32 \<Rightarrow> RaftNode \<Rightarrow> ShardManager \<Rightarrow> ShardManager" where
  "ShardManager_addShard i n m =
     m\<lparr>smGroups := (smGroups m)(i \<mapsto> n), smRing := HashRing_addShard i (smRing m)\<rparr>"

definition ShardManager_shardFor :: "bytes \<Rightarrow> ShardManager \<Rightarrow> u32" where
  "ShardManager_shardFor k m = HashRing_shardFor k (smRing m)"

definition ShardManager_group :: "u32 \<Rightarrow> ShardManager \<Rightarrow> RaftNode option" where
  "ShardManager_group i m = smGroups m i"

definition shardIds :: "ShardManager \<Rightarrow> u32 list" where
  "shardIds m = ringShards (smRing m)"

text \<open>
  A pointer to a group stays valid, so that a caller that waited finds its node again; \<open>n\<close> is the
  node it had.
\<close>

definition groupNode :: "u32 \<Rightarrow> RaftNode \<Rightarrow> ShardManager \<Rightarrow> RaftNode" where
  "groupNode i n m = (case smGroups m i of None \<Rightarrow> n | Some n' \<Rightarrow> n')"

definition setNode :: "u32 \<Rightarrow> RaftNode \<Rightarrow> ShardManager \<Rightarrow> ShardManager" where
  "setNode i n m = m\<lparr>smGroups := (smGroups m)(i \<mapsto> n)\<rparr>"

definition waits :: "(Groups \<Rightarrow> Groups) \<Rightarrow> ShardManager \<Rightarrow> ShardManager" where
  "waits others m = m\<lparr>smGroups := others (smGroups m)\<rparr>"

section \<open>Migration\<close>

definition putCommand :: "bytes \<Rightarrow> bytes \<Rightarrow> KvCommand" where
  "putCommand k val = \<lparr>op = Put, key = k, value = val, expect = [], clientId = 0, requestSeq = 0\<rparr>"

definition delCommand :: "bytes \<Rightarrow> KvCommand" where
  "delCommand k = \<lparr>op = Del, key = k, value = [], expect = [], clientId = 0, requestSeq = 0\<rparr>"

text \<open>The body of the loop over the keys; the result says whether the key was counted as moved.\<close>

definition migrateKey :: "(Groups \<Rightarrow> Groups) \<Rightarrow> u32 \<Rightarrow> u32 \<Rightarrow> bytes \<Rightarrow> ShardManager \<Rightarrow> bool result \<times> ShardManager" where
  "migrateKey others fromId toId k m =
     (case (ShardManager_group fromId m, ShardManager_group toId m) of
        (Some f, Some t) \<Rightarrow>
          if ShardManager_shardFor k m \<noteq> toId then (Inr False, m)
          else (case KvStore_get k (sm f) of
              None \<Rightarrow> (Inr False, m)
            | Some val \<Rightarrow>
              (case propose (KvCommand_encode (putCommand k val)) Command t of
                 (Inl e, t) \<Rightarrow> (Inl e, setNode toId t m)
               | (Inr pr, t) \<Rightarrow>
                 (let m = setNode toId t m in
                  if \<not> pr_isLeader pr then (Inr False, m)
                  else
                    let m = waits others m in
                    if \<not> fst (waitApplied (pr_index pr) [] (groupNode toId t m)) then (Inr False, m)
                    else
                      (case propose (KvCommand_encode (delCommand k)) Command (groupNode fromId f m) of
                         (Inl e, f) \<Rightarrow> (Inl e, setNode fromId f m)
                       | (Inr dr, f) \<Rightarrow>
                         (let m = setNode fromId f m
                          in (Inr True, if pr_isLeader dr then waits others m else m))))))
      | _ \<Rightarrow> (Inr False, m))"

fun migrateLoop :: "(Groups \<Rightarrow> Groups) \<Rightarrow> u32 \<Rightarrow> u32 \<Rightarrow> bytes list \<Rightarrow> nat \<Rightarrow> ShardManager \<Rightarrow> nat result \<times> ShardManager" where
  "migrateLoop others fromId toId [] moved m = (Inr moved, m)"
| "migrateLoop others fromId toId (k # ks) moved m =
     (case migrateKey others fromId toId k m of
        (Inl e, m) \<Rightarrow> (Inl e, m)
      | (Inr b, m) \<Rightarrow> migrateLoop others fromId toId ks (if b then moved + 1 else moved) m)"

definition migrateRange :: "(Groups \<Rightarrow> Groups) \<Rightarrow> u32 \<Rightarrow> u32 \<Rightarrow> bytes list \<Rightarrow> ShardManager \<Rightarrow> nat result \<times> ShardManager" where
  "migrateRange others fromId toId keysOwnedByFrom m =
     (case (ShardManager_group fromId m, ShardManager_group toId m) of
        (Some f, Some t) \<Rightarrow>
          if role f \<noteq> Leader then (Inr 0, m) else migrateLoop others fromId toId keysOwnedByFrom 0 m
      | _ \<Rightarrow> (Inr 0, m))"

section \<open>What a migration does\<close>

lemma spec_apply_putCommand:
  "spec_apply (putCommand k v) c = (str ''OK'', (fst c)(k \<mapsto> v), snd c)"
  by (simp add: spec_apply_def already_applied_def putCommand_def spec_exec_def)

lemma spec_apply_delCommand:
  "spec_apply (delCommand k) c = (str ''OK'', (fst c)(k := None), snd c)"
  by (simp add: spec_apply_def already_applied_def delCommand_def spec_exec_def)

lemma kv_inv_short:
  "kv_inv s \<Longrightarrow> KvStore_get k s = Some v \<Longrightarrow> short k \<and> short v"
  by (auto simp: kv_inv_def KvStore_get_def dest!: map_of_SomeD)

text \<open>A write to a group of one node, as the migration makes it.\<close>

lemma write_alone:
  assumes "alone n" "unat (lastIndex (nlog n)) + 1 < 2 ^ 64" "command_ok cmd"
  obtains r out n' where "propose (KvCommand_encode cmd) Command n = (Inr r, n')" "pr_isLeader r"
    "pr_index r = lastIndex (nlog n) + 1" "waitApplied (pr_index r) [] n' = (True, out)" "alone n'"
    "spec_apply cmd (kv_view (sm n)) = (out, kv_view (sm n'))"
    "unat (lastIndex (nlog n')) = unat (lastIndex (nlog n)) + 1" "kv_inv (sm n) \<Longrightarrow> kv_inv (sm n')"
proof -
  have u: "unat (lastIndex (nlog n) + 1) = unat (lastIndex (nlog n)) + 1" using assms(2) by (simp add: unat_plus_1)
  show thesis
    by (rule propose_alone[OF assms(1,2) KvCommand_decode_encode[OF assms(3)]])
      (rule that, use u in auto)
qed

definition movable :: "u32 \<Rightarrow> bytes \<Rightarrow> ShardManager \<Rightarrow> RaftNode \<Rightarrow> bool" where
  "movable toId k m f \<longleftrightarrow> ShardManager_shardFor k m = toId \<and> KvStore_get k (sm f) \<noteq> None"

lemma migrateKey_stays:
  assumes "smGroups m fromId = Some f" "\<not> movable toId k m f"
  shows "migrateKey others fromId toId k m = (Inr False, m)"
  using assms by (auto simp: migrateKey_def movable_def ShardManager_group_def split: option.splits)

lemma migrateKey_moves:
  assumes g: "smGroups m fromId = Some f" "smGroups m toId = Some t" "fromId \<noteq> toId"
    and n: "alone f" "alone t" "kv_inv (sm f)"
    and room: "unat (lastIndex (nlog f)) + 1 < 2 ^ 64" "unat (lastIndex (nlog t)) + 1 < 2 ^ 64"
    and k: "ShardManager_shardFor k m = toId" "KvStore_get k (sm f) = Some v"
  obtains f' t' where "migrateKey (\<lambda>g. g) fromId toId k m = (Inr True, setNode fromId f' (setNode toId t' m))"
    "alone f'" "alone t'" "kv_inv (sm f')"
    "kv_view (sm f') = ((fst (kv_view (sm f)))(k := None), snd (kv_view (sm f)))"
    "kv_view (sm t') = ((fst (kv_view (sm t)))(k \<mapsto> v), snd (kv_view (sm t)))"
    "unat (lastIndex (nlog f')) = unat (lastIndex (nlog f)) + 1" "unat (lastIndex (nlog t')) = unat (lastIndex (nlog t)) + 1"
proof -
  have ok: "command_ok (putCommand k v)" "command_ok (delCommand k)"
    using kv_inv_short[OF n(3) k(2)] by (simp_all add: command_ok_def putCommand_def delCommand_def)
  obtain r out t' where t: "propose (KvCommand_encode (putCommand k v)) Command t = (Inr r, t')" "pr_isLeader r"
      "waitApplied (pr_index r) [] t' = (True, out)" "alone t'"
      "spec_apply (putCommand k v) (kv_view (sm t)) = (out, kv_view (sm t'))"
      "unat (lastIndex (nlog t')) = unat (lastIndex (nlog t)) + 1"
    by (rule write_alone[OF n(2) room(2) ok(1)])
  obtain r' out' f' where f: "propose (KvCommand_encode (delCommand k)) Command f = (Inr r', f')" "alone f'"
      "spec_apply (delCommand k) (kv_view (sm f)) = (out', kv_view (sm f'))"
      "unat (lastIndex (nlog f')) = unat (lastIndex (nlog f)) + 1" "kv_inv (sm f')"
    by (rule write_alone[OF n(1) room(1) ok(2)]) (use n(3) in blast)
  have "migrateKey (\<lambda>g. g) fromId toId k m = (Inr True, setNode fromId f' (setNode toId t' m))"
    using g k t(1-3) f(1)
    by (simp add: migrateKey_def ShardManager_group_def setNode_def groupNode_def waits_def Let_def)
  then show thesis
    by (rule that) (use t f in \<open>simp_all add: spec_apply_putCommand spec_apply_delCommand\<close>)
qed

lemma movable_after:
  assumes "kv_view (sm f1) = ((fst (kv_view (sm f)))(k := None), snd (kv_view (sm f)))"
  shows "movable toId k' (setNode fromId f1 (setNode toId t1 m)) f1 \<longleftrightarrow> movable toId k' m f \<and> k' \<noteq> k"
  using assms by (auto simp: movable_def ShardManager_shardFor_def setNode_def KvStore_get_def kv_view_def)

lemma card_movable_Cons:
  assumes "movable toId k m f" "\<And>k'. movable toId k' m1 f1 \<longleftrightarrow> movable toId k' m f \<and> k' \<noteq> k"
  shows "card {k' \<in> set (k # ks). movable toId k' m f} = 1 + card {k' \<in> set ks. movable toId k' m1 f1}"
proof -
  have "{k' \<in> set (k # ks). movable toId k' m f} = insert k {k' \<in> set ks. movable toId k' m1 f1}"
    using assms by auto
  then show ?thesis using assms(2) by (simp add: card_insert_disjoint)
qed

lemma migrateLoop_moves:
  assumes "smGroups m fromId = Some f" "smGroups m toId = Some t" "fromId \<noteq> toId" "alone f" "alone t" "kv_inv (sm f)"
    and "unat (lastIndex (nlog f)) + length ks < 2 ^ 64" "unat (lastIndex (nlog t)) + length ks < 2 ^ 64"
  shows "\<exists>f' t'. migrateLoop (\<lambda>g. g) fromId toId ks c m =
      (Inr (c + card {k \<in> set ks. movable toId k m f}), setNode fromId f' (setNode toId t' m)) \<and>
    fst (kv_view (sm f')) = (\<lambda>k. if k \<in> set ks \<and> movable toId k m f then None else fst (kv_view (sm f)) k) \<and>
    fst (kv_view (sm t')) = (\<lambda>k. if k \<in> set ks \<and> movable toId k m f then fst (kv_view (sm f)) k else fst (kv_view (sm t)) k)"
  using assms
proof (induction ks arbitrary: m f t c)
  case Nil
  then show ?case by (intro exI[of _ f] exI[of _ t]) (simp add: setNode_def fun_upd_idem)
next
  case (Cons k ks)
  show ?case
  proof (cases "movable toId k m f")
    case False
    have c: "{k' \<in> set (k # ks). movable toId k' m f} = {k' \<in> set ks. movable toId k' m f}" using False by auto
    have m: "k' \<in> set (k # ks) \<and> movable toId k' m f \<longleftrightarrow> k' \<in> set ks \<and> movable toId k' m f" for k' using False by auto
    have "migrateLoop (\<lambda>g. g) fromId toId (k # ks) c m = migrateLoop (\<lambda>g. g) fromId toId ks c m" for c
      using migrateKey_stays[OF Cons.prems(1) False] by simp
    then show ?thesis unfolding c m by (simp only:) (rule Cons.IH, use Cons.prems in simp_all)
  next
    case True
    then obtain v where k: "ShardManager_shardFor k m = toId" "KvStore_get k (sm f) = Some v" by (auto simp: movable_def)
    have room: "unat (lastIndex (nlog f)) + 1 < 2 ^ 64" "unat (lastIndex (nlog t)) + 1 < 2 ^ 64" using Cons.prems(7,8) by simp_all
    obtain f1 t1 where s: "migrateKey (\<lambda>g. g) fromId toId k m = (Inr True, setNode fromId f1 (setNode toId t1 m))"
      "alone f1" "alone t1" "kv_inv (sm f1)"
      "kv_view (sm f1) = ((fst (kv_view (sm f)))(k := None), snd (kv_view (sm f)))"
      "kv_view (sm t1) = ((fst (kv_view (sm t)))(k \<mapsto> v), snd (kv_view (sm t)))"
      "unat (lastIndex (nlog f1)) = unat (lastIndex (nlog f)) + 1" "unat (lastIndex (nlog t1)) = unat (lastIndex (nlog t)) + 1"
      by (rule migrateKey_moves[OF Cons.prems(1-6) room k])
    let ?m = "setNode fromId f1 (setNode toId t1 m)"
    note mv = movable_after[OF s(5), of toId _ fromId t1 m]
    have ms: "smGroups ?m fromId = Some f1" "smGroups ?m toId = Some t1" using Cons.prems(3) by (simp_all add: setNode_def)
    obtain f' t' where IH: "migrateLoop (\<lambda>g. g) fromId toId ks (c + 1) ?m =
        (Inr (c + 1 + card {k' \<in> set ks. movable toId k' ?m f1}), setNode fromId f' (setNode toId t' ?m))"
      "fst (kv_view (sm f')) = (\<lambda>k'. if k' \<in> set ks \<and> movable toId k' ?m f1 then None else fst (kv_view (sm f1)) k')"
      "fst (kv_view (sm t')) = (\<lambda>k'. if k' \<in> set ks \<and> movable toId k' ?m f1 then fst (kv_view (sm f1)) k' else fst (kv_view (sm t1)) k')"
      using Cons.IH[OF ms Cons.prems(3) s(2,3,4), of "c + 1"] Cons.prems(7,8) s(7,8) by auto
    have "card {k' \<in> set (k # ks). movable toId k' m f} = 1 + card {k' \<in> set ks. movable toId k' ?m f1}"
      by (rule card_movable_Cons[OF True mv])
    moreover have "setNode fromId f' (setNode toId t' ?m) = setNode fromId f' (setNode toId t' m)"
      using Cons.prems(3) by (simp add: setNode_def fun_upd_twist)
    moreover have "fst (kv_view (sm f)) k = Some v" using k(2) by (simp add: KvStore_get_def kv_view_def)
    ultimately show ?thesis
      using IH s(1,5,6) True mv by (intro exI[of _ f'] exI[of _ t']) (auto simp: fun_eq_iff)
  qed
qed


definition demo_giver :: RaftNode where
  "demo_giver = demo_single\<lparr>sm := \<lparr>kv_data = [([5], [6])], kv_lastSeq = []\<rparr>\<rparr>"

definition demo_manager :: ShardManager where
  "demo_manager = \<lparr>smRing = HashRing_addShard 2 (HashRing_new 1), smGroups = [1 \<mapsto> demo_giver, 2 \<mapsto> demo_single]\<rparr>"

lemma demo_giver_alone: "alone demo_giver" "lastIndex (nlog demo_giver) = 0" "kv_inv (sm demo_giver)"
  "fst (kv_view (sm demo_giver)) = [[5] \<mapsto> [6]]" "KvStore_get [5] (sm demo_giver) = Some [6]"
  using demo_single_alone
  by (simp_all add: alone_def demo_giver_def progress_ok_def kv_inv_def kv_view_def KvStore_get_def)

lemma demo_manager_owner: "ShardManager_shardFor k demo_manager = 2"
  by (simp add: ShardManager_shardFor_def demo_manager_def HashRing_shardFor_def HashRing_addShard_def HashRing_new_def
      lowerBound_def)


text \<open>
  The count of \<open>migrateRange\<close> does not say that a key left the giving shard: when the giving group
  has lost its leadership by the time the put is applied, the delete is not proposed and the key is
  counted all the same, with its value in both groups.
\<close>

lemma migrate_counts_undeleted:
  assumes g: "smGroups m fromId = Some f" "smGroups m toId = Some t" "fromId \<noteq> toId"
    and n: "alone t" "kv_inv (sm f)" "unat (lastIndex (nlog t)) + 1 < 2 ^ 64"
    and k: "ShardManager_shardFor k m = toId" "KvStore_get k (sm f) = Some v"
    and lost: "\<And>gs. others gs = gs(fromId \<mapsto> f\<lparr>role := Follower\<rparr>)"
  obtains f' t' where "migrateKey others fromId toId k m = (Inr True, setNode fromId f' (setNode toId t' m))"
    "KvStore_get k (sm f') = Some v" "KvStore_get k (sm t') = Some v"
proof -
  have ok: "command_ok (putCommand k v)"
    using kv_inv_short[OF n(2) k(2)] by (simp add: command_ok_def putCommand_def)
  obtain r out t' where t: "propose (KvCommand_encode (putCommand k v)) Command t = (Inr r, t')" "pr_isLeader r"
      "waitApplied (pr_index r) [] t' = (True, out)"
      "spec_apply (putCommand k v) (kv_view (sm t)) = (out, kv_view (sm t'))"
    by (rule write_alone[OF n(1,3) ok])
  have "migrateKey others fromId toId k m = (Inr True, setNode fromId (f\<lparr>role := Follower\<rparr>) (setNode toId t' m))"
    using g k t(1-3)
    by (simp add: migrateKey_def ShardManager_group_def setNode_def groupNode_def waits_def Let_def propose_def lost)
  moreover have "KvStore_get k (sm t') = Some v"
    using t(4) by (auto simp: spec_apply_putCommand KvStore_get_def kv_view_def dest!: fun_cong[of _ _ k])
  ultimately show thesis using that k(2) by simp
qed

end
