(* ===== verification/Wire.thy ===== *)
theory Wire
  imports Buffer
begin

text \<open>
  The wire framing of \<^verbatim>\<open>net/wire.h\<close>: a type byte, a big-endian length and the payload. A socket is
  seen from the two system calls the code makes. \<^verbatim>\<open>recv\<close> returns a piece of what has arrived:
  the incoming side is the list of pieces, in the order they arrive, and a piece that is empty
  or missing is a call that returned no bytes (end of stream or error). \<^verbatim>\<open>send\<close> takes as many bytes as the
  kernel has room for: the outgoing side is the bytes sent so far, and a list of numbers says
  how much each call takes, 0 for a call that fails.
\<close>

section \<open>Message types\<close>

datatype WireType =
    WRequestVoteReq | WRequestVoteResp | WAppendEntriesReq | WAppendEntriesResp
  | WInstallSnapshotReq | WInstallSnapshotResp | WClientRequest | WClientResponse | WOther u8

fun wireByte :: "WireType \<Rightarrow> u8" where
  "wireByte WRequestVoteReq = 1"
| "wireByte WRequestVoteResp = 2"
| "wireByte WAppendEntriesReq = 3"
| "wireByte WAppendEntriesResp = 4"
| "wireByte WInstallSnapshotReq = 5"
| "wireByte WInstallSnapshotResp = 6"
| "wireByte WClientRequest = 10"
| "wireByte WClientResponse = 11"
| "wireByte (WOther b) = b"

definition toWireType :: "u8 \<Rightarrow> WireType" where
  "toWireType b =
     (if b = 1 then WRequestVoteReq else if b = 2 then WRequestVoteResp
      else if b = 3 then WAppendEntriesReq else if b = 4 then WAppendEntriesResp
      else if b = 5 then WInstallSnapshotReq else if b = 6 then WInstallSnapshotResp
      else if b = 10 then WClientRequest else if b = 11 then WClientResponse else WOther b)"

lemma wireByte_toWireType [simp]: "wireByte (toWireType b) = b"
  by (simp add: toWireType_def)

text \<open>The named types: an enumerator of the source.\<close>

definition named_type :: "WireType \<Rightarrow> bool" where
  "named_type t \<longleftrightarrow> (\<forall>b. t \<noteq> WOther b)"

lemma toWireType_wireByte [simp]: "named_type t \<Longrightarrow> toWireType (wireByte t) = t"
  by (cases t) (simp_all add: toWireType_def named_type_def)

lemma named_types [simp]:
  "named_type WRequestVoteReq" "named_type WRequestVoteResp" "named_type WAppendEntriesReq"
  "named_type WAppendEntriesResp" "named_type WInstallSnapshotReq" "named_type WInstallSnapshotResp"
  "named_type WClientRequest" "named_type WClientResponse"
  by (simp_all add: named_type_def)

section \<open>Sending\<close>

text \<open>The loop of \<open>writeAll\<close>: whether it succeeded, the kernel's later answers and the bytes sent.\<close>

fun writeAll :: "nat list \<Rightarrow> bytes \<Rightarrow> bytes \<Rightarrow> bool \<times> nat list \<times> bytes" where
  "writeAll room [] out = (True, room, out)"
| "writeAll [] (b # bs) out = (False, [], out)"
| "writeAll (n # room) (b # bs) out =
     (if n = 0 then (False, room, out)
      else writeAll room (drop n (b # bs)) (out @ take n (b # bs)))"

definition frameHeader :: "WireType \<Rightarrow> bytes \<Rightarrow> bytes" where
  "frameHeader type payload =
     (let len = of_nat (length payload) :: u32 in
      [wireByte type, ucast (drop_bit 24 len AND 0xFF), ucast (drop_bit 16 len AND 0xFF),
       ucast (drop_bit 8 len AND 0xFF), ucast (len AND 0xFF)])"

definition writeFrame :: "nat list \<Rightarrow> WireType \<Rightarrow> bytes \<Rightarrow> bytes \<Rightarrow> bool \<times> nat list \<times> bytes" where
  "writeFrame room type payload out =
     (case writeAll room (frameHeader type payload) out of
        (False, room, out) \<Rightarrow> (False, room, out)
      | (True, room, out) \<Rightarrow> writeAll room payload out)"

section \<open>Receiving\<close>

text \<open>One call of \<^verbatim>\<open>recv\<close> with room for \<open>n\<close> bytes.\<close>

fun recv :: "nat \<Rightarrow> bytes list \<Rightarrow> bytes \<times> bytes list" where
  "recv n [] = ([], [])"
| "recv n (s # ss) = (take n s, if length s \<le> n then ss else drop n s # ss)"

text \<open>The loop of \<open>readExact\<close>: \<open>buf\<close> are the bytes got so far.\<close>

function readExact :: "nat \<Rightarrow> bytes \<Rightarrow> bytes list \<Rightarrow> bytes option \<times> bytes list" where
  "readExact len buf ss =
     (if length buf < len then
        (case recv (len - length buf) ss of
           (d, ss) \<Rightarrow> if d = [] then (None, ss) else readExact len (buf @ d) ss)
      else (Some buf, ss))"
  by pat_completeness auto
termination
proof (relation "measure (\<lambda>(len, buf, ss). len - length buf)", goal_cases)
  case (2 len buf ss d ss')
  then have "0 < length d" "length buf < len" by auto
  then show ?case by (simp add: diff_less_mono2)
qed simp

declare readExact.simps [simp del]

definition frameLen :: "bytes \<Rightarrow> u32" where
  "frameLen hdr =
     push_bit 24 (ucast (hdr ! 1)) OR push_bit 16 (ucast (hdr ! 2)) OR
     push_bit 8 (ucast (hdr ! 3)) OR ucast (hdr ! 4)"

definition readFrame :: "bytes list \<Rightarrow> (WireType \<times> bytes) option \<times> bytes list" where
  "readFrame ss =
     (case readExact 5 [] ss of
        (None, ss) \<Rightarrow> (None, ss)
      | (Some hdr, ss) \<Rightarrow>
        (let len = frameLen hdr in
         if len = 0 then (Some (toWireType (hdr ! 0), []), ss)
         else case readExact (unat len) [] ss of
             (None, ss) \<Rightarrow> (None, ss)
           | (Some payload, ss) \<Rightarrow> (Some (toWireType (hdr ! 0), payload), ss)))"

section \<open>Framing\<close>

text \<open>The bytes of a frame.\<close>

definition frame_bytes :: "WireType \<Rightarrow> bytes \<Rightarrow> bytes" where
  "frame_bytes type payload = frameHeader type payload @ payload"

lemma length_frameHeader [simp]: "length (frameHeader type payload) = 5"
  by (simp add: frameHeader_def Let_def)

lemma frameHeader_type [simp]: "frameHeader type payload ! 0 = wireByte type"
  by (simp add: frameHeader_def Let_def)

text \<open>The header is the length in little-endian bytes, read backwards.\<close>

lemma frameLen_le_val: "frameLen [t, a, b, c, d] = le_val [d, c, b, a]"
  by (simp add: frameLen_def push_bit_or or.assoc or.commute or.left_commute)

lemma frameLen_frameHeader: "frameLen (frameHeader type payload @ rest) = of_nat (length payload)"
proof -
  let ?n = "of_nat (length payload) :: u32"
  have "frameHeader type payload = wireByte type # rev (le_bytes 4 ?n)"
    by (simp add: frameHeader_def le_bytes_eval Let_def)
  moreover obtain a b c d where l: "le_bytes 4 ?n = [d, c, b, a]"
    by (simp add: le_bytes_eval)
  ultimately have "frameLen (frameHeader type payload @ rest) = le_val (le_bytes 4 ?n)"
    using frameLen_le_val[of "wireByte type" a b c d] by (simp add: frameLen_def)
  then show ?thesis by simp
qed

subsection \<open>What is sent\<close>

lemma writeAll_ok: "writeAll room bs out = (True, room', out') \<Longrightarrow> out' = out @ bs"
  by (induction room bs out rule: writeAll.induct) (auto split: if_splits)

lemma writeAll_fail:
  "writeAll room bs out = (False, room', out') \<Longrightarrow> \<exists>k < length bs. out' = out @ take k bs"
proof (induction room bs out rule: writeAll.induct)
  case (3 n room b bs out)
  show ?case
  proof (cases "n = 0")
    case False
    let ?l = "b # bs"
    from 3 False obtain k where k: "k < length (drop n ?l)" "out' = (out @ take n ?l) @ take k (drop n ?l)"
      by auto
    then have "out' = out @ take (n + k) ?l" "n + k < length ?l"
      using take_add[of n k ?l] by auto
    then show ?thesis by blast
  qed (use 3 in auto)
qed auto

lemma writeFrame_ok: "writeFrame room t p out = (True, room', out') \<Longrightarrow> out' = out @ frame_bytes t p"
  by (auto simp: writeFrame_def frame_bytes_def dest!: writeAll_ok split: prod.splits bool.splits)

text \<open>With room enough a frame is sent.\<close>

lemma writeAll_sends: "bs \<noteq> [] \<Longrightarrow> length bs \<le> n \<Longrightarrow> writeAll (n # room) bs out = (True, room, out @ bs)"
  by (cases bs) simp_all

lemma writeFrame_sends:
  assumes "p \<noteq> []" "length p \<le> n"
  shows "writeFrame (5 # n # room) t p out = (True, room, out @ frame_bytes t p)"
proof -
  have "frameHeader t p \<noteq> []" by (simp add: frameHeader_def Let_def)
  then show ?thesis
    using writeAll_sends[of "frameHeader t p" 5 "n # room" out] writeAll_sends[OF assms, of room "out @ frameHeader t p"]
    by (simp add: writeFrame_def frame_bytes_def)
qed

subsection \<open>What is received\<close>

text \<open>A call returns a first part of what is to come, and leaves the rest.\<close>

lemma recv_parts:
  assumes "recv n ss = (d, ss')" "[] \<notin> set ss" "0 < n"
  shows "concat ss = d @ concat ss'" "[] \<notin> set ss'" "length d \<le> n" "ss \<noteq> [] \<Longrightarrow> d \<noteq> []"
  using assms by (cases ss; auto split: if_splits)+

lemma readExact_gets:
  assumes "[] \<notin> set ss" "length buf \<le> len" "len \<le> length buf + length (concat ss)"
  shows "\<exists>ss'. readExact len buf ss = (Some (buf @ take (len - length buf) (concat ss)), ss') \<and>
    concat ss' = drop (len - length buf) (concat ss) \<and> [] \<notin> set ss'"
  using assms
proof (induction len buf ss rule: readExact.induct)
  case (1 len buf ss)
  show ?case
  proof (cases "length buf < len")
    case True
    obtain d ss1 where r: "recv (len - length buf) ss = (d, ss1)" by fastforce
    have ne: "ss \<noteq> []" using "1.prems"(3) True by auto
    have p: "concat ss = d @ concat ss1" "[] \<notin> set ss1" "length d \<le> len - length buf" "d \<noteq> []"
      using recv_parts[OF r "1.prems"(1)] ne True by auto
    have le: "length (buf @ d) \<le> len" "len \<le> length (buf @ d) + length (concat ss1)"
      using p(1,3) True "1.prems"(3) by simp_all
    have d: "take (len - length buf) (concat ss) = d @ take (len - length (buf @ d)) (concat ss1)"
        "drop (len - length buf) (concat ss) = drop (len - length (buf @ d)) (concat ss1)"
      using p(1,3) by simp_all
    obtain ss' where "readExact len (buf @ d) ss1 = (Some ((buf @ d) @ take (len - length (buf @ d)) (concat ss1)), ss')"
        "concat ss' = drop (len - length (buf @ d)) (concat ss1)" "[] \<notin> set ss'"
      using "1.IH"[OF True r[symmetric] p(4,2) le] by blast
    then show ?thesis
      using True r p(4) d by (simp add: readExact.simps[of len buf ss])
  next
    case False
    then show ?thesis using "1.prems" by (simp add: readExact.simps[of len buf ss])
  qed
qed

lemma readExact_torn:
  assumes "[] \<notin> set ss" "length buf + length (concat ss) < len"
  shows "fst (readExact len buf ss) = None"
  using assms
proof (induction len buf ss rule: readExact.induct)
  case (1 len buf ss)
  obtain d ss1 where r: "recv (len - length buf) ss = (d, ss1)" by fastforce
  have lt: "length buf < len" using "1.prems"(2) by simp
  note p = recv_parts[OF r "1.prems"(1)]
  show ?case
  proof (cases "d = []")
    case False
    have "fst (readExact len (buf @ d) ss1) = None"
      using "1.IH"[OF lt r[symmetric] False] p(1,2) lt "1.prems"(2) by simp
    then show ?thesis using lt r False by (simp add: readExact.simps[of len buf ss])
  qed (use lt r in \<open>simp add: readExact.simps[of len buf ss]\<close>)
qed

lemma readFrame_gets:
  assumes "[] \<notin> set ss" "concat ss = frame_bytes t p @ rest" "named_type t" "short p"
  shows "\<exists>ss'. readFrame ss = (Some (t, p), ss') \<and> concat ss' = rest \<and> [] \<notin> set ss'"
proof -
  let ?h = "frameHeader t p"
  obtain s1 where h: "readExact 5 [] ss = (Some ?h, s1)" "concat s1 = p @ rest" "[] \<notin> set s1"
    using readExact_gets[OF assms(1), of "[]" 5] assms(2) by (auto simp: frame_bytes_def)
  have len: "frameLen ?h = of_nat (length p)" using frameLen_frameHeader[of t p "[]"] by simp
  have u: "unat (frameLen ?h) = length p" using assms(4) by (simp add: len)
  show ?thesis
  proof (cases "frameLen ?h = 0")
    case True
    then have "p = []" using u by simp
    then show ?thesis using h True assms(3) by (simp add: readFrame_def Let_def)
  next
    case False
    obtain s2 where "readExact (length p) [] s1 = (Some p, s2)" "concat s2 = rest" "[] \<notin> set s2"
      using readExact_gets[OF h(3), of "[]" "length p"] h(2) by auto
    then show ?thesis using h(1) False u assms(3) by (simp add: readFrame_def Let_def)
  qed
qed

lemma readFrame_torn:
  assumes "[] \<notin> set ss" "strict_prefix (concat ss) (frame_bytes t p)" "short p"
  shows "fst (readFrame ss) = None"
proof (cases "length (concat ss) < 5")
  case True
  then show ?thesis
    using readExact_torn[OF assms(1), of "[]" 5] by (cases "readExact 5 [] ss") (simp add: readFrame_def)
next
  case False
  let ?h = "frameHeader t p"
  obtain u where u: "concat ss = ?h @ u" "strict_prefix u p"
  proof -
    from assms(2) obtain v where v: "frame_bytes t p = concat ss @ v" "v \<noteq> []"
      by (auto simp: strict_prefix_def prefix_def)
    have "take 5 (concat ss) = ?h" "p = drop 5 (concat ss) @ v"
      using False arg_cong[OF v(1), of "take 5"] arg_cong[OF v(1), of "drop 5"] by (simp_all add: frame_bytes_def)
    then show thesis
      using v(2) that[of "drop 5 (concat ss)"] by (metis append_take_drop_id strict_prefixI' neq_Nil_conv)
  qed
  obtain s1 where h: "readExact 5 [] ss = (Some ?h, s1)" "concat s1 = u" "[] \<notin> set s1"
    using readExact_gets[OF assms(1), of "[]" 5] u(1) by auto
  have len: "unat (frameLen ?h) = length p" using frameLen_frameHeader[of t p "[]"] assms(3) by simp
  have lt: "length u < length p" using u(2) by (rule prefix_length_less)
  then have "frameLen ?h \<noteq> 0" using len by auto
  moreover have "fst (readExact (length p) [] s1) = None"
    using readExact_torn[OF h(3), of "[]" "length p"] h(2) lt by simp
  ultimately show ?thesis
    using h(1) len by (cases "readExact (length p) [] s1") (simp add: readFrame_def Let_def)
qed

text \<open>
  C31. A frame survives the network: however the kernel splits the bytes of a frame when they are sent
  and whatever pieces they arrive in, the receiver reads the type and the payload that were
  sent and leaves exactly the bytes behind the frame; and a stream that ends inside the frame
  is reported as a failure.
\<close>

theorem frame_roundtrip:
  assumes "writeFrame room t p [] = (True, room', out)" "named_type t" "short p" "[] \<notin> set ss"
  shows "(concat ss = out @ rest \<longrightarrow> (\<exists>ss'. readFrame ss = (Some (t, p), ss') \<and> concat ss' = rest \<and> [] \<notin> set ss')) \<and>
    (strict_prefix (concat ss) out \<longrightarrow> fst (readFrame ss) = None)"
  using writeFrame_ok[OF assms(1)] readFrame_gets[OF assms(4) _ assms(2,3)] readFrame_torn[OF assms(4) _ assms(3)]
  by simp

theorem frame_roundtrip_witness:
  "fst (readFrame [[10], [0, 0, 0], [2, 7], [8, 1]]) = Some (WClientRequest, [7, 8]) \<and>
   fst (readFrame [[10], [0, 0, 0], [2, 7]]) = None"
proof -
  have w: "writeFrame [3, 9, 1, 1] WClientRequest [7, 8] [] = (True, [], [10, 0, 0, 0, 2, 7, 8])"
    by (simp add: writeFrame_def frameHeader_def Let_def)
  have s: "short [7, 8 :: u8]" by simp
  have "\<exists>ss'. readFrame [[10], [0, 0, 0], [2, 7], [8, 1]] = (Some (WClientRequest, [7, 8]), ss') \<and> concat ss' = [1] \<and> [] \<notin> set ss'"
    using frame_roundtrip[OF w _ s, of "[[10], [0, 0, 0], [2, 7], [8, 1]]" "[1]"] by simp
  moreover have "fst (readFrame [[10], [0, 0, 0], [2, 7]]) = None"
    using frame_roundtrip[OF w _ s, of "[[10], [0, 0, 0], [2, 7]]" "[]"] by (simp add: strict_prefix_def)
  ultimately show ?thesis by auto
qed

end
