(* ===== verification/Sys_Calls.thy ===== *)
theory Sys_Calls
  imports Prelude
begin

text \<open>
  The socket helpers of \<^verbatim>\<open>net/wire.h\<close>, \<open>setNonBlocking\<close> and \<open>connectTo\<close>, and the set-up of a listening
  socket that the two servers share. The operating system is a parameter, the record \<open>Sys\<close> over a state
  \<open>'w\<close> of the world: a call returns its result and the world after it, or only the world where the code
  ignores the result. \<open>sys_ok\<close> is what the calls are documented to do to the table of open descriptors.
\<close>

unbundle bit_operations_syntax

datatype SockOpt = SO_REUSEADDR | TCP_NODELAY

record 'w Sys =
  sysSocket :: "'w \<Rightarrow> int \<times> 'w"
  sysPton :: "bytes \<Rightarrow> int"
  sysConnect :: "int \<Rightarrow> bytes \<Rightarrow> 16 word \<Rightarrow> 'w \<Rightarrow> int \<times> 'w"
  sysOption :: "int \<Rightarrow> SockOpt \<Rightarrow> 'w \<Rightarrow> 'w"
  sysBind :: "int \<Rightarrow> 16 word \<Rightarrow> 'w \<Rightarrow> 'w"
  sysListen :: "int \<Rightarrow> int \<Rightarrow> 'w \<Rightarrow> 'w"
  sysAccept :: "int \<Rightarrow> 'w \<Rightarrow> int \<times> 'w"
  sysGetFlags :: "int \<Rightarrow> 'w \<Rightarrow> u32"
  sysSetFlags :: "int \<Rightarrow> u32 \<Rightarrow> 'w \<Rightarrow> 'w"
  sysShutdown :: "int \<Rightarrow> 'w \<Rightarrow> 'w"
  sysClose :: "int \<Rightarrow> 'w \<Rightarrow> 'w"

definition O_NONBLOCK :: u32 where
  "O_NONBLOCK = 0x800"

definition setNonBlocking :: "'w Sys \<Rightarrow> int \<Rightarrow> 'w \<Rightarrow> 'w" where
  "setNonBlocking sys fd w = sysSetFlags sys fd (sysGetFlags sys fd w OR O_NONBLOCK) w"

text \<open>The port is cut to 16 bits, as \<^verbatim>\<open>static_cast<uint16_t>\<close> does.\<close>

definition connectTo :: "'w Sys \<Rightarrow> bytes \<Rightarrow> int \<Rightarrow> 'w \<Rightarrow> int \<times> 'w" where
  "connectTo sys host port w =
     (case sysSocket sys w of (fd, w) \<Rightarrow>
      if fd < 0 then (-1, w)
      else if sysPton sys host \<le> 0 then (-1, sysClose sys fd w)
      else (case sysConnect sys fd host (word_of_int port) w of (r, w) \<Rightarrow>
        if r < 0 then (-1, sysClose sys fd w)
        else (fd, sysOption sys fd TCP_NODELAY w)))"

text \<open>The first calls of the servers' \<open>start\<close>: neither looks at the results of \<^verbatim>\<open>bind\<close> and \<^verbatim>\<open>listen\<close>.\<close>

definition listenOn :: "'w Sys \<Rightarrow> int \<Rightarrow> int \<Rightarrow> 'w \<Rightarrow> int \<times> 'w" where
  "listenOn sys port backlog w =
     (case sysSocket sys w of (fd, w) \<Rightarrow>
      (fd, sysListen sys fd backlog (sysBind sys fd (word_of_int port) (sysOption sys fd SO_REUSEADDR w))))"

section \<open>Open descriptors\<close>

text \<open>\<open>opens w\<close> are the descriptors that are open in the world \<open>w\<close>.\<close>

definition opens_fresh :: "('w \<Rightarrow> int set) \<Rightarrow> ('w \<Rightarrow> int \<times> 'w) \<Rightarrow> bool" where
  "opens_fresh opens call \<longleftrightarrow> (\<forall>w fd w'. call w = (fd, w') \<longrightarrow>
     (if fd < 0 then opens w' = opens w else fd \<notin> opens w \<and> opens w' = insert fd (opens w)))"

definition sys_ok :: "'w Sys \<Rightarrow> ('w \<Rightarrow> int set) \<Rightarrow> bool" where
  "sys_ok sys opens \<longleftrightarrow> opens_fresh opens (sysSocket sys) \<and>
     (\<forall>fd host port w. opens (snd (sysConnect sys fd host port w)) = opens w) \<and>
     (\<forall>fd opt w. opens (sysOption sys fd opt w) = opens w) \<and>
     (\<forall>fd w. opens (sysClose sys fd w) = opens w - {fd})"

text \<open>\<open>connectTo\<close> opens the descriptor it returns, and none when it fails.\<close>

lemma connectTo_fresh:
  assumes "sys_ok sys opens"
  shows "opens_fresh opens (connectTo sys host port)"
proof -
  have "if fd < 0 then opens w' = opens w else fd \<notin> opens w \<and> opens w' = insert fd (opens w)"
    if "connectTo sys host port w = (fd, w')" for w fd w'
  proof -
    obtain s w1 where s: "sysSocket sys w = (s, w1)" by fastforce
    have o: "if s < 0 then opens w1 = opens w else s \<notin> opens w \<and> opens w1 = insert s (opens w)"
      using assms s by (auto simp: sys_ok_def opens_fresh_def)
    obtain r w2 where c: "sysConnect sys s host (word_of_int port) w1 = (r, w2)" by fastforce
    have "opens w2 = opens w1" using assms c by (metis sys_ok_def snd_conv)
    then show ?thesis
      using that s o c assms by (auto simp: connectTo_def sys_ok_def split: if_splits)
  qed
  then show ?thesis by (simp add: opens_fresh_def)
qed

text \<open>A system whose state is the list of open descriptors; a new one is above them all.\<close>

definition demo_sys :: "int list Sys" where
  "demo_sys = \<lparr>sysSocket = (\<lambda>w. (fold max w 2 + 1, (fold max w 2 + 1) # w)), sysPton = (\<lambda>_. 1),
     sysConnect = (\<lambda>_ _ _ w. (0, w)), sysOption = (\<lambda>_ _ w. w), sysBind = (\<lambda>_ _ w. w), sysListen = (\<lambda>_ _ w. w),
     sysAccept = (\<lambda>_ w. (-1, w)), sysGetFlags = (\<lambda>_ _. 2), sysSetFlags = (\<lambda>_ _ w. w), sysShutdown = (\<lambda>_ w. w),
     sysClose = removeAll\<rparr>"

lemma demo_sys_ok: "sys_ok demo_sys set"
proof -
  have mx: "x \<in> set w \<Longrightarrow> x \<le> fold max w (a :: int)" and ge: "a \<le> fold max w a" for x w a
    by (induction w arbitrary: a x) (auto intro: order_trans[OF max.cobounded1] order_trans[OF max.cobounded2])
  have "fold max w 2 + 1 \<notin> set w" "\<not> fold max w 2 + 1 < (0 :: int)" for w
    using mx[of "fold max w 2 + 1" w 2] ge[of 2 w] by auto
  then show ?thesis by (simp add: sys_ok_def opens_fresh_def demo_sys_def)
qed

end
