(* ===== verification/Event_Loop.thy ===== *)
theory Event_Loop
  imports Sys_Calls
begin

text \<open>
  The event loop of \<^verbatim>\<open>net/event_loop.h\<close>, with its branches for epoll and for kqueue. A loop is the list of
  the descriptors registered with the kernel. The kernel answers a wait with descriptors and their event flags, or
  with an error; that answer is an argument, and \<open>epoll_ok\<close> is what is documented of it. Registering and removing
  do the same in both branches; a wait differs in its flags and in how it gives the timeout.
\<close>

type_synonym EventLoop = "int list"

definition EventLoop_new :: EventLoop where
  "EventLoop_new = []"

text \<open>
  \<^verbatim>\<open>EPOLL_CTL_ADD\<close> of a descriptor that is registered fails and changes nothing, and the code ignores the
  error; \<^verbatim>\<open>EV_ADD\<close> of one does not register it twice.
\<close>

definition addRead :: "int \<Rightarrow> EventLoop \<Rightarrow> EventLoop" where
  "addRead watchFd loop = (if watchFd \<in> set loop then loop else watchFd # loop)"

definition EventLoop_remove :: "int \<Rightarrow> EventLoop \<Rightarrow> EventLoop" where
  "EventLoop_remove watchFd loop = removeAll watchFd loop"

definition EPOLLERR :: u32 where
  "EPOLLERR = 0x008"

definition EPOLLHUP :: u32 where
  "EPOLLHUP = 0x010"

text \<open>\<open>None\<close> is the result \<^verbatim>\<open>-1\<close> of \<^verbatim>\<open>epoll_wait\<close>, for which the loop over the events does nothing.\<close>

definition EventLoop_wait :: "(u32 \<times> int) list option \<Rightarrow> (int \<times> bool) list" where
  "EventLoop_wait answer = (case answer of
     None \<Rightarrow> []
   | Some events \<Rightarrow> map (\<lambda>(flags, fd). (fd, flags AND (EPOLLHUP OR EPOLLERR) \<noteq> 0)) events)"

text \<open>
  The kqueue branch: its end-of-file flag, the timeout in seconds and nanoseconds, and the wait. The only
  caller asks for 200 milliseconds, so that the division is one of a number that is not negative.
\<close>

definition EV_EOF :: "16 word" where
  "EV_EOF = 0x8000"

definition kqueueTimeout :: "int \<Rightarrow> int \<times> int" where
  "kqueueTimeout timeoutMs = (timeoutMs div 1000, (timeoutMs mod 1000) * 1000000)"

definition EventLoop_wait_kqueue :: "(16 word \<times> int) list option \<Rightarrow> (int \<times> bool) list" where
  "EventLoop_wait_kqueue answer = (case answer of
     None \<Rightarrow> []
   | Some events \<Rightarrow> map (\<lambda>(flags, ident). (ident, flags AND EV_EOF \<noteq> 0)) events)"

definition EventLoop_close :: "'w Sys \<Rightarrow> int \<Rightarrow> 'w \<Rightarrow> 'w" where
  "EventLoop_close sys fd w = (if fd \<ge> 0 then sysClose sys fd w else w)"

definition epoll_ok :: "EventLoop \<Rightarrow> (u32 \<times> int) list option \<Rightarrow> bool" where
  "epoll_ok loop answer = (case answer of
     None \<Rightarrow> True
   | Some events \<Rightarrow> length events \<le> 256 \<and> distinct (map snd events) \<and> set (map snd events) \<subseteq> set loop)"

section \<open>Lemmas\<close>

lemma addRead_new [simp]: "fd \<notin> set loop \<Longrightarrow> addRead fd loop = fd # loop"
  by (simp add: addRead_def)

text \<open>The timeout is the one asked for, with its nanoseconds in range.\<close>

lemma kqueueTimeout_exact:
  assumes "0 \<le> timeoutMs" "kqueueTimeout timeoutMs = (sec, nsec)"
  shows "sec * 10 ^ 9 + nsec = timeoutMs * 10 ^ 6" "0 \<le> sec" "0 \<le> nsec" "nsec < 10 ^ 9"
proof -
  have e: "sec = timeoutMs div 1000" "nsec = (timeoutMs mod 1000) * 1000000" using assms(2) by (simp_all add: kqueueTimeout_def)
  show "sec * 10 ^ 9 + nsec = timeoutMs * 10 ^ 6" "0 \<le> sec" "0 \<le> nsec" "nsec < 10 ^ 9"
    using assms(1) unfolding e by simp_all presburger+
qed

text \<open>The branches find the same descriptors ready and hung up when the kernels report the same events.\<close>

lemma EventLoop_wait_branches:
  assumes "list_all2 (\<lambda>(f, fd) (g, i). fd = i \<and> (f AND (EPOLLHUP OR EPOLLERR) \<noteq> 0 \<longleftrightarrow> g AND EV_EOF \<noteq> 0)) es ks"
  shows "EventLoop_wait (Some es) = EventLoop_wait_kqueue (Some ks)"
  using assms by (induction rule: list_all2_induct) (auto simp: EventLoop_wait_def EventLoop_wait_kqueue_def)

lemma EventLoop_wait_fds:
  assumes "epoll_ok loop answer"
  shows "distinct (map fst (EventLoop_wait answer)) \<and> set (map fst (EventLoop_wait answer)) \<subseteq> set loop"
proof (cases answer)
  case (Some events)
  have "map fst (EventLoop_wait answer) = map snd events" by (auto simp: EventLoop_wait_def Some)
  then show ?thesis using assms by (simp add: epoll_ok_def Some)
qed (simp add: EventLoop_wait_def)

end
