(* ===== verification/Kv_Server.thy ===== *)
theory Kv_Server
  imports Shard_Manager Wire Event_Loop Sys_Calls
begin

text \<open>
  The client-facing server of \<^verbatim>\<open>server/kv_server.h\<close>: the requests a frame can hold and their answers
  (\<open>dispatch\<close>), the input buffer of a connection and the loop that serves its complete frames
  (\<open>handleReadable\<close>), and the connections of the worker loops (\<open>acceptConn\<close>, \<open>closeConn\<close>). What
  \<^verbatim>\<open>recv\<close> returns when a connection is readable is an argument: the pieces it returns one after
  another, and whether the calls end with \<^verbatim>\<open>EAGAIN\<close> or with the end of the stream. As in
  \<open>Shard_Manager\<close>, \<open>others\<close> is what the rest of the system does to the groups during one wait.
\<close>

section \<open>Answering a request\<close>

definition response :: "u8 \<Rightarrow> bytes \<Rightarrow> bytes \<Rightarrow> bytes" where
  "response status hint val = putBytes val (putBytes hint (putU8 status []))"

definition addrOf :: "RaftNode \<Rightarrow> bytes" where
  "addrOf n = (case find (\<lambda>p. fst p = leaderId n) (addresses (config n)) of None \<Rightarrow> [] | Some p \<Rightarrow> snd p)"

definition dispatchGet :: "(Groups \<Rightarrow> Groups) \<Rightarrow> u32 \<Rightarrow> bytes \<Rightarrow> RaftNode \<Rightarrow> ShardManager \<Rightarrow> bytes result \<times> ShardManager" where
  "dispatchGet others i k n m =
     (if role n \<noteq> Leader then (Inr (response 2 (addrOf n) []), m)
      else
        (case readBarrier_begin n of (target, n) \<Rightarrow>
          (let m = waits others (setNode i n m);
               n = groupNode i n m
           in if \<not> readBarrier_end target n then (Inr (response 2 (addrOf n) []), m)
              else (case KvStore_get k (sm n) of
                  Some val \<Rightarrow> (Inr (response 0 [] val), m)
                | None \<Rightarrow> (Inr (response 1 [] []), m)))))"

definition getWrite :: "Reader \<Rightarrow> (bytes \<times> bytes \<times> u64 \<times> u64) result" where
  "getWrite r = rbind (getBytes r) (\<lambda>(val, r). rbind (getBytes r) (\<lambda>(ex, r).
     rbind (getU64 r) (\<lambda>(c, r). rbind (getU64 r) (\<lambda>(q, r). Inr (val, ex, c, q)))))"

definition writeCommand :: "u8 \<Rightarrow> bytes \<Rightarrow> bytes \<times> bytes \<times> u64 \<times> u64 \<Rightarrow> KvCommand" where
  "writeCommand opb k = (\<lambda>(val, ex, c, q).
     \<lparr>op = if opb = 1 then Put else if opb = 2 then Del else Cas,
      key = k, value = val, expect = ex, clientId = c, requestSeq = q\<rparr>)"

definition dispatchWrite :: "(Groups \<Rightarrow> Groups) \<Rightarrow> u32 \<Rightarrow> KvCommand \<Rightarrow> RaftNode \<Rightarrow> ShardManager \<Rightarrow> bytes result \<times> ShardManager" where
  "dispatchWrite others i cmd n m =
     (case propose (KvCommand_encode cmd) Command n of
        (Inl e, n) \<Rightarrow> (Inl e, setNode i n m)
      | (Inr pr, n) \<Rightarrow>
        (let m = setNode i n m
         in if \<not> pr_isLeader pr then (Inr (response 2 (addrOf n) []), m)
            else
              let m = waits others m;
                  (applied, result) = waitApplied (pr_index pr) [] (groupNode i n m)
              in if \<not> applied then (Inr (response 4 [] []), m)
                 else if result = str ''CAS_MISMATCH'' then (Inr (response 3 [] []), m)
                 else (Inr (response 0 [] result), m)))"

definition dispatch :: "(Groups \<Rightarrow> Groups) \<Rightarrow> bytes \<Rightarrow> ShardManager \<Rightarrow> bytes result \<times> ShardManager" where
  "dispatch others frm m =
     (case rbind (getU8 (mkReader frm)) (\<lambda>(opb, r). rbind (getBytes r) (\<lambda>(k, r). Inr (opb, k, r))) of
        Inl e \<Rightarrow> (Inl e, m)
      | Inr (opb, k, r) \<Rightarrow>
        (let shardId = ShardManager_shardFor k m
         in case ShardManager_group shardId m of
              None \<Rightarrow> (Inr (response 2 [] []), m)
            | Some n \<Rightarrow>
              if opb = 0 then dispatchGet others shardId k n m
              else (case getWrite r of
                  Inl e \<Rightarrow> (Inl e, m)
                | Inr w \<Rightarrow> dispatchWrite others shardId (writeCommand opb k w) n m)))"

section \<open>Serving a connection\<close>

text \<open>
  The next complete frame of an input buffer and the rest. The sum \<^verbatim>\<open>5 + len\<close> of the code is
  of the type of \<open>len\<close>, 32 bits wide.
\<close>

definition nextFrame :: "bytes \<Rightarrow> (bytes \<times> bytes) option" where
  "nextFrame inb =
     (if length inb < 5 then None
      else
        let len = frameLen inb
        in if length inb < unat (5 + len) then None
           else Some (take (unat len) (drop 5 inb), drop (unat (5 + len)) inb))"

text \<open>
  The loop over the complete frames, with the kernel's room for what is sent, the input buffer and
  the bytes sent. The code ignores whether a response could be written. A loop that does not end
  is \<^term>\<open>None\<close>.
\<close>

partial_function (option) drain ::
  "(Groups \<Rightarrow> Groups) \<Rightarrow> nat list \<Rightarrow> bytes \<Rightarrow> bytes \<Rightarrow> ShardManager \<Rightarrow> (unit result \<times> nat list \<times> bytes \<times> bytes \<times> ShardManager) option"
  where
  "drain others room inb out m =
     (case nextFrame inb of
        None \<Rightarrow> Some (Inr (), room, inb, out, m)
      | Some (frm, rest) \<Rightarrow>
        (case dispatch others frm m of
           (Inl e, m) \<Rightarrow> Some (Inl e, room, rest, out, m)
         | (Inr resp, m) \<Rightarrow>
           (case writeFrame room WClientResponse resp out of
              (sent, room, out) \<Rightarrow> drain others room rest out m)))"

text \<open>
  The loop over \<^verbatim>\<open>recv\<close>: \<^term>\<open>None\<close> when the connection ended. A piece has at most the 65536 bytes
  of the code's buffer; nothing below depends on that bound.
\<close>

fun recvLoop :: "bytes list \<Rightarrow> bool \<Rightarrow> bytes \<Rightarrow> bytes option" where
  "recvLoop [] again inb = (if again then Some inb else None)"
| "recvLoop (p # ps) again inb = (if p = [] then None else recvLoop ps again (inb @ p))"

record ConnState =
  inbuf :: bytes

text \<open>The sending side of a socket: the room the kernel finds for each send, and the bytes sent.\<close>

record Socket =
  sockRoom :: "nat list"
  sockOut :: bytes

text \<open>\<open>svLoops\<close> are the event loops of the workers, \<open>svNext\<close> the counter \<^verbatim>\<open>rr\<close> of the accept loop.\<close>

record KvServer =
  svPort :: int
  svWorkers :: nat
  svListen :: int
  svRunning :: bool
  svShards :: ShardManager
  svConns :: "int \<rightharpoonup> ConnState"
  svSocks :: "int \<Rightarrow> Socket"
  svLoops :: "EventLoop list"
  svNext :: nat

definition KvServer_new :: "int \<Rightarrow> ShardManager \<Rightarrow> nat \<Rightarrow> (int \<Rightarrow> Socket) \<Rightarrow> KvServer" where
  "KvServer_new port m numWorkers socks =
     \<lparr>svPort = port, svWorkers = numWorkers, svListen = -1, svRunning = True, svShards = m, svConns = Map.empty,
       svSocks = socks, svLoops = [], svNext = 0\<rparr>"

text \<open>The loop of \<open>start\<close> that makes the event loops.\<close>

definition startWorkers :: "KvServer \<Rightarrow> KvServer" where
  "startWorkers sv = sv\<lparr>svLoops := svLoops sv @ replicate (svWorkers sv) EventLoop_new\<rparr>"

definition KvServer_start :: "'w Sys \<Rightarrow> KvServer \<Rightarrow> 'w \<Rightarrow> KvServer \<times> 'w" where
  "KvServer_start sys sv w =
     (case listenOn sys (svPort sv) 1024 w of (fd, w) \<Rightarrow> (startWorkers (sv\<lparr>svListen := fd\<rparr>), setNonBlocking sys fd w))"

definition KvServer_stop :: "'w Sys \<Rightarrow> KvServer \<Rightarrow> 'w \<Rightarrow> KvServer \<times> 'w" where
  "KvServer_stop sys sv w =
     (sv\<lparr>svRunning := False\<rparr>, if svListen sv \<ge> 0 then sysClose sys (svListen sv) w else w)"

definition acceptConn :: "int \<Rightarrow> KvServer \<Rightarrow> KvServer" where
  "acceptConn fd sv =
     (let i = svNext sv mod length (svLoops sv)
      in sv\<lparr>svConns := (svConns sv)(fd \<mapsto> \<lparr>inbuf = []\<rparr>),
            svLoops := (svLoops sv)[i := addRead fd (svLoops sv ! i)],
            svNext := svNext sv + 1\<rparr>)"

text \<open>
  One round of the accept loop: whether it goes on, the server and the world. \<open>others\<close> is what the other
  threads do during the call of \<^verbatim>\<open>accept\<close>.
\<close>

definition acceptRound :: "'w Sys \<Rightarrow> (KvServer \<Rightarrow> KvServer) \<Rightarrow> KvServer \<Rightarrow> 'w \<Rightarrow> bool \<times> KvServer \<times> 'w" where
  "acceptRound sys others sv w =
     (if \<not> svRunning sv then (False, sv, w)
      else (case sysAccept sys (svListen sv) w of (fd, w) \<Rightarrow>
        let sv = others sv in
        if fd < 0 then (svRunning sv, sv, w) else (True, acceptConn fd sv, setNonBlocking sys fd w)))"

definition closeConn :: "nat \<Rightarrow> int \<Rightarrow> KvServer \<Rightarrow> KvServer" where
  "closeConn i fd sv =
     sv\<lparr>svLoops := (svLoops sv)[i := EventLoop_remove fd (svLoops sv ! i)],
        svConns := (svConns sv)(fd := None)\<rparr>"

definition connState :: "int \<Rightarrow> KvServer \<Rightarrow> ConnState" where
  "connState fd sv = (case svConns sv fd of None \<Rightarrow> \<lparr>inbuf = []\<rparr> | Some c \<Rightarrow> c)"

definition handleReadable ::
  "(Groups \<Rightarrow> Groups) \<Rightarrow> nat \<Rightarrow> int \<Rightarrow> bytes list \<Rightarrow> bool \<Rightarrow> KvServer \<Rightarrow> (unit result \<times> KvServer) option" where
  "handleReadable others i fd pieces again sv =
     (case recvLoop pieces again (inbuf (connState fd sv)) of
        None \<Rightarrow> Some (Inr (), closeConn i fd sv)
      | Some inb \<Rightarrow>
        (case drain others (sockRoom (svSocks sv fd)) inb (sockOut (svSocks sv fd)) (svShards sv) of
           None \<Rightarrow> None
         | Some (res, room, inb, out, m) \<Rightarrow>
           Some (res, sv\<lparr>svShards := m, svConns := (svConns sv)(fd \<mapsto> \<lparr>inbuf = inb\<rparr>),
             svSocks := (svSocks sv)(fd := \<lparr>sockRoom = room, sockOut = out\<rparr>)\<rparr>)))"

text \<open>
  One round of a worker: the loop over the descriptors that \<^verbatim>\<open>wait\<close> found ready, and the round itself on
  the kernel's answer to the wait. \<open>recvs\<close> is what \<^verbatim>\<open>recv\<close> returns for each descriptor.
\<close>

fun readyLoop ::
  "(Groups \<Rightarrow> Groups) \<Rightarrow> nat \<Rightarrow> (int \<Rightarrow> bytes list \<times> bool) \<Rightarrow> (int \<times> bool) list \<Rightarrow> KvServer \<Rightarrow> (unit result \<times> KvServer) option" where
  "readyLoop others i recvs [] sv = Some (Inr (), sv)"
| "readyLoop others i recvs ((fd, hup) # ready) sv =
     (if hup then readyLoop others i recvs ready (closeConn i fd sv)
      else (case handleReadable others i fd (fst (recvs fd)) (snd (recvs fd)) sv of
          None \<Rightarrow> None
        | Some (Inl e, sv) \<Rightarrow> Some (Inl e, sv)
        | Some (Inr _, sv) \<Rightarrow> readyLoop others i recvs ready sv))"

definition workerRound ::
  "(Groups \<Rightarrow> Groups) \<Rightarrow> nat \<Rightarrow> (int \<Rightarrow> bytes list \<times> bool) \<Rightarrow> (u32 \<times> int) list option \<Rightarrow> KvServer \<Rightarrow> (unit result \<times> KvServer) option" where
  "workerRound others i recvs answer sv = readyLoop others i recvs (EventLoop_wait answer) sv"

section \<open>Frames of a connection\<close>

lemma nextFrame_frame:
  assumes "length p + 5 < 2 ^ 32"
  shows "nextFrame (frame_bytes t p @ rest) = Some (p, rest)"
proof -
  have len: "frameLen (frame_bytes t p @ rest) = of_nat (length p)"
    using frameLen_frameHeader[of t p "p @ rest"] by (simp add: frame_bytes_def)
  have "short p" using assms by simp
  then have u: "unat (of_nat (length p) :: u32) = length p" by (rule unat_length_short)
  then have "unat (5 + of_nat (length p) :: u32) = 5 + length p"
    using assms unat_add_lem[of 5 "of_nat (length p) :: u32"] by simp
  then show ?thesis
    by (simp add: nextFrame_def len u Let_def) (simp add: frame_bytes_def)
qed

text \<open>Serving a list of requests one after the other: the reference for the loop over the input buffer.\<close>

fun serve :: "(Groups \<Rightarrow> Groups) \<Rightarrow> bytes list \<Rightarrow> ShardManager \<Rightarrow> bytes list result \<times> ShardManager" where
  "serve others [] m = (Inr [], m)"
| "serve others (f # fs) m =
     (case dispatch others f m of
        (Inl e, m) \<Rightarrow> (Inl e, m)
      | (Inr r, m) \<Rightarrow>
        (case serve others fs m of (Inl e, m) \<Rightarrow> (Inl e, m) | (Inr rs, m) \<Rightarrow> (Inr (r # rs), m)))"

text \<open>The kernel has room for all these responses.\<close>

fun all_sent :: "nat list \<Rightarrow> bytes list \<Rightarrow> bool" where
  "all_sent room [] = True"
| "all_sent room (r # rs) =
     (case writeFrame room WClientResponse r [] of (ok, room, out) \<Rightarrow> ok \<and> all_sent room rs)"

lemma writeAll_out: "writeAll room bs out = (ok, room', o') \<Longrightarrow> \<exists>q. o' = out @ q \<and> (\<forall>out. writeAll room bs out = (ok, room', out @ q))"
  by (induction room bs out rule: writeAll.induct) (auto split: if_splits)

lemma writeFrame_out:
  assumes "writeFrame room t p [] = (ok, room', o')"
  shows "writeFrame room t p out = (ok, room', out @ o')"
proof -
  obtain ok1 room1 o1 where h: "writeAll room (frameHeader t p) [] = (ok1, room1, o1)" by (rule prod_cases3)
  then have h': "writeAll room (frameHeader t p) out = (ok1, room1, out @ o1)" for out using writeAll_out by fastforce
  obtain ok2 room2 o2 where b: "writeAll room1 p o1 = (ok2, room2, o2)" by (rule prod_cases3)
  then have "writeAll room1 p (out @ o1) = (ok2, room2, out @ o2)" using writeAll_out[OF b] by auto
  then show ?thesis using assms h' h b by (cases ok1) (auto simp: writeFrame_def)
qed

lemma drain_frames:
  assumes "\<forall>f\<in>set fs. length f + 5 < 2 ^ 32" "nextFrame rest = None"
    and "serve others fs m = (Inr rs, m')" "all_sent room rs"
  shows "\<exists>room'. drain others room (concat (map (frame_bytes WClientRequest) fs) @ rest) out m =
    Some (Inr (), room', rest, out @ concat (map (frame_bytes WClientResponse) rs), m')"
  using assms
proof (induction fs arbitrary: room out m rs)
  case Nil
  then show ?case by (simp add: drain.simps)
next
  case (Cons f fs)
  let ?in = "concat (map (frame_bytes WClientRequest) fs) @ rest"
  obtain r m1 rs' where d: "dispatch others f m = (Inr r, m1)" "serve others fs m1 = (Inr rs', m')" "rs = r # rs'"
    using Cons.prems(3) by (auto split: prod.splits sum.splits)
  obtain ok room1 o1 where w: "writeFrame room WClientResponse r [] = (ok, room1, o1)" by (rule prod_cases3)
  then have ok: "ok" "all_sent room1 rs'" using Cons.prems(4) d(3) by auto
  then have o1: "o1 = frame_bytes WClientResponse r" using writeFrame_ok[of room WClientResponse r "[]"] w by simp
  have "drain others room (frame_bytes WClientRequest f @ ?in) out m = drain others room1 ?in (out @ o1) m1"
    using nextFrame_frame[of f WClientRequest ?in] Cons.prems(1) d(1) writeFrame_out[OF w, of out]
    by (subst drain.simps) simp
  then show ?case
    using Cons.IH[OF _ assms(2) d(2) ok(2), of "out @ o1"] Cons.prems(1) d(3) o1 by simp
qed

lemma recvLoop_gets: "[] \<notin> set ps \<Longrightarrow> recvLoop ps True inb = Some (inb @ concat ps)"
  by (induction ps arbitrary: inb) auto

lemma handleReadable_serves:
  assumes "inbuf (connState fd sv) @ concat ps = concat (map (frame_bytes WClientRequest) fs) @ rest" "[] \<notin> set ps"
    and "\<forall>f\<in>set fs. length f + 5 < 2 ^ 32" "nextFrame rest = None"
    and "serve others fs (svShards sv) = (Inr rs, m')" "all_sent (sockRoom (svSocks sv fd)) rs"
  shows "\<exists>sv'. handleReadable others i fd ps True sv = Some (Inr (), sv') \<and> svShards sv' = m' \<and>
    inbuf (connState fd sv') = rest \<and>
    sockOut (svSocks sv' fd) = sockOut (svSocks sv fd) @ concat (map (frame_bytes WClientResponse) rs) \<and>
    (\<forall>fd'. fd' \<noteq> fd \<longrightarrow> svConns sv' fd' = svConns sv fd' \<and> svSocks sv' fd' = svSocks sv fd')"
  using drain_frames[OF assms(3-6), of "sockOut (svSocks sv fd)"] recvLoop_gets[OF assms(2), of "inbuf (connState fd sv)"]
  unfolding handleReadable_def assms(1) by (auto simp: connState_def[of fd "_\<lparr>svSocks := _\<rparr>"])

text \<open>
  C26. Pipelined requests are served exactly once and in order. Whatever pieces the bytes arrive in, and
  whatever part of a request was left from an earlier call, one call of \<open>handleReadable\<close> ends; it
  serves the requests whose frames are complete one after the other, sends their responses in that
  order, and keeps the bytes of the incomplete request behind them.
\<close>

theorem pipelined_requests:
  assumes "inbuf (connState fd sv) @ concat ps = concat (map (frame_bytes WClientRequest) fs) @ rest" "[] \<notin> set ps"
    and "\<forall>f\<in>set fs. length f + 5 < 2 ^ 32" "nextFrame rest = None"
    and "serve others fs (svShards sv) = (Inr rs, m')" "all_sent (sockRoom (svSocks sv fd)) rs"
  shows "\<exists>sv'. handleReadable others i fd ps True sv = Some (Inr (), sv') \<and> svShards sv' = m' \<and>
    inbuf (connState fd sv') = rest \<and>
    sockOut (svSocks sv' fd) = sockOut (svSocks sv fd) @ concat (map (frame_bytes WClientResponse) rs) \<and>
    (\<forall>fd'. fd' \<noteq> fd \<longrightarrow> svConns sv' fd' = svConns sv fd' \<and> svSocks sv' fd' = svSocks sv fd')"
  by (rule handleReadable_serves[OF assms])

section \<open>A length that wraps\<close>

text \<open>A well-formed GET gets an answer in every state.\<close>

lemma dispatch_get_answers:
  assumes "getU8 (mkReader frm) = Inr (0, r)" "getBytes r = Inr (k, r')"
  obtains resp m' where "dispatch others frm m = (Inr resp, m')"
proof (cases "ShardManager_group (ShardManager_shardFor k m) m")
  case None
  then show thesis using assms that by (simp add: dispatch_def Let_def)
next
  case (Some n)
  then have "dispatch others frm m = dispatchGet others (ShardManager_shardFor k m) k n m"
    using assms by (simp add: dispatch_def Let_def)
  moreover have "\<exists>resp m'. dispatchGet others (ShardManager_shardFor k m) k n m = (Inr resp, m')"
    by (simp add: dispatchGet_def Let_def split: prod.splits option.splits)
  ultimately show thesis using that by auto
qed

lemma drain_repeats:
  assumes "nextFrame inb = Some (frm, inb)" "getU8 (mkReader frm) = Inr (0, r)" "getBytes r = Inr (k, r')"
  shows "drain others room inb out m = None"
proof -
  have "inb' = inb \<longrightarrow> False" if "drain others room inb' out m = Some y" for others room inb' out m y
  proof (rule drain.raw_induct[OF _ that, of "\<lambda>_ _ inb' _ _ _. inb' = inb \<longrightarrow> False"], goal_cases)
    case (1 dr others room inb' out m y)
    obtain resp m' where d: "dispatch others frm m = (Inr resp, m')" by (rule dispatch_get_answers[OF assms(2,3)])
    obtain ok room' out' where w: "writeFrame room WClientResponse resp out = (ok, room', out')" by (rule prod_cases3)
    show ?case using 1(2) 1(1)[of others room' inb out' m' y] assms(1) d w by auto
  qed
  then show ?thesis by (cases "drain others room inb out m") blast+
qed

text \<open>
  C40. The bound on a frame's length is checked with a sum that wraps at 32 bits: for the length
  \<^verbatim>\<open>0xFFFFFFFB\<close> the sum is 0, nothing is removed from the buffer, and the loop that serves the buffer
  never ends when it holds a GET.
\<close>

theorem length_wrap_never_ends:
  assumes "5 \<le> length inb" "frameLen inb = 0xFFFFFFFB"
    and "getU8 (mkReader (drop 5 inb)) = Inr (0, r)" "getBytes r = Inr (k, r')" "length inb < 2 ^ 32"
  shows "drain others room inb out m = None"
proof -
  have "take (unat (0xFFFFFFFB :: u32)) (drop 5 inb) = drop 5 inb" using assms(5) by simp
  then have "nextFrame inb = Some (drop 5 inb, inb)" using assms(1,2) by (simp add: nextFrame_def Let_def)
  from drain_repeats[OF this assms(3,4)] show ?thesis .
qed

section \<open>The server as a store\<close>

datatype Request = GetReq bytes | WriteReq KvCommand

fun request_key :: "Request \<Rightarrow> bytes" where
  "request_key (GetReq k) = k"
| "request_key (WriteReq cmd) = key cmd"

definition request_of :: "bytes \<Rightarrow> Request result" where
  "request_of frm = rbind (getU8 (mkReader frm)) (\<lambda>(opb, r). rbind (getBytes r) (\<lambda>(k, r).
     if opb = 0 then Inr (GetReq k)
     else rbind (getWrite r) (\<lambda>w. Inr (WriteReq (writeCommand opb k w)))))"

text \<open>What a request should be answered, and what it should leave, by the abstract store of its shard.\<close>

fun spec_answer :: "Request \<Rightarrow> kv_content \<Rightarrow> bytes \<times> kv_content" where
  "spec_answer (GetReq k) c = (case fst c k of Some val \<Rightarrow> response 0 [] val | None \<Rightarrow> response 1 [] [], c)"
| "spec_answer (WriteReq cmd) c =
     (let (out, c') = spec_apply cmd c
      in (if out = str ''CAS_MISMATCH'' then response 3 [] [] else response 0 [] out, c'))"

fun spec_run :: "(bytes \<Rightarrow> u32) \<Rightarrow> Request list \<Rightarrow> (u32 \<Rightarrow> kv_content) \<Rightarrow> bytes list \<times> (u32 \<Rightarrow> kv_content)" where
  "spec_run owner [] S = ([], S)"
| "spec_run owner (q # qs) S =
     (let i = owner (request_key q);
          (a, c) = spec_answer q (S i);
          (as, S') = spec_run owner qs (S(i := c))
      in (a # as, S'))"

definition shard_view :: "ShardManager \<Rightarrow> u32 \<Rightarrow> kv_content" where
  "shard_view m i = (case smGroups m i of None \<Rightarrow> (Map.empty, Map.empty) | Some n \<Rightarrow> kv_view (sm n))"

text \<open>Every key's shard is a group of one node here, with room for \<open>L\<close> more entries in its log.\<close>

definition all_alone :: "ShardManager \<Rightarrow> nat \<Rightarrow> bool" where
  "all_alone m L \<longleftrightarrow> (\<forall>k. \<exists>n. smGroups m (ShardManager_shardFor k m) = Some n \<and> alone n \<and>
     unat (lastIndex (nlog n)) + L < 2 ^ 64)"

lemma command_ok_writeCommand:
  assumes "getBytes r = Inr (k, r')" "getWrite r' = Inr w"
  shows "command_ok (writeCommand opb k w)"
  using assms
  by (auto simp: getWrite_def rbind_Inr_iff writeCommand_def command_ok_def dest!: getBytes_length)

text \<open>A read is answered from the store of a node that believes to lead and has applied what it knows as committed.\<close>

lemma dispatchGet_now:
  assumes "role n = Leader" "commitIndex n \<le> lastApplied n"
  shows "dispatchGet (\<lambda>g. g) i k n m = (Inr (fst (spec_answer (GetReq k) (kv_view (sm n)))), setNode i (broadcastAppendEntries n) m)"
proof -
  let ?b = "broadcastAppendEntries n"
  have "lastApplied ?b = lastApplied n" "sm ?b = sm n"
    using broadcastAppendEntries_sends[of n] by (auto simp: sends_def)
  then show ?thesis
    using assms
    by (simp add: dispatchGet_def readBarrier_begin_def readBarrier_end_def waits_def setNode_def groupNode_def
        KvStore_get_def kv_view_def Let_def split: option.splits)
qed

lemma dispatchWrite_alone:
  assumes "alone n" "unat (lastIndex (nlog n)) + 1 < 2 ^ 64" "command_ok cmd"
  obtains n' where "dispatchWrite (\<lambda>g. g) i cmd n m = (Inr (fst (spec_answer (WriteReq cmd) (kv_view (sm n)))), setNode i n' m)"
    "kv_view (sm n') = snd (spec_answer (WriteReq cmd) (kv_view (sm n)))" "alone n'"
    "unat (lastIndex (nlog n')) = unat (lastIndex (nlog n)) + 1"
proof -
  obtain r out n' where "propose (KvCommand_encode cmd) Command n = (Inr r, n')" "pr_isLeader r"
      "waitApplied (pr_index r) [] n' = (True, out)" "alone n'"
      "spec_apply cmd (kv_view (sm n)) = (out, kv_view (sm n'))"
      "unat (lastIndex (nlog n')) = unat (lastIndex (nlog n)) + 1"
    by (rule write_alone[OF assms])
  then show thesis
    by (intro that[of n']) (simp_all add: dispatchWrite_def setNode_def groupNode_def waits_def)
qed

lemma dispatch_alone:
  assumes "request_of frm = Inr q" "smGroups m (ShardManager_shardFor (request_key q) m) = Some n"
    and "alone n" "unat (lastIndex (nlog n)) + 1 < 2 ^ 64"
  obtains n' where "dispatch (\<lambda>g. g) frm m =
      (Inr (fst (spec_answer q (kv_view (sm n)))), setNode (ShardManager_shardFor (request_key q) m) n' m)"
    "kv_view (sm n') = snd (spec_answer q (kv_view (sm n)))" "alone n'"
    "unat (lastIndex (nlog n')) \<le> unat (lastIndex (nlog n)) + 1"
proof -
  obtain opb r k r' where p: "getU8 (mkReader frm) = Inr (opb, r)" "getBytes r = Inr (k, r')"
      "(if opb = 0 then Inr (GetReq k) else rbind (getWrite r') (\<lambda>w. Inr (WriteReq (writeCommand opb k w)))) = Inr q"
    using assms(1) by (auto simp: request_of_def rbind_Inr_iff)
  show thesis
  proof (cases "opb = 0")
    case True
    have "role n = Leader" "commitIndex n \<le> lastApplied n" using assms(3) by (simp_all add: alone_def)
    from dispatchGet_now[OF this] show thesis
      using p True assms(2,3) that[of n] broadcast_alone[OF assms(3)]
      by (auto simp: dispatch_def ShardManager_group_def Let_def)
  next
    case False
    then obtain w where w: "getWrite r' = Inr w" "q = WriteReq (writeCommand opb k w)"
      using p(3) by (auto simp: rbind_Inr_iff)
    have "key (writeCommand opb k w) = k" by (simp add: writeCommand_def split: prod.splits)
    then have "dispatch (\<lambda>g. g) frm m = dispatchWrite (\<lambda>g. g) (ShardManager_shardFor (request_key q) m) (writeCommand opb k w) n m"
      using p(1,2) w False assms(2) by (simp add: dispatch_def ShardManager_group_def Let_def)
    moreover obtain n' where "dispatchWrite (\<lambda>g. g) (ShardManager_shardFor (request_key q) m) (writeCommand opb k w) n m =
          (Inr (fst (spec_answer q (kv_view (sm n)))), setNode (ShardManager_shardFor (request_key q) m) n' m)"
        "kv_view (sm n') = snd (spec_answer q (kv_view (sm n)))" "alone n'"
        "unat (lastIndex (nlog n')) = unat (lastIndex (nlog n)) + 1"
      using dispatchWrite_alone[OF assms(3,4) command_ok_writeCommand[OF p(2) w(1)]] unfolding w(2) by metis
    ultimately show thesis by (intro that[of n']) simp_all
  qed
qed

lemma setNode_keeps:
  "ShardManager_shardFor k (setNode i n m) = ShardManager_shardFor k m"
  "shard_view (setNode i n m) = (shard_view m)(i := kv_view (sm n))"
  by (auto simp: setNode_def ShardManager_shardFor_def shard_view_def)

lemma all_alone_setNode:
  assumes "all_alone m (Suc L)" "smGroups m i = Some n" "alone n'" "unat (lastIndex (nlog n')) \<le> unat (lastIndex (nlog n)) + 1"
    and "i = ShardManager_shardFor k m"
  shows "all_alone (setNode i n' m) L"
  unfolding all_alone_def setNode_keeps
proof
  fix k'
  obtain n1 where n1: "smGroups m (ShardManager_shardFor k' m) = Some n1" "alone n1" "unat (lastIndex (nlog n1)) + Suc L < 2 ^ 64"
    using assms(1) unfolding all_alone_def by blast
  show "\<exists>n. smGroups (setNode i n' m) (ShardManager_shardFor k' m) = Some n \<and> alone n \<and> unat (lastIndex (nlog n)) + L < 2 ^ 64"
    using n1 assms(2-4) by (cases "ShardManager_shardFor k' m = i") (simp_all add: setNode_def)
qed

lemma serve_alone:
  assumes "list_all2 (\<lambda>f q. request_of f = Inr q) fs qs" "all_alone m (length fs + L)"
  shows "\<exists>m'. serve (\<lambda>g. g) fs m = (Inr (fst (spec_run (\<lambda>k. ShardManager_shardFor k m) qs (shard_view m))), m') \<and>
    shard_view m' = snd (spec_run (\<lambda>k. ShardManager_shardFor k m) qs (shard_view m)) \<and>
    all_alone m' L \<and> (\<forall>k. ShardManager_shardFor k m' = ShardManager_shardFor k m)"
  using assms
proof (induction fs qs arbitrary: m rule: list_all2_induct)
  case Nil
  then show ?case by simp
next
  case (Cons f fs q qs)
  let ?i = "ShardManager_shardFor (request_key q) m"
  obtain n where n: "smGroups m ?i = Some n" "alone n" "unat (lastIndex (nlog n)) + (length (f # fs) + L) < 2 ^ 64"
    using Cons.prems unfolding all_alone_def by blast
  have "unat (lastIndex (nlog n)) + 1 < 2 ^ 64" using n(3) by simp
  then obtain n' where d: "dispatch (\<lambda>g. g) f m = (Inr (fst (spec_answer q (kv_view (sm n)))), setNode ?i n' m)"
      "kv_view (sm n') = snd (spec_answer q (kv_view (sm n)))" "alone n'"
      "unat (lastIndex (nlog n')) \<le> unat (lastIndex (nlog n)) + 1"
    by (rule dispatch_alone[OF Cons.hyps(1) n(1,2)])
  let ?m = "setNode ?i n' m"
  have "all_alone ?m (length fs + L)"
    using Cons.prems by (intro all_alone_setNode[OF _ n(1) d(3,4) refl]) simp
  note IH = Cons.IH[OF this]
  have a: "shard_view m ?i = kv_view (sm n)" using n(1) by (simp add: shard_view_def)
  have v: "shard_view ?m = (shard_view m)(?i := snd (spec_answer q (shard_view m ?i)))"
    by (simp only: setNode_keeps d(2) a)
  obtain m' where "serve (\<lambda>g. g) fs ?m = (Inr (fst (spec_run (\<lambda>k. ShardManager_shardFor k m) qs
        ((shard_view m)(?i := snd (spec_answer q (shard_view m ?i)))))), m')"
      "shard_view m' = snd (spec_run (\<lambda>k. ShardManager_shardFor k m) qs ((shard_view m)(?i := snd (spec_answer q (shard_view m ?i)))))"
      "all_alone m' L" "\<forall>k. ShardManager_shardFor k m' = ShardManager_shardFor k m"
    using IH unfolding setNode_keeps(1) v by blast
  then show ?case
    using d(1) a by (intro exI[of _ m']) (simp add: Let_def case_prod_beta)
qed


text \<open>A PUT and a GET of the same key, as a client sends them.\<close>

definition demo_frames :: "bytes list" where
  "demo_frames = [[1, 1, 0, 0, 0, 7, 1, 0, 0, 0, 8, 0, 0, 0, 0, 42, 0, 0, 0, 0, 0, 0, 0, 1, 0, 0, 0, 0, 0, 0, 0],
     [0, 1, 0, 0, 0, 7]]"

definition demo_requests :: "Request list" where
  "demo_requests = [WriteReq (sample_put [7] [8] 42 1), GetReq [7]]"

definition demo_started :: KvServer where
  "demo_started = fst (KvServer_start demo_sys
     (KvServer_new 7100 demo_manager 4 (\<lambda>_. \<lparr>sockRoom = [20, 20, 3, 20, 20], sockOut = []\<rparr>)) [0, 1, 2])"

lemma demo_started_fields:
  "svShards demo_started = demo_manager" "svConns demo_started = Map.empty" "svLoops demo_started = replicate 4 []"
  "svSocks demo_started = (\<lambda>_. \<lparr>sockRoom = [20, 20, 3, 20, 20], sockOut = []\<rparr>)" "svNext demo_started = 0"
  by (simp_all add: demo_started_def KvServer_start_def KvServer_new_def startWorkers_def listenOn_def demo_sys_def EventLoop_new_def)

definition demo_server :: KvServer where
  "demo_server = acceptConn 5 demo_started"

lemma demo_request_of: "list_all2 (\<lambda>f q. request_of f = Inr q) demo_frames demo_requests"
  by (simp add: demo_frames_def demo_requests_def request_of_def reader_simps getWrite_def writeCommand_def sample_put_def)

lemma demo_all_alone: "L < 2 ^ 64 \<Longrightarrow> all_alone demo_manager L"
  by (simp add: all_alone_def demo_manager_owner) (simp add: demo_manager_def demo_single_alone)

lemma demo_view: "shard_view demo_manager 2 = kv_view KvStore_empty"
  by (simp add: shard_view_def demo_manager_def demo_single_alone)

lemma demo_run:
  "fst (spec_run (\<lambda>k. ShardManager_shardFor k demo_manager) demo_requests (shard_view demo_manager)) =
     [response 0 [] (str ''OK''), response 0 [] [8]]"
  by (simp add: demo_requests_def demo_manager_owner demo_view spec_apply_def
      already_applied_def kv_view_def KvStore_empty_def spec_exec_def sample_put_def Let_def str_def)

lemma demo_server_fields:
  "inbuf (connState 5 demo_server) = []" "svShards demo_server = demo_manager"
  "svSocks demo_server 5 = \<lparr>sockRoom = [20, 20, 3, 20, 20], sockOut = []\<rparr>"
  by (simp_all add: demo_server_def acceptConn_def demo_started_fields connState_def Let_def)

lemma demo_frames_fit:
  "\<forall>f\<in>set demo_frames. length f + 5 < 2 ^ 32" "concat (map (frame_bytes WClientRequest) demo_frames) \<noteq> []"
  by (simp_all add: demo_frames_def frame_bytes_def frameHeader_def Let_def)

lemma demo_sent: "all_sent [20, 20, 3, 20, 20] [response 0 [] (str ''OK''), response 0 [] [8]]"
  by (simp add: writeFrame_def frameHeader_def response_def put_append le_bytes_eval str_def Let_def)


text \<open>A request to a process that holds no group, arriving in two pieces with the start of a second one.\<close>

theorem pipelined_requests_witness:
  "\<exists>sv. handleReadable (\<lambda>g. g) 0 5 [[10, 0, 0], [0, 5, 0, 0, 0, 0, 0, 10, 0]] True
       (KvServer_new 7100 (ShardManager_new 1) 1 (\<lambda>_. \<lparr>sockRoom = [9, 9], sockOut = []\<rparr>)) = Some (Inr (), sv) \<and>
     inbuf (connState 5 sv) = [10, 0] \<and> sockOut (svSocks sv 5) = frame_bytes WClientResponse (response 2 [] [])"
proof -
  let ?sv = "KvServer_new 7100 (ShardManager_new 1) 1 (\<lambda>_. \<lparr>sockRoom = [9, 9], sockOut = []\<rparr>)"
  let ?ps = "[[10, 0, 0], [0, 5, 0, 0, 0, 0, 0, 10, 0]] :: bytes list"
  have d: "svShards ?sv = ShardManager_new 1" "svSocks ?sv 5 = \<lparr>sockRoom = [9, 9], sockOut = []\<rparr>" "inbuf (connState 5 ?sv) = []"
    by (simp_all add: KvServer_new_def connState_def)
  have "dispatch (\<lambda>g. g) [0, 0, 0, 0, 0] (ShardManager_new 1) = (Inr (response 2 [] []), ShardManager_new 1)"
    by (simp add: dispatch_def reader_simps ShardManager_new_def ShardManager_group_def Let_def)
  then have serve: "serve (\<lambda>g. g) [[0, 0, 0, 0, 0]] (svShards ?sv) = (Inr [response 2 [] []], ShardManager_new 1)"
    unfolding d by simp
  have eq: "inbuf (connState 5 ?sv) @ concat ?ps = concat (map (frame_bytes WClientRequest) [[0, 0, 0, 0, 0]]) @ [10, 0]"
    unfolding d by (simp add: frame_bytes_def frameHeader_def Let_def)
  have sent: "all_sent (sockRoom (svSocks ?sv 5)) [response 2 [] []]"
    unfolding d by (simp add: writeFrame_def frameHeader_def response_def put_append le_bytes_eval Let_def)
  have "[] \<notin> set ?ps" "\<forall>f\<in>set [[0, 0, 0, 0, 0 :: u8]]. length f + 5 < 2 ^ 32" "nextFrame [10, 0] = None"
    by (simp_all add: nextFrame_def)
  from pipelined_requests[OF eq this serve sent, of 0] show ?thesis unfolding d by fastforce
qed

theorem length_wrap_never_ends_witness:
  "drain (\<lambda>g. g) [] [10, 255, 255, 255, 251, 0, 0, 0, 0, 0] [] demo_manager = None"
  using length_wrap_never_ends[of "[10, 255, 255, 255, 251, 0, 0, 0, 0, 0]"]
  by (simp add: frameLen_le_val[unfolded frameLen_def, symmetric] frameLen_def reader_simps)

section \<open>Reads\<close>

text \<open>
  C38. A read needs no other node: a node that still takes itself for the leader and has applied the
  entries it knows as committed answers a GET from its own store without having heard from any
  other node since the request came in, whatever the other nodes have elected and committed.
\<close>

theorem read_without_quorum:
  assumes "request_of frm = Inr (GetReq k)" "smGroups m (ShardManager_shardFor k m) = Some n"
    and "role n = Leader" "commitIndex n \<le> lastApplied n"
  shows "dispatch (\<lambda>g. g) frm m = (Inr (fst (spec_answer (GetReq k) (kv_view (sm n)))),
    setNode (ShardManager_shardFor k m) (broadcastAppendEntries n) m)"
  using assms(1,2) dispatchGet_now[OF assms(3,4)]
  by (auto simp: request_of_def rbind_Inr_iff dispatch_def ShardManager_group_def split: if_splits)

theorem read_without_quorum_witness:
  "fst (dispatch (\<lambda>g. g) [0, 1, 0, 0, 0, 5] \<lparr>smRing = HashRing_addShard 2 (HashRing_new 1), smGroups = [2 \<mapsto>
      demo_giver\<lparr>config := \<lparr>voters = [1, 2, 3], addresses = []\<rparr>\<rparr>]\<rparr>) = Inr (response 0 [] [6])"
proof -
  let ?m = "\<lparr>smRing = HashRing_addShard 2 (HashRing_new 1), smGroups = [2 \<mapsto>
      demo_giver\<lparr>config := \<lparr>voters = [1, 2, 3], addresses = []\<rparr>\<rparr>]\<rparr>"
  have "ShardManager_shardFor [5] ?m = 2"
    using demo_manager_owner[of "[5]"] by (simp add: ShardManager_shardFor_def demo_manager_def)
  moreover have "request_of [0, 1, 0, 0, 0, 5] = Inr (GetReq [5])" by (simp add: request_of_def reader_simps)
  moreover have "role demo_giver = Leader" "commitIndex demo_giver = lastApplied demo_giver"
    using demo_giver_alone(1) by (simp_all add: alone_def)
  ultimately show ?thesis
    using read_without_quorum[of "[0, 1, 0, 0, 0, 5]" "[5]" ?m] demo_giver_alone(4) by simp
qed

section \<open>Connections\<close>

text \<open>The steps of the accept thread, of \<open>stop\<close> and of the workers; the kernel gives out no descriptor that is open.\<close>

inductive server_step :: "KvServer \<Rightarrow> KvServer \<Rightarrow> bool" where
  accepted: "svConns sv fd = None \<Longrightarrow> server_step sv (acceptConn fd sv)"
| stopped: "server_step sv (sv\<lparr>svRunning := False\<rparr>)"
| hung_up: "i < length (svLoops sv) \<Longrightarrow> fd \<in> set (svLoops sv ! i) \<Longrightarrow> server_step sv (closeConn i fd sv)"
| readable: "i < length (svLoops sv) \<Longrightarrow> fd \<in> set (svLoops sv ! i) \<Longrightarrow>
    handleReadable others i fd pieces again sv = Some (res, sv') \<Longrightarrow> server_step sv sv'"

definition conns_inv :: "KvServer \<Rightarrow> bool" where
  "conns_inv sv \<longleftrightarrow> svLoops sv \<noteq> [] \<and> distinct (concat (svLoops sv)) \<and> set (concat (svLoops sv)) = dom (svConns sv)"

lemma concat_update:
  assumes "i < length xs"
  shows "concat xs = concat (take i xs) @ xs ! i @ concat (drop (Suc i) xs)"
    "concat (xs[i := y]) = concat (take i xs) @ y @ concat (drop (Suc i) xs)"
proof -
  show "concat xs = concat (take i xs) @ xs ! i @ concat (drop (Suc i) xs)"
    by (subst id_take_nth_drop[OF assms]) simp
  show "concat (xs[i := y]) = concat (take i xs) @ y @ concat (drop (Suc i) xs)"
    by (simp add: upd_conv_take_nth_drop[OF assms])
qed

lemma acceptConn_inv:
  assumes "conns_inv sv" "svConns sv fd = None"
  shows "conns_inv (acceptConn fd sv)"
proof -
  define i where "i = svNext sv mod length (svLoops sv)"
  have i: "i < length (svLoops sv)" using assms(1) by (simp add: i_def conns_inv_def)
  have "fd \<notin> set (concat (svLoops sv))" "distinct (concat (svLoops sv))" "set (concat (svLoops sv)) = dom (svConns sv)"
    using assms by (auto simp: conns_inv_def)
  then have "fd \<notin> set (svLoops sv ! i)" "distinct (concat ((svLoops sv)[i := fd # svLoops sv ! i]))"
      "set (concat ((svLoops sv)[i := fd # svLoops sv ! i])) = insert fd (dom (svConns sv))"
    unfolding concat_update[OF i] by auto
  then show ?thesis using assms(1) i by (simp add: conns_inv_def acceptConn_def i_def Let_def)
qed

lemma closeConn_inv:
  assumes "conns_inv sv" "i < length (svLoops sv)" "fd \<in> set (svLoops sv ! i)"
  shows "conns_inv (closeConn i fd sv)"
proof -
  have "distinct (concat (svLoops sv))" "set (concat (svLoops sv)) = dom (svConns sv)"
    using assms(1) by (simp_all add: conns_inv_def)
  then have "distinct (concat ((svLoops sv)[i := removeAll fd (svLoops sv ! i)]))"
      "set (concat ((svLoops sv)[i := removeAll fd (svLoops sv ! i)])) = dom (svConns sv) - {fd}"
    using assms(3) unfolding concat_update[OF assms(2)] by (auto simp: distinct_removeAll)
  then show ?thesis using assms(1,2) by (simp add: conns_inv_def closeConn_def EventLoop_remove_def)
qed

lemma handleReadable_loops:
  assumes "handleReadable others i fd pieces again sv = Some (res, sv')"
  shows "sv' = closeConn i fd sv \<or> svLoops sv' = svLoops sv \<and> dom (svConns sv') = insert fd (dom (svConns sv))"
  using assms by (auto simp: handleReadable_def split: option.splits)

lemma server_step_inv: "server_step sv sv' \<Longrightarrow> conns_inv sv \<Longrightarrow> conns_inv sv'"
proof (induction rule: server_step.induct)
  case (readable i sv fd others pieces again res sv')
  have "fd \<in> dom (svConns sv)"
    using readable.prems readable.hyps(1,2) unfolding conns_inv_def by (metis UN_I nth_mem set_concat)
  then show ?case
    using handleReadable_loops[OF readable.hyps(3)] readable.prems closeConn_inv[OF readable.prems readable.hyps(1,2)]
    by (elim disjE) (simp_all add: conns_inv_def insert_absorb)
next
  case (stopped sv)
  then show ?case by (simp add: conns_inv_def)
qed (simp_all add: acceptConn_inv closeConn_inv)

text \<open>A round of the accept loop is such steps, when the kernel hands out a descriptor that is not open.\<close>

lemma KvServer_stop_step: "KvServer_stop sys sv w = (sv', w') \<Longrightarrow> server_step sv sv'"
  by (auto simp: KvServer_stop_def intro: stopped)

lemma acceptRound_steps:
  assumes "acceptRound sys others sv w = (go, sv', w')" "server_step\<^sup>*\<^sup>* sv (others sv)"
    and "\<And>fd v. sysAccept sys (svListen sv) w = (fd, v) \<Longrightarrow> 0 \<le> fd \<Longrightarrow> svConns (others sv) fd = None"
  shows "server_step\<^sup>*\<^sup>* sv sv'"
proof -
  have "sv' = sv \<or> sv' = others sv \<or> server_step (others sv) sv'"
    using assms(1,3) by (auto simp: acceptRound_def Let_def intro: accepted split: prod.splits if_splits)
  then show ?thesis using assms(2) by (auto intro: rtranclp.rtrancl_into_rtrancl)
qed

text \<open>
  While the server runs and no connection waits, \<^verbatim>\<open>accept\<close> on the non-blocking listening socket fails at once and the
  round begins again with nothing changed: the loop does not wait for a connection, it spins.
\<close>

lemma accept_spins:
  assumes "svRunning sv" "sysAccept sys (svListen sv) w = (-1, w)"
  shows "acceptRound sys (\<lambda>s. s) sv w = (True, sv, w)"
  using assms by (simp add: acceptRound_def)

text \<open>A step of a worker for one descriptor leaves the other descriptors of its loop watched.\<close>

lemma closeConn_watched:
  "i < length (svLoops sv) \<Longrightarrow> set (svLoops (closeConn i fd sv) ! i) = set (svLoops sv ! i) - {fd}"
  "length (svLoops (closeConn i fd sv)) = length (svLoops sv)"
  by (simp_all add: closeConn_def EventLoop_remove_def)

lemma readyLoop_steps:
  assumes "readyLoop others i recvs ready sv = Some (res, sv')" "i < length (svLoops sv)"
    and "distinct (map fst ready)" "set (map fst ready) \<subseteq> set (svLoops sv ! i)"
  shows "server_step\<^sup>*\<^sup>* sv sv'"
  using assms
proof (induction others i recvs ready sv rule: readyLoop.induct)
  case (2 others i recvs fd hup ready sv)
  have next_ok: "distinct (map fst ready)" "set (map fst ready) \<subseteq> set (svLoops (closeConn i fd sv) ! i)"
      "set (map fst ready) \<subseteq> set (svLoops sv ! i)" "i < length (svLoops (closeConn i fd sv))"
    using "2.prems"(2-4) by (auto simp: closeConn_watched)
  show ?case
  proof (cases hup)
    case True
    then have "server_step\<^sup>*\<^sup>* (closeConn i fd sv) sv'" using "2.IH"(1)[OF True] "2.prems"(1) next_ok by simp
    with hung_up[of i sv fd] "2.prems"(2,4) show ?thesis by (simp add: converse_rtranclp_into_rtranclp)
  next
    case False
    then obtain r s where h: "handleReadable others i fd (fst (recvs fd)) (snd (recvs fd)) sv = Some (r, s)"
      using "2.prems"(1) by (auto split: option.splits)
    have st: "server_step sv s" using readable[OF _ _ h] "2.prems"(2,4) by simp
    show ?thesis
    proof (cases r)
      case (Inl e)
      then show ?thesis using "2.prems"(1) False h st by simp
    next
      case (Inr u)
      have "set (map fst ready) \<subseteq> set (svLoops s ! i)" "i < length (svLoops s)"
        using handleReadable_loops[OF h] next_ok "2.prems"(2) by auto
      then have "server_step\<^sup>*\<^sup>* s sv'"
        using "2.IH"(2)[OF False h refl Inr] "2.prems"(1) False h Inr next_ok(1) by simp
      with st show ?thesis by (rule converse_rtranclp_into_rtranclp)
    qed
  qed
qed simp



end
