(* ===== verification/Sockets.thy ===== *)
theory Sockets
  imports Wire Sys_Calls
begin

text \<open>
  Sockets as the two programs that open connections see them, the peer transport and the client. The
  operating system and what is at the other end of a connection are a parameter, the record
  \<open>Net\<close> over a state \<open>'w\<close> of the world: what \<^verbatim>\<open>connect\<close> returns, how many bytes each \<^verbatim>\<open>send\<close>
  takes, what happens to the bytes sent, and the pieces that \<^verbatim>\<open>recv\<close> returns on a descriptor, in
  their order, from now until the connection ends.
\<close>

record 'w Net =
  netConnect :: "bytes \<Rightarrow> int \<Rightarrow> 'w \<Rightarrow> int \<times> 'w"
  netRoom :: "int \<Rightarrow> 'w \<Rightarrow> nat list"
  netSend :: "int \<Rightarrow> bytes \<Rightarrow> 'w \<Rightarrow> 'w"
  netIn :: "int \<Rightarrow> 'w \<Rightarrow> bytes list"
  netLeft :: "int \<Rightarrow> bytes list \<Rightarrow> 'w \<Rightarrow> 'w"
  netClose :: "int \<Rightarrow> 'w \<Rightarrow> 'w"

text \<open>\<open>writeFrame\<close> and \<open>readFrame\<close> on a descriptor.\<close>

definition sendFrame :: "'w Net \<Rightarrow> int \<Rightarrow> WireType \<Rightarrow> bytes \<Rightarrow> 'w \<Rightarrow> bool \<times> 'w" where
  "sendFrame net fd type payload w =
     (case writeFrame (netRoom net fd w) type payload [] of (ok, _, out) \<Rightarrow> (ok, netSend net fd out w))"

definition recvFrame :: "'w Net \<Rightarrow> int \<Rightarrow> 'w \<Rightarrow> (WireType \<times> bytes) option \<times> 'w" where
  "recvFrame net fd w = (case readFrame (netIn net fd w) of (x, ss) \<Rightarrow> (x, netLeft net fd ss w))"

text \<open>The calls with \<open>connectTo\<close> and \<^verbatim>\<open>close\<close> made from the system calls below them.\<close>

definition sysNet :: "'w Sys \<Rightarrow> 'w Net \<Rightarrow> 'w Net" where
  "sysNet sys os = os\<lparr>netConnect := connectTo sys, netClose := sysClose sys\<rparr>"

definition net_ok :: "'w Net \<Rightarrow> ('w \<Rightarrow> int set) \<Rightarrow> bool" where
  "net_ok os opens \<longleftrightarrow> (\<forall>host port. opens_fresh opens (netConnect os host port)) \<and>
     (\<forall>fd b w. opens (netSend os fd b w) = opens w) \<and> (\<forall>fd ss w. opens (netLeft os fd ss w) = opens w) \<and>
     (\<forall>fd w. opens (netClose os fd w) = opens w - {fd})"

lemma sysNet_ok:
  assumes "sys_ok sys opens" "\<And>fd b w. opens (netSend os fd b w) = opens w" "\<And>fd ss w. opens (netLeft os fd ss w) = opens w"
  shows "net_ok (sysNet sys os) opens"
  using assms connectTo_fresh[OF assms(1)] by (simp add: net_ok_def sysNet_def sys_ok_def)

lemma frame_opens:
  assumes "net_ok os opens"
  shows "opens (snd (sendFrame os fd t p w)) = opens w" "opens (snd (recvFrame os fd w)) = opens w"
  using assms by (simp_all add: net_ok_def sendFrame_def recvFrame_def split: prod.splits)

section \<open>How much a read consumes\<close>

lemma recv_length: "recv n ss = (d, ss') \<Longrightarrow> length (concat ss) = length d + length (concat ss')"
  by (cases ss) (auto split: if_splits)

lemma readExact_length:
  "readExact len buf ss = (Some b, ss') \<Longrightarrow> length buf \<le> len \<Longrightarrow> length (concat ss) + length buf = len + length (concat ss')"
proof (induction len buf ss rule: readExact.induct)
  case (1 len buf ss)
  obtain d s1 where r: "recv (len - length buf) ss = (d, s1)" by fastforce
  have "length d \<le> len - length buf" using r by (cases ss) auto
  show ?case
  proof (cases "length buf < len")
    case True
    then have d: "d \<noteq> []" "readExact len (buf @ d) s1 = (Some b, ss')"
      using "1.prems"(1) r by (auto simp: readExact.simps[of len buf ss] split: if_splits)
    moreover have "length (buf @ d) \<le> len" using True \<open>length d \<le> len - length buf\<close> by simp
    ultimately show ?thesis using "1.IH"[OF True r[symmetric] d] recv_length[OF r] by simp
  qed (use "1.prems" in \<open>simp add: readExact.simps[of len buf ss]\<close>)
qed

lemma readFrame_length: "readFrame ss = (Some x, ss') \<Longrightarrow> length (concat ss') < length (concat ss)"
  by (fastforce simp: readFrame_def Let_def dest: readExact_length split: prod.splits option.splits if_splits)

end
