(* ===== verification/Kv_Client.thy ===== *)
theory Kv_Client
  imports Kv_Server Sockets Std_Text
begin

text \<open>
  The client library of \<^verbatim>\<open>client/client.h\<close>: the pool of connections by address, the request of one operation
  and its attempts. The descriptors and what is at their other end are the parameter \<open>Net\<close> of
  \<open>Sockets\<close>. The result of an operation is \<^term>\<open>Some\<close> value for \<^verbatim>\<open>true\<close> and \<^term>\<open>None\<close> for
  \<^verbatim>\<open>false\<close>.
\<close>

record KvClient =
  clRing :: HashRing
  clServers :: "u32 \<rightharpoonup> bytes list"
  clId :: u64
  clSeq :: u64
  clConns :: "bytes \<rightharpoonup> int"

text \<open>The identity of a client, from the process-wide counter and the address where the counter lies.\<close>

definition nextClientId :: "u64 \<Rightarrow> u64 \<Rightarrow> u64 \<times> u64" where
  "nextClientId counter addr = (counter * 1000003 XOR addr, counter + 1)"

definition KvClient_new :: "HashRing \<Rightarrow> (u32 \<rightharpoonup> bytes list) \<Rightarrow> u64 \<Rightarrow> KvClient" where
  "KvClient_new r servers i = \<lparr>clRing = r, clServers = servers, clId = i, clSeq = 1, clConns = Map.empty\<rparr>"

section \<open>Connections\<close>

definition parseAddr :: "bytes \<Rightarrow> (bytes \<times> int) result" where
  "parseAddr addr =
     (let pos = findFrom 58 addr 0
      in rbind (substr addr 0 pos) (\<lambda>host. rbind (substr addr (pos + 1) npos) (\<lambda>p. rbind (stoi p) (\<lambda>port. Inr (host, port)))))"

definition pooledConn :: "'w Net \<Rightarrow> bytes \<Rightarrow> KvClient \<Rightarrow> 'w \<Rightarrow> int result \<times> KvClient \<times> 'w" where
  "pooledConn os addr c w =
     (case clConns c addr of
        Some fd \<Rightarrow> if fd \<ge> 0 then (Inr fd, c, w) else (case parseAddr addr of
            Inl e \<Rightarrow> (Inl e, c, w)
          | Inr (host, port) \<Rightarrow>
            (case netConnect os host port w of (fd, w) \<Rightarrow> (Inr fd, c\<lparr>clConns := (clConns c)(addr \<mapsto> fd)\<rparr>, w)))
      | None \<Rightarrow> (case parseAddr addr of
            Inl e \<Rightarrow> (Inl e, c, w)
          | Inr (host, port) \<Rightarrow>
            (case netConnect os host port w of (fd, w) \<Rightarrow> (Inr fd, c\<lparr>clConns := (clConns c)(addr \<mapsto> fd)\<rparr>, w))))"

definition client_dropConn :: "'w Net \<Rightarrow> bytes \<Rightarrow> KvClient \<Rightarrow> 'w \<Rightarrow> KvClient \<times> 'w" where
  "client_dropConn os addr c w =
     (case clConns c addr of
        None \<Rightarrow> (c, w)
      | Some fd \<Rightarrow> (c\<lparr>clConns := (clConns c)(addr \<mapsto> -1)\<rparr>, if fd \<ge> 0 then netClose os fd w else w))"

text \<open>An address is read back as it is printed.\<close>

lemma parseAddr_printed:
  assumes "58 \<notin> set host" "length host + length (toString port) + 1 < 2 ^ 64" "port < 2 ^ 31"
  shows "parseAddr (host @ 58 # toString port) = Inr (host, int port)"
proof -
  have f: "findFrom 58 (host @ 58 # toString port) 0 = of_nat (length host)"
    using findFrom_skip[of 58 host "[]" "toString port"] assms by simp
  have "substr (host @ 58 # toString port) 0 (of_nat (length host)) = Inr host"
    using substr_part[of 0 "length host" "host @ 58 # toString port"] assms by simp
  moreover have "unat (of_nat (length host) + 1 :: u64) = length host + 1"
    using assms(2) by (subst unat_plus_1) (simp_all add: unat_of_nat take_bit_nat_eq_self)
  then have "substr (host @ 58 # toString port) (of_nat (length host) + 1) npos = Inr (toString port)"
    using assms(2) by (subst substr_rest) simp_all
  ultimately show ?thesis using f assms(3) by (simp add: parseAddr_def stoi_toString Let_def)
qed

section \<open>Requests\<close>

definition requestBytes :: "u8 \<Rightarrow> bytes \<Rightarrow> bytes \<Rightarrow> bytes \<Rightarrow> u64 \<Rightarrow> u64 \<Rightarrow> bytes" where
  "requestBytes opb k val ex i q =
     (let w = putBytes k (putU8 opb [])
      in if opb \<noteq> 0 then putU64 q (putU64 i (putBytes ex (putBytes val w))) else w)"

text \<open>The request of this attempt; a write takes the next sequence number.\<close>

definition nextRequest :: "u8 \<Rightarrow> bytes \<Rightarrow> bytes \<Rightarrow> bytes \<Rightarrow> KvClient \<Rightarrow> bytes \<times> KvClient" where
  "nextRequest opb k val ex c =
     (requestBytes opb k val ex (clId c) (clSeq c), if opb \<noteq> 0 then c\<lparr>clSeq := clSeq c + 1\<rparr> else c)"

definition getResponse :: "bytes \<Rightarrow> (u8 \<times> bytes \<times> bytes) result" where
  "getResponse resp = rbind (getU8 (mkReader resp)) (\<lambda>(status, r). rbind (getBytes r) (\<lambda>(hint, r).
     rbind (getBytes r) (\<lambda>(val, r). Inr (status, hint, val))))"

text \<open>The loop over the attempts; \<open>left\<close> of the five are left, so that this is attempt \<^term>\<open>5 - left\<close>.\<close>

fun requestLoop :: "'w Net \<Rightarrow> bytes list \<Rightarrow> u8 \<Rightarrow> bytes \<Rightarrow> bytes \<Rightarrow> bytes \<Rightarrow> nat \<Rightarrow> bytes \<Rightarrow> KvClient \<Rightarrow> 'w \<Rightarrow>
    bytes option result \<times> KvClient \<times> 'w" where
  "requestLoop os servers opb k val ex 0 addr c w = (Inr None, c, w)"
| "requestLoop os servers opb k val ex (Suc left) addr c w =
     (case pooledConn os addr c w of
        (Inl e, c, w) \<Rightarrow> (Inl e, c, w)
      | (Inr fd, c, w) \<Rightarrow>
        if fd < 0 then requestLoop os servers opb k val ex left (servers ! ((5 - Suc left) mod length servers)) c w
        else
          (case nextRequest opb k val ex c of (req, c) \<Rightarrow>
           (case sendFrame os fd WClientRequest req w of
              (False, w) \<Rightarrow> (case client_dropConn os addr c w of (c, w) \<Rightarrow>
                requestLoop os servers opb k val ex left addr c w)
            | (True, w) \<Rightarrow>
              (case recvFrame os fd w of
                 (None, w) \<Rightarrow> (case client_dropConn os addr c w of (c, w) \<Rightarrow>
                   requestLoop os servers opb k val ex left addr c w)
               | (Some (t, resp), w) \<Rightarrow>
                 (case getResponse resp of
                    Inl e \<Rightarrow> (Inl e, c, w)
                  | Inr (status, hint, v) \<Rightarrow>
                    if status = 0 then (Inr (Some v), c, w)
                    else if status = 2 \<and> hint \<noteq> [] then requestLoop os servers opb k val ex left hint c w
                    else (Inr None, c, w))))))"

definition request :: "'w Net \<Rightarrow> u8 \<Rightarrow> bytes \<Rightarrow> bytes \<Rightarrow> bytes \<Rightarrow> KvClient \<Rightarrow> 'w \<Rightarrow> bytes option result \<times> KvClient \<times> 'w" where
  "request os opb k val ex c w =
     (case clServers c (HashRing_shardFor k (clRing c)) of
        None \<Rightarrow> (Inr None, c, w)
      | Some [] \<Rightarrow> (Inr None, c, w)
      | Some (a # as) \<Rightarrow> requestLoop os (a # as) opb k val ex 5 a c w)"

definition client_put :: "'w Net \<Rightarrow> bytes \<Rightarrow> bytes \<Rightarrow> KvClient \<Rightarrow> 'w \<Rightarrow> bytes option result \<times> KvClient \<times> 'w" where
  "client_put os k val c w = request os 1 k val [] c w"

definition client_get :: "'w Net \<Rightarrow> bytes \<Rightarrow> KvClient \<Rightarrow> 'w \<Rightarrow> bytes option result \<times> KvClient \<times> 'w" where
  "client_get os k c w = request os 0 k [] [] c w"

definition client_del :: "'w Net \<Rightarrow> bytes \<Rightarrow> KvClient \<Rightarrow> 'w \<Rightarrow> bytes option result \<times> KvClient \<times> 'w" where
  "client_del os k c w = request os 2 k [] [] c w"

definition client_cas :: "'w Net \<Rightarrow> bytes \<Rightarrow> bytes \<Rightarrow> bytes \<Rightarrow> KvClient \<Rightarrow> 'w \<Rightarrow> bytes option result \<times> KvClient \<times> 'w" where
  "client_cas os k ex val c w = request os 3 k val ex c w"

section \<open>What the server reads\<close>

definition request_spec :: "u8 \<Rightarrow> bytes \<Rightarrow> bytes \<Rightarrow> bytes \<Rightarrow> u64 \<Rightarrow> u64 \<Rightarrow> Request" where
  "request_spec opb k val ex i q = (if opb = 0 then GetReq k else WriteReq (writeCommand opb k (val, ex, i, q)))"

lemma getWrite_next:
  assumes "short val" "short ex" "unread r = putU64 q (putU64 i (putBytes ex (putBytes val [])))"
  shows "getWrite r = Inr (val, ex, i, q)"
proof -
  have "unread r = putBytes val [] @ putBytes ex [] @ putU64 i [] @ putU64 q []" using assms(3) by (simp add: put_append)
  then obtain r1 where 1: "getBytes r = Inr (val, r1)" "unread r1 = putBytes ex [] @ putU64 i [] @ putU64 q []"
    by (rule str.dec_next[OF assms(1)])
  obtain r2 where 2: "getBytes r1 = Inr (ex, r2)" "unread r2 = putU64 i [] @ putU64 q []"
    by (rule str.dec_next[OF assms(2) 1(2)])
  obtain r3 where 3: "getU64 r2 = Inr (i, r3)" "unread r3 = putU64 q [] @ []"
    by (rule u64.dec_next[OF _ 2(2)]) simp_all
  obtain r4 where "getU64 r3 = Inr (q, r4)" by (rule u64.dec_next[OF _ 3(2)]) simp_all
  then show ?thesis using 1(1) 2(1) 3(1) by (simp add: getWrite_def)
qed

lemma request_of_requestBytes:
  assumes "short k" "short val" "short ex"
  shows "request_of (requestBytes opb k val ex i q) = Inr (request_spec opb k val ex i q)"
proof -
  let ?rest = "if opb \<noteq> 0 then putU64 q (putU64 i (putBytes ex (putBytes val []))) else []"
  have "unread (mkReader (requestBytes opb k val ex i q)) = putU8 opb [] @ putBytes k [] @ ?rest"
    by (simp add: requestBytes_def put_append Let_def)
  then obtain r where r: "getU8 (mkReader (requestBytes opb k val ex i q)) = Inr (opb, r)" "unread r = putBytes k [] @ ?rest"
    by (rule u8.dec_next[OF TrueI])
  obtain r' where "getBytes r = Inr (k, r')" "unread r' = ?rest" by (rule str.dec_next[OF assms(1) r(2)])
  then show ?thesis
    using r(1) getWrite_next[OF assms(2,3), of r' q i] by (simp add: request_of_def request_spec_def)
qed

lemma getResponse_response:
  assumes "short hint" "short val"
  shows "getResponse (response status hint val) = Inr (status, hint, val)"
proof -
  have "unread (mkReader (response status hint val)) = putU8 status [] @ putBytes hint [] @ putBytes val []"
    by (simp add: response_def put_append)
  then obtain r where 1: "getU8 (mkReader (response status hint val)) = Inr (status, r)"
      "unread r = putBytes hint [] @ putBytes val []"
    by (rule u8.dec_next[OF TrueI])
  obtain r2 where 2: "getBytes r = Inr (hint, r2)" "unread r2 = putBytes val [] @ []"
    by (rule str.dec_next[OF assms(1) 1(2)]) simp
  obtain r3 where "getBytes r2 = Inr (val, r3)" by (rule str.dec_next[OF assms(2) 2(2)])
  then show ?thesis using 1(1) 2(1) by (simp add: getResponse_def)
qed

lemma request_key_spec: "request_key (request_spec opb k val ex i q) = k"
  by (simp add: request_spec_def writeCommand_def)

section \<open>A client and a server\<close>

text \<open>
  A network with the server of \<open>Kv_Server\<close> at the other end of every connection: a connection is
  accepted under the port as its descriptor, what the client sends arrives in the pieces that \<open>sp\<close>
  makes, and so does what the server answers. \<open>room\<close> is what the client's sends find. The list of
  truth values says for the next requests whether the answer is lost.
\<close>

type_synonym serverWorld = "bool list \<times> KvServer \<times> (int \<Rightarrow> bytes list)"

definition deliverTo :: "(bytes \<Rightarrow> bytes list) \<Rightarrow> int \<Rightarrow> bytes \<Rightarrow> KvServer \<Rightarrow> bytes \<times> KvServer" where
  "deliverTo sp fd b sv =
     (case handleReadable (\<lambda>g. g) 0 fd (sp b) True sv of
        None \<Rightarrow> ([], sv)
      | Some (res, sv') \<Rightarrow> (drop (length (sockOut (svSocks sv fd))) (sockOut (svSocks sv' fd)), sv'))"

definition server_net :: "(bytes \<Rightarrow> bytes list) \<Rightarrow> nat list \<Rightarrow> serverWorld Net" where
  "server_net sp room =
     \<lparr>netConnect = (\<lambda>host port (ls, sv, inq). (port, ls, acceptConn port sv, inq)),
      netRoom = (\<lambda>fd w. room),
      netSend = (\<lambda>fd b (ls, sv, inq). case deliverTo sp fd b sv of (out, sv) \<Rightarrow>
        (tl ls, sv, if ls \<noteq> [] \<and> hd ls then inq else inq(fd := inq fd @ sp out))),
      netIn = (\<lambda>fd (ls, sv, inq). inq fd),
      netLeft = (\<lambda>fd ss (ls, sv, inq). (ls, sv, inq(fd := ss))),
      netClose = (\<lambda>fd (ls, sv, inq). (ls, sv, inq(fd := [])))\<rparr>"

text \<open>What a client is told: the value, or that the operation did not succeed.\<close>

fun spec_result :: "Request \<Rightarrow> kv_content \<Rightarrow> bytes option" where
  "spec_result (GetReq k) c = fst c k"
| "spec_result (WriteReq cmd) c =
     (let out = fst (spec_apply cmd c) in if out = str ''CAS_MISMATCH'' then None else Some out)"

lemma answer_result:
  assumes "short (fst (spec_answer q c))"
  shows "\<exists>status val. getResponse (fst (spec_answer q c)) = Inr (status, [], val) \<and> status \<noteq> 2 \<and>
    spec_result q c = (if status = 0 then Some val else None)"
proof -
  have r: "getResponse (response s [] v) = Inr (s, [], v)" if "short (response s [] v)" for s v
    using that by (intro getResponse_response) (simp_all add: response_def put_append)
  show ?thesis
  proof (cases q)
    case (GetReq k)
    then show ?thesis using assms r by (cases "fst c k") auto
  next
    case (WriteReq cmd)
    obtain out c' where o: "spec_apply cmd c = (out, c')" by (rule prod.exhaust)
    show ?thesis
    proof (cases "out = str ''CAS_MISMATCH''")
      case True
      then show ?thesis using assms r[of 3 "[]"] o WriteReq by (simp add: Let_def)
    next
      case False
      then show ?thesis using assms r[of 0 out] o WriteReq by (simp add: Let_def)
    qed
  qed
qed

text \<open>
  The request \<open>q\<close> fits the connection \<open>fd\<close>: nothing is in its buffers, every group answers at once with
  room for \<open>Suc L\<close> entries, and the frames of the request and of its answer can be sent.
\<close>

definition fits :: "(bytes \<Rightarrow> bytes list) \<Rightarrow> nat list \<Rightarrow> int \<Rightarrow> nat \<Rightarrow> bytes \<Rightarrow> Request \<Rightarrow> KvServer \<Rightarrow> bool" where
  "fits sp room fd L req q sv \<longleftrightarrow>
     (\<forall>b. concat (sp b) = b \<and> [] \<notin> set (sp b)) \<and> inbuf (connState fd sv) = [] \<and> all_alone (svShards sv) (Suc L) \<and>
     request_of req = Inr q \<and> length req + 5 < 2 ^ 32 \<and> fst (writeFrame room WClientRequest req []) \<and>
     (let resp = fst (spec_answer q (shard_view (svShards sv) (ShardManager_shardFor (request_key q) (svShards sv))))
      in short resp \<and> all_sent (sockRoom (svSocks sv fd)) [resp])"

definition spec_step :: "Request \<Rightarrow> ShardManager \<Rightarrow> u32 \<Rightarrow> kv_content" where
  "spec_step q m =
     (let i = ShardManager_shardFor (request_key q) m
      in (shard_view m)(i := snd (spec_answer q (shard_view m i))))"

lemma deliverTo_request:
  assumes f: "fits sp room fd L req q sv" and b: "b = frame_bytes WClientRequest req"
  obtains sv' where "deliverTo sp fd b sv = (frame_bytes WClientResponse
      (fst (spec_answer q (shard_view (svShards sv) (ShardManager_shardFor (request_key q) (svShards sv))))), sv')"
    "shard_view (svShards sv') = spec_step q (svShards sv)" "inbuf (connState fd sv') = []" "all_alone (svShards sv') L"
    "\<forall>k. ShardManager_shardFor k (svShards sv') = ShardManager_shardFor k (svShards sv)"
    "\<forall>fd'. fd' \<noteq> fd \<longrightarrow> svSocks sv' fd' = svSocks sv fd'"
proof -
  let ?i = "ShardManager_shardFor (request_key q) (svShards sv)"
  let ?r = "fst (spec_answer q (shard_view (svShards sv) ?i))"
  have sp: "concat (sp b) = b" "[] \<notin> set (sp b)" and q: "request_of req = Inr q" "length req + 5 < 2 ^ 32"
    and sv: "inbuf (connState fd sv) = []" "all_alone (svShards sv) (length [req] + L)" "all_sent (sockRoom (svSocks sv fd)) [?r]"
    using f by (simp_all add: fits_def Let_def)
  obtain m where m: "serve (\<lambda>g. g) [req] (svShards sv) = (Inr [?r], m)" "shard_view m = spec_step q (svShards sv)"
      "all_alone m L" "\<forall>k. ShardManager_shardFor k m = ShardManager_shardFor k (svShards sv)"
    using serve_alone[OF _ sv(2), of "[q]"] q(1) by (auto simp: Let_def spec_step_def split_beta)
  have "inbuf (connState fd sv) @ concat (sp b) = concat (map (frame_bytes WClientRequest) [req]) @ []"
    using sp b sv(1) by simp
  from handleReadable_serves[OF this sp(2) _ _ m(1) sv(3), of 0] q(2)
  obtain sv' where "handleReadable (\<lambda>g. g) 0 fd (sp b) True sv = Some (Inr (), sv')" "svShards sv' = m" "inbuf (connState fd sv') = []"
      "sockOut (svSocks sv' fd) = sockOut (svSocks sv fd) @ frame_bytes WClientResponse ?r"
      "\<forall>fd'. fd' \<noteq> fd \<longrightarrow> svSocks sv' fd' = svSocks sv fd'"
    by (auto simp: nextFrame_def)
  then show thesis using that[of sv'] m(2-4) by (simp add: deliverTo_def)
qed

text \<open>An attempt that is answered ends the loop with the result of the abstract store.\<close>

lemma attempt_served:
  assumes f: "fits sp room fd L (fst (nextRequest opb k val ex c)) q sv" and conn: "clConns c a = Some fd" "0 \<le> fd"
    and ls: "\<not> (ls \<noteq> [] \<and> hd ls)"
  obtains sv' where "requestLoop (server_net sp room) servers opb k val ex (Suc left) a c (ls, sv, \<lambda>_. []) =
      (Inr (spec_result q (shard_view (svShards sv) (ShardManager_shardFor (request_key q) (svShards sv)))),
       snd (nextRequest opb k val ex c), tl ls, sv', \<lambda>_. [])"
    "shard_view (svShards sv') = spec_step q (svShards sv)" "all_alone (svShards sv') L"
proof -
  let ?r = "fst (spec_answer q (shard_view (svShards sv) (ShardManager_shardFor (request_key q) (svShards sv))))"
  let ?req = "fst (nextRequest opb k val ex c)"
  obtain r1 b where b: "writeFrame room WClientRequest ?req [] = (True, r1, b)"
    using f unfolding fits_def by (metis fst_conv prod_cases3)
  have bb: "b = frame_bytes WClientRequest ?req" using writeFrame_ok[OF b] by simp
  obtain sv' where d: "deliverTo sp fd b sv = (frame_bytes WClientResponse ?r, sv')"
      "shard_view (svShards sv') = spec_step q (svShards sv)" "all_alone (svShards sv') L"
    by (rule deliverTo_request[OF f bb])
  have sp: "concat (sp x) = x" "[] \<notin> set (sp x)" for x using f by (simp_all add: fits_def)
  have short: "short ?r" using f by (simp add: fits_def Let_def)
  obtain ss where "readFrame (sp (frame_bytes WClientResponse ?r)) = (Some (WClientResponse, ?r), ss)" "concat ss = []" "[] \<notin> set ss"
    using readFrame_gets[OF sp(2), of "frame_bytes WClientResponse ?r" WClientResponse ?r "[]"] sp(1) short by auto
  moreover from this(2,3) have "ss = []" by (cases ss) auto
  ultimately have rf: "recvFrame (server_net sp room) fd (tl ls, sv', (\<lambda>_. [])(fd := sp (frame_bytes WClientResponse ?r))) =
      (Some (WClientResponse, ?r), tl ls, sv', \<lambda>_. [])"
    by (simp add: recvFrame_def server_net_def fun_eq_iff)
  have sf: "sendFrame (server_net sp room) fd WClientRequest ?req (ls, sv, \<lambda>_. []) =
      (True, tl ls, sv', (\<lambda>_. [])(fd := sp (frame_bytes WClientResponse ?r)))"
    using b d(1) ls by (auto simp: sendFrame_def server_net_def)
  obtain status v where "getResponse ?r = Inr (status, [], v)" "status \<noteq> 2"
      "spec_result q (shard_view (svShards sv) (ShardManager_shardFor (request_key q) (svShards sv))) = (if status = 0 then Some v else None)"
    using answer_result[OF short] by blast
  then have "requestLoop (server_net sp room) servers opb k val ex (Suc left) a c (ls, sv, \<lambda>_. []) =
      (Inr (spec_result q (shard_view (svShards sv) (ShardManager_shardFor (request_key q) (svShards sv)))),
       snd (nextRequest opb k val ex c), tl ls, sv', \<lambda>_. [])"
    using conn sf rf by (simp add: pooledConn_def split_beta)
  then show thesis using d(2,3) by (rule that)
qed

text \<open>An attempt whose answer is lost has served the request; the client drops the connection and goes on.\<close>

lemma attempt_lost:
  assumes f: "fits sp room fd L (fst (nextRequest opb k val ex c)) q sv" and conn: "clConns c a = Some fd" "0 \<le> fd"
  obtains sv' where "requestLoop (server_net sp room) servers opb k val ex (Suc left) a c (True # ls, sv, \<lambda>_. []) =
      requestLoop (server_net sp room) servers opb k val ex left a
        ((snd (nextRequest opb k val ex c))\<lparr>clConns := (clConns c)(a \<mapsto> -1)\<rparr>) (ls, sv', \<lambda>_. [])"
    "shard_view (svShards sv') = spec_step q (svShards sv)" "all_alone (svShards sv') L"
    "\<forall>k. ShardManager_shardFor k (svShards sv') = ShardManager_shardFor k (svShards sv)"
    "\<forall>fd'. fd' \<noteq> fd \<longrightarrow> svSocks sv' fd' = svSocks sv fd'"
proof -
  let ?req = "fst (nextRequest opb k val ex c)"
  obtain r1 b where b: "writeFrame room WClientRequest ?req [] = (True, r1, b)"
    using f unfolding fits_def by (metis fst_conv prod_cases3)
  have bb: "b = frame_bytes WClientRequest ?req" using writeFrame_ok[OF b] by simp
  obtain sv' where d: "deliverTo sp fd b sv = (frame_bytes WClientResponse
        (fst (spec_answer q (shard_view (svShards sv) (ShardManager_shardFor (request_key q) (svShards sv))))), sv')"
      "shard_view (svShards sv') = spec_step q (svShards sv)" "inbuf (connState fd sv') = []" "all_alone (svShards sv') L"
      "\<forall>k. ShardManager_shardFor k (svShards sv') = ShardManager_shardFor k (svShards sv)"
      "\<forall>fd'. fd' \<noteq> fd \<longrightarrow> svSocks sv' fd' = svSocks sv fd'"
    by (rule deliverTo_request[OF f bb])
  have "sendFrame (server_net sp room) fd WClientRequest ?req (True # ls, sv, \<lambda>_. []) = (True, ls, sv', \<lambda>_. [])"
    using b d(1) by (simp add: sendFrame_def server_net_def)
  moreover have "recvFrame (server_net sp room) fd (ls, sv', \<lambda>_. []) = (None, ls, sv', \<lambda>_. [])"
    by (simp add: recvFrame_def server_net_def readFrame_def readExact.simps fun_eq_iff)
  moreover have "client_dropConn (server_net sp room) a (snd (nextRequest opb k val ex c)) (ls, sv', \<lambda>_. []) =
      ((snd (nextRequest opb k val ex c))\<lparr>clConns := (clConns c)(a \<mapsto> -1)\<rparr>, ls, sv', \<lambda>_. [])"
    using conn by (simp add: client_dropConn_def nextRequest_def server_net_def fun_eq_iff)
  ultimately show thesis
    using conn d(2,4-6) by (intro that[of sv']) (simp_all add: pooledConn_def split_beta)
qed

text \<open>
  C14. The client sees the store. On a connection to a server whose groups answer at once, an operation
  returns what the abstract store of the key's shard says of it, the value or the success, and
  leaves that store as the operation should leave it and all others untouched; the client
  has used up one sequence number for a write and none for a read, and nothing is left in the
  connection's buffers, whatever the pieces were in which the bytes arrived.
\<close>

theorem client_sees_store:
  assumes "clServers c (HashRing_shardFor k (clRing c)) = Some (a # as)" "clConns c a = Some fd" "0 \<le> fd"
    and "fits sp room fd L (requestBytes opb k val ex (clId c) (clSeq c)) q sv"
  shows "\<exists>sv'. request (server_net sp room) opb k val ex c ([], sv, \<lambda>_. []) =
      (Inr (spec_result q (shard_view (svShards sv) (ShardManager_shardFor (request_key q) (svShards sv)))),
       if opb = 0 then c else c\<lparr>clSeq := clSeq c + 1\<rparr>, [], sv', \<lambda>_. []) \<and>
    shard_view (svShards sv') = spec_step q (svShards sv)"
proof -
  have "fits sp room fd L (fst (nextRequest opb k val ex c)) q sv" using assms(4) by (simp add: nextRequest_def)
  then obtain sv' where "requestLoop (server_net sp room) (a # as) opb k val ex (Suc 4) a c ([], sv, \<lambda>_. []) =
      (Inr (spec_result q (shard_view (svShards sv) (ShardManager_shardFor (request_key q) (svShards sv)))),
       snd (nextRequest opb k val ex c), tl [], sv', \<lambda>_. [])" "shard_view (svShards sv') = spec_step q (svShards sv)"
    by (rule attempt_served[OF _ assms(2,3), where ls = "[]" and servers = "a # as" and left = 4]) (rule that | simp only: list.simps simp_thms)+
  moreover have five: "(5 :: nat) = Suc 4" by simp
  have "request (server_net sp room) opb k val ex c w = requestLoop (server_net sp room) (a # as) opb k val ex (Suc 4) a c w" for w
    unfolding request_def assms(1) five by (simp only: option.case list.case)
  moreover have "snd (nextRequest opb k val ex c) = (if opb = 0 then c else c\<lparr>clSeq := clSeq c + 1\<rparr>)"
    by (simp add: nextRequest_def)
  ultimately show ?thesis by (intro exI[of _ sv'] conjI) (simp_all only: list.sel)
qed

section \<open>Answers that are lost\<close>

text \<open>After a failed attempt the loop connects again.\<close>

lemma attempt_reconnects:
  assumes "clConns c a = Some (-1)" "parseAddr a = Inr (host, port)" "0 \<le> port"
  shows "requestLoop (server_net sp room) servers opb k val ex (Suc left) a c (ls, sv, inq) =
    requestLoop (server_net sp room) servers opb k val ex (Suc left) a (c\<lparr>clConns := (clConns c)(a \<mapsto> port)\<rparr>)
      (ls, acceptConn port sv, inq)"
proof -
  have "netConnect (server_net sp room) host port (ls, sv, inq) = (port, ls, acceptConn port sv, inq)"
    by (simp add: server_net_def)
  then have "pooledConn (server_net sp room) a c (ls, sv, inq) = pooledConn (server_net sp room) a
      (c\<lparr>clConns := (clConns c)(a \<mapsto> port)\<rparr>) (ls, acceptConn port sv, inq)"
    using assms by (simp add: pooledConn_def)
  then show ?thesis by simp
qed

lemma acceptConn_keeps: "svShards (acceptConn fd sv) = svShards sv" "svSocks (acceptConn fd sv) = svSocks sv"
  "inbuf (connState fd (acceptConn fd sv)) = []"
  by (simp_all add: acceptConn_def connState_def Let_def)

definition casCommand :: "bytes \<Rightarrow> bytes \<Rightarrow> bytes \<Rightarrow> u64 \<Rightarrow> u64 \<Rightarrow> KvCommand" where
  "casCommand k ex val i q = \<lparr>op = Cas, key = k, value = val, expect = ex, clientId = i, requestSeq = q\<rparr>"

lemma key_casCommand [simp]: "key (casCommand k ex val i q) = k"
  by (simp add: casCommand_def)

lemma cas_request: "request_spec 3 k val ex i q = WriteReq (casCommand k ex val i q)"
  by (simp add: request_spec_def writeCommand_def casCommand_def)

text \<open>The same swap applied under two sequence numbers: the first changes the value, the second fails.\<close>

lemma cas_twice:
  assumes "case_option [] id (fst S k) = ex" "val \<noteq> ex" "\<forall>n r. snd S i = Some (n, r) \<longrightarrow> n < q" "q < q + 1"
  defines "S1 \<equiv> snd (spec_apply (casCommand k ex val i q) S)"
  shows "fst S1 k = Some val" "spec_apply (casCommand k ex val i (q + 1)) S1 = (str ''CAS_MISMATCH'',
    fst S1, if i = 0 then snd S1 else (snd S1)(i \<mapsto> (q + 1, str ''CAS_MISMATCH'')))"
    "fst (spec_apply (casCommand k ex val i q) S) = str ''OK''"
proof -
  have "\<not> already_applied (casCommand k ex val i q) (snd S)"
    using assms(3) by (auto simp: already_applied_def casCommand_def)
  then have a: "spec_apply (casCommand k ex val i q) S =
      (str ''OK'', (fst S)(k \<mapsto> val), if i = 0 then snd S else (snd S)(i \<mapsto> (q, str ''OK'')))"
    using assms(1) by (simp add: spec_apply_def spec_exec_def casCommand_def)
  then have S1: "S1 = ((fst S)(k \<mapsto> val), if i = 0 then snd S else (snd S)(i \<mapsto> (q, str ''OK'')))" by (simp add: S1_def)
  then show "fst S1 k = Some val" by simp
  show "fst (spec_apply (casCommand k ex val i q) S) = str ''OK''" by (simp add: a)
  have "\<not> already_applied (casCommand k ex val i (q + 1)) (snd S1)"
    using assms(4) by (auto simp: already_applied_def casCommand_def S1)
  then show "spec_apply (casCommand k ex val i (q + 1)) S1 = (str ''CAS_MISMATCH'',
      fst S1, if i = 0 then snd S1 else (snd S1)(i \<mapsto> (q + 1, str ''CAS_MISMATCH'')))"
    using assms(2) by (simp add: spec_apply_def spec_exec_def casCommand_def S1)
qed

lemma cas_fits:
  assumes "short k" "short val" "short ex" "length (requestBytes 3 k val ex i q) + 5 < 2 ^ 32"
    and "\<And>b. concat (sp b) = b \<and> [] \<notin> set (sp b)" "fst (writeFrame room WClientRequest (requestBytes 3 k val ex i q) [])"
    and "inbuf (connState fd sv) = []" "all_alone (svShards sv) (Suc L)"
    and "fst (spec_answer (request_spec 3 k val ex i q) (shard_view (svShards sv) (ShardManager_shardFor k (svShards sv)))) = resp"
    and "short resp" "all_sent (sockRoom (svSocks sv fd)) [resp]"
  shows "fits sp room fd L (requestBytes 3 k val ex i q) (request_spec 3 k val ex i q) sv"
  using assms by (simp add: fits_def request_of_requestBytes request_key_spec)

text \<open>A swap on a new connection that finds another value fails and leaves the value.\<close>

lemma cas_retry:
  assumes addr: "clConns c a = Some (-1)" "parseAddr a = Inr (host, port)" "0 \<le> port"
    and fit: "short k" "short val" "short ex" "length (requestBytes 3 k val ex (clId c) (clSeq c)) + 5 < 2 ^ 32"
      "\<And>b. concat (sp b) = b \<and> [] \<notin> set (sp b)" "fst (writeFrame room WClientRequest (requestBytes 3 k val ex (clId c) (clSeq c)) [])"
    and sv: "all_alone (svShards sv) 1" "all_sent (sockRoom (svSocks sv port)) [response 3 [] []]"
      "shard_view (svShards sv) (ShardManager_shardFor k (svShards sv)) = S" "fst S k = Some v"
      "spec_apply (casCommand k ex val (clId c) (clSeq c)) S = (str ''CAS_MISMATCH'', fst S, x)"
  shows "\<exists>c' sv'. requestLoop (server_net sp room) servers 3 k val ex (Suc left) a c ([], sv, \<lambda>_. []) = (Inr None, c', [], sv', \<lambda>_. []) \<and>
    fst (shard_view (svShards sv') (ShardManager_shardFor k (svShards sv))) k = Some v"
proof -
  let ?c = "c\<lparr>clConns := (clConns c)(a \<mapsto> port)\<rparr>" and ?sv = "acceptConn port sv" and ?q = "request_spec 3 k val ex (clId c) (clSeq c)"
  have A: "fst (spec_answer ?q S) = response 3 [] []" "spec_result ?q S = None" "fst (snd (spec_answer ?q S)) k = Some v"
    unfolding cas_request using sv(4,5) by simp_all
  have nr: "fst (nextRequest 3 k val ex ?c) = requestBytes 3 k val ex (clId c) (clSeq c)" by (simp add: nextRequest_def)
  have r: "short (response 3 [] [])" by (simp add: response_def put_append)
  have "fits sp room port 0 (fst (nextRequest 3 k val ex ?c)) ?q ?sv"
    unfolding nr using sv(1-3) A(1)
    by (intro cas_fits[OF fit(1-6) acceptConn_keeps(3) _ _ r]) (simp_all add: acceptConn_keeps)
  then obtain sv' where "requestLoop (server_net sp room) servers 3 k val ex (Suc left) a ?c ([], ?sv, \<lambda>_. []) =
        (Inr (spec_result ?q (shard_view (svShards ?sv) (ShardManager_shardFor (request_key ?q) (svShards ?sv)))),
         snd (nextRequest 3 k val ex ?c), tl [], sv', \<lambda>_. [])"
      "shard_view (svShards sv') = spec_step ?q (svShards ?sv)"
    by (rule attempt_served[where ls = "[]" and a = a and servers = servers and left = left]) (use addr in simp_all)
  then show ?thesis
    unfolding attempt_reconnects[OF addr] using A(2,3) sv(3)
    by (intro exI[of _ "snd (nextRequest 3 k val ex ?c)"] exI[of _ sv'])
      (simp add: acceptConn_keeps request_key_spec spec_step_def Let_def del: requestLoop.simps)
qed

text \<open>
  C39. A retry is a new write: when the answer to a compare-and-swap is lost after the swap was done, the
  client sends it again under the next sequence number, the store does not recognise it, and the
  client is told that the swap failed although it succeeded and the store holds the new value.
\<close>

theorem lost_answer_repeats_write:
  assumes addr: "clServers c (HashRing_shardFor k (clRing c)) = Some (a # as)" "clConns c a = Some fd" "0 \<le> fd"
      "parseAddr a = Inr (host, port)" "0 \<le> port" "port \<noteq> fd"
    and fit: "short k" "short val" "short ex" "length (requestBytes 3 k val ex 0 0) + 5 < 2 ^ 32"
    and swap: "fst (shard_view (svShards sv) (ShardManager_shardFor k (svShards sv))) k = Some ex" "val \<noteq> ex"
      "\<forall>n r. snd (shard_view (svShards sv) (ShardManager_shardFor k (svShards sv))) (clId c) = Some (n, r) \<longrightarrow> n < clSeq c"
      "clSeq c < clSeq c + 1"
    and sv: "all_alone (svShards sv) 2" "inbuf (connState fd sv) = []" "\<And>b. concat (sp b) = b \<and> [] \<notin> set (sp b)"
      "\<And>q. fst (writeFrame room WClientRequest (requestBytes 3 k val ex (clId c) q) [])"
      "all_sent (sockRoom (svSocks sv fd)) [response 0 [] (str ''OK'')]"
      "all_sent (sockRoom (svSocks sv port)) [response 3 [] []]"
  shows "\<exists>c' sv'. client_cas (server_net sp room) k ex val c ([True], sv, \<lambda>_. []) = (Inr None, c', [], sv', \<lambda>_. []) \<and>
    fst (shard_view (svShards sv') (ShardManager_shardFor k (svShards sv))) k = Some val"
proof -
  let ?i = "ShardManager_shardFor k (svShards sv)" and ?q = "request_spec 3 k val ex (clId c) (clSeq c)"
  let ?S = "shard_view (svShards sv) ?i" and ?c = "(snd (nextRequest 3 k val ex c))\<lparr>clConns := (clConns c)(a \<mapsto> -1)\<rparr>"
  have swap1: "case_option [] id (fst ?S k) = ex" using swap(1) by simp
  note cas = cas_twice[OF swap1 swap(2,3,4)]
  have len: "length (requestBytes 3 k val ex (clId c) n) + 5 < 2 ^ 32" for n
    using fit(4) by (simp add: requestBytes_def put_append Let_def)
  have "str ''OK'' \<noteq> str ''CAS_MISMATCH''" by (simp add: str_def)
  then have a1: "fst (spec_answer ?q ?S) = response 0 [] (str ''OK'')" using cas(3) by (simp add: cas_request split_beta)
  have r: "short (response 0 [] (str ''OK''))" by (simp add: response_def put_append)
  have nr: "fst (nextRequest 3 k val ex c) = requestBytes 3 k val ex (clId c) (clSeq c)" by (simp add: nextRequest_def)
  have "fits sp room fd 1 (fst (nextRequest 3 k val ex c)) ?q sv"
    unfolding nr using sv(1) by (intro cas_fits[OF fit(1-3) len sv(3,4,2) _ a1 r sv(5)]) (simp add: numeral_2_eq_2)
  then obtain sv1 where 1: "requestLoop (server_net sp room) (a # as) 3 k val ex (Suc 4) a c ([True], sv, \<lambda>_. []) =
        requestLoop (server_net sp room) (a # as) 3 k val ex 4 a ?c ([], sv1, \<lambda>_. [])"
      "shard_view (svShards sv1) = spec_step ?q (svShards sv)" "all_alone (svShards sv1) 1"
      "\<forall>k. ShardManager_shardFor k (svShards sv1) = ShardManager_shardFor k (svShards sv)"
      "\<forall>fd'. fd' \<noteq> fd \<longrightarrow> svSocks sv1 fd' = svSocks sv fd'"
    by (rule attempt_lost[OF _ addr(2,3)])
  have S1: "shard_view (svShards sv1) (ShardManager_shardFor k (svShards sv1)) = snd (spec_apply (casCommand k ex val (clId c) (clSeq c)) ?S)"
    by (simp add: 1(2,4) spec_step_def cas_request split_beta Let_def)
  have c: "clConns ?c a = Some (-1)" "clId ?c = clId c" "clSeq ?c = clSeq c + 1" by (simp_all add: nextRequest_def)
  have five: "(5 :: nat) = Suc 4" and four: "(4 :: nat) = Suc 3" by simp_all
  have "\<exists>c' sv'. requestLoop (server_net sp room) (a # as) 3 k val ex (Suc 3) a ?c ([], sv1, \<lambda>_. []) = (Inr None, c', [], sv', \<lambda>_. []) \<and>
      fst (shard_view (svShards sv') (ShardManager_shardFor k (svShards sv1))) k = Some val"
    by (rule cas_retry[OF c(1) addr(4,5) fit(1-3) len[folded c(2)] sv(3) sv(4)[folded c(2)] 1(3) _ S1 cas(1)])
      (use cas(2) 1(5) addr(6) sv(6) c in auto)
  moreover have "client_cas (server_net sp room) k ex val c w = requestLoop (server_net sp room) (a # as) 3 k val ex (Suc 4) a c w" for w
    unfolding client_cas_def request_def addr(1) five by (simp only: option.case list.case)
  ultimately show ?thesis using 1(1,4) unfolding four by (simp only:)
qed

section \<open>Examples\<close>

definition demo_client :: KvClient where
  "demo_client = \<lparr>clRing = HashRing_new 1, clServers = [0 \<mapsto> [str ''h:9'']], clId = 42, clSeq = 1, clConns = [str ''h:9'' \<mapsto> 5]\<rparr>"

definition demo_cas_server :: KvServer where
  "demo_cas_server = acceptConn 5 (startWorkers (KvServer_new 7100
     \<lparr>smRing = HashRing_addShard 2 (HashRing_new 1), smGroups = [2 \<mapsto> demo_giver]\<rparr> 1 (\<lambda>_. \<lparr>sockRoom = [5, 20], sockOut = []\<rparr>)))"

lemma demo_client_fields:
  "clServers demo_client (HashRing_shardFor k (clRing demo_client)) = Some [str ''h:9'']"
  "clConns demo_client (str ''h:9'') = Some 5" "clId demo_client = 42" "clSeq demo_client = 1"
  by (simp_all add: demo_client_def HashRing_new_def HashRing_shardFor_def)

lemma demo_addr: "parseAddr (str ''h:9'') = Inr (str ''h'', 9)"
proof -
  have 9: "toString 9 = [57]" by (simp add: toString.simps)
  then show ?thesis using parseAddr_printed[of "str ''h''" 9] unfolding 9 by (simp add: str_def)
qed

lemma demo_cas_server_fields:
  "ShardManager_shardFor k (svShards demo_cas_server) = 2" "inbuf (connState 5 demo_cas_server) = []"
  "shard_view (svShards demo_cas_server) 2 = kv_view (sm demo_giver)"
  "svSocks demo_cas_server fd = \<lparr>sockRoom = [5, 20], sockOut = []\<rparr>" "L < 2 ^ 64 \<Longrightarrow> all_alone (svShards demo_cas_server) L"
proof -
  have d: "svShards demo_cas_server = \<lparr>smRing = HashRing_addShard 2 (HashRing_new 1), smGroups = [2 \<mapsto> demo_giver]\<rparr>"
    by (simp add: demo_cas_server_def acceptConn_keeps KvServer_new_def startWorkers_def)
  show o: "ShardManager_shardFor k (svShards demo_cas_server) = 2" for k
    using demo_manager_owner[of k] by (simp add: ShardManager_shardFor_def demo_manager_def d)
  show "inbuf (connState 5 demo_cas_server) = []" by (simp add: demo_cas_server_def acceptConn_keeps)
  show "shard_view (svShards demo_cas_server) 2 = kv_view (sm demo_giver)" by (simp add: d shard_view_def)
  show "svSocks demo_cas_server fd = \<lparr>sockRoom = [5, 20], sockOut = []\<rparr>"
    by (simp add: demo_cas_server_def acceptConn_keeps KvServer_new_def startWorkers_def)
  show "all_alone (svShards demo_cas_server) L" if "L < 2 ^ 64"
    unfolding all_alone_def o using that by (simp add: d demo_giver_alone)
qed

lemma singletons_nonempty [simp]: "[] \<notin> (\<lambda>x. [x]) ` A"
  by auto

lemma bytewise: "concat (map (\<lambda>x. [x]) b) = b \<and> [] \<notin> set (map (\<lambda>x. [x]) b)"
  by (induction b) auto

lemma demo_sends:
  "fst (writeFrame [5, 100] WClientRequest (requestBytes opb [5] [7] [6] i q) [])"
  "all_sent [5, 20] [response st [] (str ''OK'')]" "all_sent [5, 20] [response st [] []]" "all_sent [5, 20] [response st [] [6]]"
  by (auto simp: writeFrame_sends requestBytes_def response_def put_append Let_def)

theorem client_sees_store_witness:
  "\<exists>sv'. request (server_net (map (\<lambda>x. [x])) [5, 100]) 0 [5] [7] [6] demo_client ([], demo_cas_server, \<lambda>_. []) =
     (Inr (Some [6]), demo_client, [], sv', \<lambda>_. [])"
proof -
  have "spec_answer (GetReq [5]) (kv_view (sm demo_giver)) = (response 0 [] [6], kv_view (sm demo_giver))"
    by (simp add: demo_giver_alone)
  then have "fits (map (\<lambda>x. [x])) [5, 100] 5 0 (requestBytes 0 [5] [7] [6] 42 1) (GetReq [5]) demo_cas_server"
    using request_of_requestBytes[of "[5]" "[7]" "[6]" 0 42 1] bytewise demo_sends
    by (simp add: fits_def demo_cas_server_fields request_spec_def del: all_sent.simps)
      (simp add: requestBytes_def response_def put_append Let_def)
  from client_sees_store[OF demo_client_fields(1,2) _ this[folded demo_client_fields(3,4)]]
  show ?thesis by (simp add: demo_cas_server_fields demo_giver_alone) blast
qed

theorem lost_answer_repeats_write_witness:
  "\<exists>c' sv'. client_cas (server_net (map (\<lambda>x. [x])) [5, 100]) [5] [6] [7] demo_client ([True], demo_cas_server, \<lambda>_. []) =
     (Inr None, c', [], sv', \<lambda>_. []) \<and> fst (shard_view (svShards sv') 2) [5] = Some [7]"
proof -
  have l: "length (requestBytes 3 [5] [7] [6] 0 0) + 5 < 2 ^ 32" by (simp add: requestBytes_def put_append Let_def)
  have "snd (kv_view (sm demo_giver)) = Map.empty" by (simp add: demo_giver_def kv_view_def)
  then show ?thesis
    using lost_answer_repeats_write[OF demo_client_fields(1,2) _ demo_addr _ _ _ _ _ l, of demo_cas_server "map (\<lambda>x. [x])" "[5, 100]"]
      demo_sends bytewise
    by (simp add: demo_cas_server_fields demo_giver_alone demo_client_fields del: all_sent.simps)
qed

end
