(* ===== verification/Peer_Server.thy ===== *)
theory Peer_Server
  imports Raft_Node Sockets
begin

text \<open>
  The server side of the peer RPCs, \<^verbatim>\<open>server/peer_server.h\<close>: the nodes a process holds by shard, its
  listening socket and the rounds of its accept loop, and the
  thread of one connection, which reads a frame, calls the handler of the shard the frame names
  and writes the response. \<open>others\<close> is what the other threads do to the nodes while the thread
  waits for the next frame.
\<close>

text \<open>\<open>psThreads\<close> are the connections whose threads the accept loop has started.\<close>

record PeerServer =
  psPort :: int
  psListen :: int
  psRunning :: bool
  psThreads :: "int list"
  psShards :: "u32 \<rightharpoonup> RaftNode"

definition PeerServer_new :: "int \<Rightarrow> PeerServer" where
  "PeerServer_new port = \<lparr>psPort = port, psListen = -1, psRunning = True, psThreads = [], psShards = Map.empty\<rparr>"

definition PeerServer_start :: "'w Sys \<Rightarrow> PeerServer \<Rightarrow> 'w \<Rightarrow> PeerServer \<times> 'w" where
  "PeerServer_start sys ps w = (case listenOn sys (psPort ps) 256 w of (fd, w) \<Rightarrow> (ps\<lparr>psListen := fd\<rparr>, w))"

definition PeerServer_stop :: "'w Sys \<Rightarrow> PeerServer \<Rightarrow> 'w \<Rightarrow> PeerServer \<times> 'w" where
  "PeerServer_stop sys ps w =
     (ps\<lparr>psRunning := False\<rparr>,
      if psListen ps \<ge> 0 then sysClose sys (psListen ps) (sysShutdown sys (psListen ps) w) else w)"

text \<open>
  One round of the accept loop: whether it goes on, the server and the world. \<open>others\<close> is what the other
  threads, one that calls \<open>stop\<close> among them, do while \<^verbatim>\<open>accept\<close> waits.
\<close>

definition PeerServer_acceptRound :: "'w Sys \<Rightarrow> (PeerServer \<Rightarrow> PeerServer) \<Rightarrow> PeerServer \<Rightarrow> 'w \<Rightarrow> bool \<times> PeerServer \<times> 'w" where
  "PeerServer_acceptRound sys others ps w =
     (if \<not> psRunning ps then (False, ps, w)
      else (case sysAccept sys (psListen ps) w of (fd, w) \<Rightarrow>
        let ps = others ps in
        if fd < 0 then (psRunning ps, ps, w) else (True, ps\<lparr>psThreads := fd # psThreads ps\<rparr>, w)))"

definition registerShard :: "u32 \<Rightarrow> RaftNode \<Rightarrow> PeerServer \<Rightarrow> PeerServer" where
  "registerShard shardId n ps = ps\<lparr>psShards := (psShards ps)(shardId \<mapsto> n)\<rparr>"

text \<open>The handler a request type selects: the response frame, or nothing for another type.\<close>

definition peerRequest :: "WireType \<Rightarrow> bytes \<Rightarrow> RaftNode \<Rightarrow> (WireType \<times> bytes) option outcome" where
  "peerRequest type body n =
     (if type = WRequestVoteReq then
        (case RequestVoteReq_decode (mkReader body) of
           Inl e \<Rightarrow> (Inl e, n)
         | Inr (q, _) \<Rightarrow>
           (case handleRequestVote q n of
              (resp, n) \<Rightarrow> (Inr (Some (WRequestVoteResp, RequestVoteResp_encode resp [])), n)))
      else if type = WAppendEntriesReq then
        (case AppendEntriesReq_decode (mkReader body) of
           Inl e \<Rightarrow> (Inl e, n)
         | Inr (q, _) \<Rightarrow> abind (handleAppendEntries q n) (\<lambda>resp n.
             (Inr (Some (WAppendEntriesResp, AppendEntriesResp_encode resp [])), n)))
      else if type = WInstallSnapshotReq then
        (case InstallSnapshotReq_decode (mkReader body) of
           Inl e \<Rightarrow> (Inl e, n)
         | Inr (q, _) \<Rightarrow> abind (handleInstallSnapshot q n) (\<lambda>resp n.
             (Inr (Some (WInstallSnapshotResp, InstallSnapshotResp_encode resp [])), n)))
      else (Inr None, n))"

text \<open>
  One round of the connection's thread. The result says whether the loop goes on; then come the
  room for later sends, what is left to read, the bytes sent and the nodes.
\<close>

definition connStep :: "nat list \<Rightarrow> bytes list \<Rightarrow> bytes \<Rightarrow> PeerServer \<Rightarrow> bool result \<times> nat list \<times> bytes list \<times> bytes \<times> PeerServer" where
  "connStep room ss out ps =
     (case readFrame ss of
        (None, ss) \<Rightarrow> (Inr False, room, ss, out, ps)
      | (Some (type, payload), ss) \<Rightarrow>
        if length payload < 4 then (Inr False, room, ss, out, ps)
        else (case getU32 (mkReader (take 4 payload)) of
            Inl e \<Rightarrow> (Inl e, room, ss, out, ps)
          | Inr (shardId, _) \<Rightarrow>
            (case psShards ps shardId of
               None \<Rightarrow> (Inr False, room, ss, out, ps)
             | Some n \<Rightarrow>
               (case peerRequest type (drop 4 payload) n of
                  (Inl e, n) \<Rightarrow> (Inl e, room, ss, out, registerShard shardId n ps)
                | (Inr None, n) \<Rightarrow> (Inr False, room, ss, out, registerShard shardId n ps)
                | (Inr (Some (respType, resp)), n) \<Rightarrow>
                  (case writeFrame room respType resp out of
                     (ok, room, out) \<Rightarrow> (Inr ok, room, ss, out, registerShard shardId n ps))))))"

lemma connStep_reads: "connStep room ss out ps = (Inr True, room', ss', r) \<Longrightarrow> length (concat ss') < length (concat ss)"
  by (auto simp: connStep_def dest: readFrame_length split: prod.splits option.splits if_splits sum.splits)

function connLoop :: "(PeerServer \<Rightarrow> PeerServer) \<Rightarrow> nat list \<Rightarrow> bytes list \<Rightarrow> bytes \<Rightarrow> PeerServer \<Rightarrow> unit result \<times> bytes \<times> PeerServer" where
  "connLoop others room ss out ps =
     (case connStep room ss out ps of
        (Inl e, room, ss, out, ps) \<Rightarrow> (Inl e, out, ps)
      | (Inr go, room, ss, out, ps) \<Rightarrow>
        if go then connLoop others room ss out (others ps) else (Inr (), out, ps))"
  by pat_completeness auto
termination
proof (relation "measure (\<lambda>(_, _, ss, _). length (concat ss))", goal_cases)
  case (2 others room ss out ps)
  then show ?case by (auto dest: connStep_reads[OF sym])
qed simp

declare connLoop.simps [simp del]

end
