(* ===== verification/Tcp_Transport.thy ===== *)
theory Tcp_Transport
  imports Raft_Cluster Peer_Server
begin

text \<open>
  The transport between nodes, \<^verbatim>\<open>net/tcp_transport.h\<close>: the queue of calls, the pool of connections and
  the round trip of a call. A queued job is the call of \<open>Raft_Node\<close> it was made from, whose
  callback is the matching \<open>onVoteResp\<close>, \<open>onAppendResp\<close> or \<open>onSnapshotResp\<close>; running a job gives the
  arguments that the callback gets. The last section puts the transport and the peer server of
  \<open>Peer_Server\<close> at the two ends of a connection.
\<close>

record TcpTransport =
  tpShardId :: u32
  tpPeerAddrs :: "NodeId \<rightharpoonup> bytes \<times> int"
  tpConns :: "NodeId \<rightharpoonup> int"
  tpQueue :: "Rpc list"
  tpStopping :: bool

definition TcpTransport_new :: "u32 \<Rightarrow> (NodeId \<rightharpoonup> bytes \<times> int) \<Rightarrow> TcpTransport" where
  "TcpTransport_new shardId addrs =
     \<lparr>tpShardId = shardId, tpPeerAddrs = addrs, tpConns = Map.empty, tpQueue = [], tpStopping = False\<rparr>"

section \<open>The queue\<close>

definition enqueue :: "Rpc \<Rightarrow> TcpTransport \<Rightarrow> TcpTransport" where
  "enqueue job t = (if tpStopping t then t else t\<lparr>tpQueue := tpQueue t @ [job]\<rparr>)"

definition stopTransport :: "TcpTransport \<Rightarrow> TcpTransport" where
  "stopTransport t = t\<lparr>tpStopping := True\<rparr>"

text \<open>
  A worker's turn: it waits while there is nothing to do, ends when the transport is stopping and the
  queue is empty, and otherwise takes the first job.
\<close>

datatype 'j WorkerTurn = Waits | Ends | Runs 'j

definition takeJob :: "TcpTransport \<Rightarrow> Rpc WorkerTurn \<times> TcpTransport" where
  "takeJob t =
     (case tpQueue t of
        [] \<Rightarrow> (if tpStopping t then Ends else Waits, t)
      | job # q \<Rightarrow> (Runs job, t\<lparr>tpQueue := q\<rparr>))"

section \<open>Connections and round trips\<close>

definition getConn :: "'w Net \<Rightarrow> NodeId \<Rightarrow> TcpTransport \<Rightarrow> 'w \<Rightarrow> int \<times> TcpTransport \<times> 'w" where
  "getConn os to t w =
     (case tpConns t to of
        Some fd \<Rightarrow>
          if fd \<ge> 0 then (fd, t, w)
          else (case tpPeerAddrs t to of
              None \<Rightarrow> (-1, t, w)
            | Some (host, port) \<Rightarrow>
              (case netConnect os host port w of (fd, w) \<Rightarrow> (fd, t\<lparr>tpConns := (tpConns t)(to \<mapsto> fd)\<rparr>, w)))
      | None \<Rightarrow>
          (case tpPeerAddrs t to of
              None \<Rightarrow> (-1, t, w)
            | Some (host, port) \<Rightarrow>
              (case netConnect os host port w of (fd, w) \<Rightarrow> (fd, t\<lparr>tpConns := (tpConns t)(to \<mapsto> fd)\<rparr>, w))))"

definition tcp_dropConn :: "'w Net \<Rightarrow> NodeId \<Rightarrow> TcpTransport \<Rightarrow> 'w \<Rightarrow> TcpTransport \<times> 'w" where
  "tcp_dropConn os to t w =
     (case tpConns t to of
        None \<Rightarrow> (t, w)
      | Some fd \<Rightarrow> (t\<lparr>tpConns := (tpConns t)(to \<mapsto> -1)\<rparr>, if fd \<ge> 0 then netClose os fd w else w))"

definition roundTrip :: "'w Net \<Rightarrow> NodeId \<Rightarrow> WireType \<Rightarrow> bytes \<Rightarrow> TcpTransport \<Rightarrow> 'w \<Rightarrow> bytes option \<times> TcpTransport \<times> 'w" where
  "roundTrip os to type payload t w =
     (case getConn os to t w of (fd, t, w) \<Rightarrow>
      if fd < 0 then (None, t, w)
      else
        (case sendFrame os fd type (putU32 (tpShardId t) [] @ payload) w of
           (False, w) \<Rightarrow> (None, tcp_dropConn os to t w)
         | (True, w) \<Rightarrow>
           (case recvFrame os fd w of
              (None, w) \<Rightarrow> (None, tcp_dropConn os to t w)
            | (Some (respType, resp), w) \<Rightarrow> (Some resp, t, w))))"

datatype RpcResp = VoteResp RequestVoteResp | AppendResp AppendEntriesResp | SnapshotResp InstallSnapshotResp

text \<open>What the callback gets: nothing when the round trip failed, the decoded response otherwise.\<close>

fun runJob :: "'w Net \<Rightarrow> Rpc \<Rightarrow> TcpTransport \<Rightarrow> 'w \<Rightarrow> RpcResp option result \<times> TcpTransport \<times> 'w" where
  "runJob os (SendRequestVote to req _ _) t w =
     (case roundTrip os to WRequestVoteReq (RequestVoteReq_encode req []) t w of
        (None, t, w) \<Rightarrow> (Inr None, t, w)
      | (Some resp, t, w) \<Rightarrow>
        (rbind (RequestVoteResp_decode (mkReader resp)) (\<lambda>(r, _). Inr (Some (VoteResp r))), t, w))"
| "runJob os (SendAppendEntries to req _) t w =
     (case roundTrip os to WAppendEntriesReq (AppendEntriesReq_encode req []) t w of
        (None, t, w) \<Rightarrow> (Inr None, t, w)
      | (Some resp, t, w) \<Rightarrow>
        (rbind (AppendEntriesResp_decode (mkReader resp)) (\<lambda>(r, _). Inr (Some (AppendResp r))), t, w))"
| "runJob os (SendInstallSnapshot to req _) t w =
     (case roundTrip os to WInstallSnapshotReq (InstallSnapshotReq_encode req []) t w of
        (None, t, w) \<Rightarrow> (Inr None, t, w)
      | (Some resp, t, w) \<Rightarrow>
        (rbind (InstallSnapshotResp_decode (mkReader resp)) (\<lambda>(r, _). Inr (Some (SnapshotResp r))), t, w))"

text \<open>
  The destructor: the transport stops, and when its workers have run the jobs still queued, the
  connections of the pool are closed, in the order the map is iterated.
\<close>

definition TcpTransport_close :: "'w Net \<Rightarrow> NodeId list \<Rightarrow> TcpTransport \<Rightarrow> 'w \<Rightarrow> 'w" where
  "TcpTransport_close os order t w =
     fold (\<lambda>i w. case tpConns t i of None \<Rightarrow> w | Some fd \<Rightarrow> if fd \<ge> 0 then netClose os fd w else w) order w"

section \<open>First in, first out\<close>

text \<open>The jobs that a number of workers take from the queue one after the other.\<close>

fun takeJobs :: "nat \<Rightarrow> TcpTransport \<Rightarrow> Rpc list" where
  "takeJobs 0 t = []"
| "takeJobs (Suc k) t = (case takeJob t of (Runs job, t) \<Rightarrow> job # takeJobs k t | (_, t) \<Rightarrow> takeJobs k t)"

lemma takeJobs_all: "takeJobs (length (tpQueue t)) t = tpQueue t"
proof (induction "tpQueue t" arbitrary: t)
  case (Cons j q)
  from Cons(1)[of "t\<lparr>tpQueue := q\<rparr>"] Cons(2)[symmetric] show ?case by (simp add: takeJob_def)
qed simp

lemma enqueue_fold: "tpQueue (fold enqueue jobs t) = (if tpStopping t then tpQueue t else tpQueue t @ jobs)"
  "tpStopping (fold enqueue jobs t) = tpStopping t"
  by (induction jobs arbitrary: t) (auto simp: enqueue_def)

text \<open>Calls made before the transport stops are all run, in the order they were made; later ones are dropped.\<close>

lemma queue_fifo:
  assumes "\<not> tpStopping t"
  shows "takeJobs (length (tpQueue t @ jobs)) (fold enqueue late (stopTransport (fold enqueue jobs t))) = tpQueue t @ jobs"
  using takeJobs_all[of "fold enqueue late (stopTransport (fold enqueue jobs t))"] assms
  by (simp add: enqueue_fold stopTransport_def)

section \<open>A call between two processes\<close>

fun rpc_to :: "Rpc \<Rightarrow> NodeId" where
  "rpc_to (SendRequestVote to _ _ _) = to"
| "rpc_to (SendAppendEntries to _ _) = to"
| "rpc_to (SendInstallSnapshot to _ _) = to"

fun rpc_frame :: "Rpc \<Rightarrow> WireType \<times> bytes" where
  "rpc_frame (SendRequestVote _ q _ _) = (WRequestVoteReq, RequestVoteReq_encode q [])"
| "rpc_frame (SendAppendEntries _ q _) = (WAppendEntriesReq, AppendEntriesReq_encode q [])"
| "rpc_frame (SendInstallSnapshot _ q _) = (WInstallSnapshotReq, InstallSnapshotReq_encode q [])"

fun resp_frame :: "RpcResp \<Rightarrow> WireType \<times> bytes" where
  "resp_frame (VoteResp r) = (WRequestVoteResp, RequestVoteResp_encode r [])"
| "resp_frame (AppendResp r) = (WAppendEntriesResp, AppendEntriesResp_encode r [])"
| "resp_frame (SnapshotResp r) = (WInstallSnapshotResp, InstallSnapshotResp_encode r [])"

text \<open>The call made directly on the node, as if the two nodes were in one process.\<close>

fun rpc_handle :: "Rpc \<Rightarrow> RaftNode \<Rightarrow> RpcResp outcome" where
  "rpc_handle (SendRequestVote _ q _ _) n = (case handleRequestVote q n of (r, n) \<Rightarrow> (Inr (VoteResp r), n))"
| "rpc_handle (SendAppendEntries _ q _) n = abind (handleAppendEntries q n) (\<lambda>r n. (Inr (AppendResp r), n))"
| "rpc_handle (SendInstallSnapshot _ q _) n = abind (handleInstallSnapshot q n) (\<lambda>r n. (Inr (SnapshotResp r), n))"

fun rpc_ok :: "Rpc \<Rightarrow> bool" where
  "rpc_ok (SendRequestVote _ q _ _) = True"
| "rpc_ok (SendAppendEntries _ q _) = append_req_ok q"
| "rpc_ok (SendInstallSnapshot _ q _) = snapshot_req_ok q"

lemma peerRequest_rpc:
  assumes "rpc_ok c" "rpc_handle c n = (Inr r, n')"
  shows "peerRequest (fst (rpc_frame c)) (snd (rpc_frame c)) n = (Inr (Some (resp_frame r)), n')"
proof (cases c)
  case (SendRequestVote to q t k)
  then show ?thesis
    using assms RequestVoteReq.dec_mkReader[of q] by (auto simp: peerRequest_def split: prod.splits)
next
  case (SendAppendEntries to q t)
  then show ?thesis
    using assms AppendEntriesReq.dec_mkReader[of q]
    by (auto simp: peerRequest_def abind_def split: prod.splits sum.splits)
next
  case (SendInstallSnapshot to q i)
  then show ?thesis
    using assms InstallSnapshotReq.dec_mkReader[of q]
    by (auto simp: peerRequest_def abind_def split: prod.splits sum.splits)
qed

lemma resp_frame_ok: "short (snd (resp_frame r))" "named_type (fst (resp_frame r))"
  by (cases r; simp add: RequestVoteResp_encode_def AppendEntriesResp_encode_def InstallSnapshotResp_encode_def put_append)+

lemma rpc_frame_named: "named_type (fst (rpc_frame c))"
  by (cases c) simp_all

text \<open>What \<open>runJob\<close> does with the bytes of a response.\<close>

lemma runJob_roundTrip:
  assumes "roundTrip os (rpc_to c) (fst (rpc_frame c)) (snd (rpc_frame c)) t w = (Some (snd (resp_frame r)), t', w')"
    and "rpc_handle c n = (Inr r, n')"
  shows "runJob os c t w = (Inr (Some r), t', w')"
proof (cases c)
  case (SendRequestVote to q u k)
  then obtain x where "r = VoteResp x" using assms(2) by (auto split: prod.splits)
  then show ?thesis using SendRequestVote assms(1) RequestVoteResp.dec_mkReader[of x] by simp
next
  case (SendAppendEntries to q u)
  then obtain x where "r = AppendResp x" using assms(2) by (auto simp: abind_def split: prod.splits sum.splits)
  then show ?thesis using SendAppendEntries assms(1) AppendEntriesResp.dec_mkReader[of x] by simp
next
  case (SendInstallSnapshot to q i)
  then obtain x where "r = SnapshotResp x" using assms(2) by (auto simp: abind_def split: prod.splits sum.splits)
  then show ?thesis using SendInstallSnapshot assms(1) InstallSnapshotResp.dec_mkReader[of x] by simp
qed

text \<open>
  A network with a peer server at the other end of every connection. \<open>sp\<close> cuts what is sent into the
  pieces that arrive, in either direction; the two lists are the room that the sends of the caller
  and of the server find.
\<close>

definition peer_net :: "(bytes \<Rightarrow> bytes list) \<Rightarrow> nat list \<Rightarrow> nat list \<Rightarrow> (PeerServer \<times> (int \<Rightarrow> bytes list)) Net" where
  "peer_net sp room room' =
     \<lparr>netConnect = (\<lambda>host port w. (3, w)),
      netRoom = (\<lambda>fd w. room),
      netSend = (\<lambda>fd b (ps, inq). case connLoop (\<lambda>ps. ps) room' (sp b) [] ps of
        (_, out, ps) \<Rightarrow> (ps, inq(fd := inq fd @ sp out))),
      netIn = (\<lambda>fd (ps, inq). inq fd),
      netLeft = (\<lambda>fd ss (ps, inq). (ps, inq(fd := ss))),
      netClose = (\<lambda>fd w. w)\<rparr>"

lemma getU32_putU32: "getU32 (mkReader (take 4 (putU32 v [] @ p))) = Inr (v, advance 4 (mkReader (le_bytes 4 v)))"
  by (simp add: putU32_append reader_simps)

lemma connLoop_one:
  assumes "concat ss = frame_bytes type (putU32 i [] @ body)" "[] \<notin> set ss" "named_type type" "length body + 4 < 2 ^ 32"
    and "psShards ps i = Some n" "peerRequest type body n = (Inr (Some (rt, rp)), n')"
    and "writeFrame room rt rp [] = (True, room', out)"
  shows "connLoop (\<lambda>ps. ps) room ss [] ps = (Inr (), out, registerShard i n' ps)"
proof -
  have "short (putU32 i [] @ body)" using assms(4) by (simp add: putU32_append)
  then obtain ss' where r: "readFrame ss = (Some (type, putU32 i [] @ body), ss')" "concat ss' = []" "[] \<notin> set ss'"
    using readFrame_gets[OF assms(2), of type "putU32 i [] @ body" "[]"] assms(1,3) by auto
  have e: "ss' = []" using r(2,3) by (cases ss') auto
  have l: "\<not> length (putU32 i [] @ body) < 4" "drop 4 (putU32 i [] @ body) = body" by (simp_all add: putU32_append)
  have 1: "connStep room ss [] ps = (Inr True, room', [], out, registerShard i n' ps)"
    using r(1) e l getU32_putU32[of i body] assms(5-7) by (simp add: connStep_def)
  have 2: "connStep room' [] out q = (Inr False, room', [], out, q)" for q
    by (simp add: connStep_def readFrame_def readExact.simps)
  show ?thesis by (simp add: connLoop.simps[of _ room ss] 1 connLoop.simps[of _ room'] 2)
qed

text \<open>
  C20. A call over TCP is the call itself. However the bytes are cut on the way, the callback of a call to
  a peer that serves the shard gets exactly the response its handler returns when it is called
  directly, the peer's node is left as the handler leaves it, nothing else of the peer changes,
  and no bytes are left on the connection for the next call.
\<close>

theorem rpc_over_tcp:
  assumes "tpConns t (rpc_to c) = Some fd" "0 \<le> fd" "psShards ps (tpShardId t) = Some n"
    and "rpc_ok c" "length (snd (rpc_frame c)) + 4 < 2 ^ 32" "rpc_handle c n = (Inr r, n')"
    and "\<And>b. concat (sp b) = b" "\<And>b. [] \<notin> set (sp b)"
    and "fst (writeFrame room (fst (rpc_frame c)) (putU32 (tpShardId t) [] @ snd (rpc_frame c)) [])"
    and "fst (writeFrame room' (fst (resp_frame r)) (snd (resp_frame r)) [])"
  shows "runJob (peer_net sp room room') c t (ps, \<lambda>_. []) = (Inr (Some r), t, registerShard (tpShardId t) n' ps, \<lambda>_. [])"
proof (rule runJob_roundTrip[OF _ assms(6)])
  let ?net = "peer_net sp room room'" and ?req = "putU32 (tpShardId t) [] @ snd (rpc_frame c)"
  obtain r1 b where b: "writeFrame room (fst (rpc_frame c)) ?req [] = (True, r1, b)"
    using assms(9) by (metis fst_conv prod_cases3)
  obtain r2 o' where o: "writeFrame room' (fst (resp_frame r)) (snd (resp_frame r)) [] = (True, r2, o')"
    using assms(10) by (metis fst_conv prod_cases3)
  have bs: "concat (sp b) = frame_bytes (fst (rpc_frame c)) ?req" "concat (sp o') = frame_bytes (fst (resp_frame r)) (snd (resp_frame r)) @ []"
    using writeFrame_ok[OF b] writeFrame_ok[OF o] assms(7) by simp_all
  have "peerRequest (fst (rpc_frame c)) (snd (rpc_frame c)) n = (Inr (Some (fst (resp_frame r), snd (resp_frame r))), n')"
    using peerRequest_rpc[OF assms(4,6)] by simp
  from connLoop_one[OF bs(1) assms(8) rpc_frame_named assms(5,3) this o]
  have sf: "sendFrame ?net fd (fst (rpc_frame c)) ?req (ps, \<lambda>_. []) = (True, registerShard (tpShardId t) n' ps, (\<lambda>_. [])(fd := sp o'))"
    using b by (simp add: sendFrame_def peer_net_def)
  obtain ss where "readFrame (sp o') = (Some (fst (resp_frame r), snd (resp_frame r)), ss)" "concat ss = []" "[] \<notin> set ss"
    using readFrame_gets[OF assms(8) bs(2) resp_frame_ok(2,1)] by auto
  moreover from this(2,3) have "ss = []" by (cases ss) auto
  ultimately have "recvFrame ?net fd (registerShard (tpShardId t) n' ps, (\<lambda>_. [])(fd := sp o')) =
      (Some (fst (resp_frame r), snd (resp_frame r)), registerShard (tpShardId t) n' ps, \<lambda>_. [])"
    by (simp add: recvFrame_def peer_net_def fun_eq_iff)
  then show "roundTrip ?net (rpc_to c) (fst (rpc_frame c)) (snd (rpc_frame c)) t (ps, \<lambda>_. []) =
      (Some (snd (resp_frame r)), t, registerShard (tpShardId t) n' ps, \<lambda>_. [])"
    using sf assms(1,2) by (simp add: roundTrip_def getConn_def split_beta)
qed

definition demo_transport :: TcpTransport where
  "demo_transport = (TcpTransport_new 0 [2 \<mapsto> (str ''127.0.0.1'', 6101)])\<lparr>tpConns := [2 \<mapsto> 3]\<rparr>"

text \<open>A vote request whose bytes arrive one by one.\<close>

theorem rpc_over_tcp_witness:
  "runJob (peer_net (map (\<lambda>x. [x])) [5, 36] [5, 9]) (SendRequestVote 2 demo_request 1 2) demo_transport
     (registerShard 0 (demo_node 2) (PeerServer_new 6101), \<lambda>_. []) =
   (Inr (Some (VoteResp (fst (handleRequestVote demo_request (demo_node 2))))), demo_transport,
     registerShard 0 (snd (handleRequestVote demo_request (demo_node 2))) (registerShard 0 (demo_node 2) (PeerServer_new 6101)), \<lambda>_. [])"
proof -
  let ?c = "SendRequestVote 2 demo_request 1 2" and ?h = "handleRequestVote demo_request (demo_node 2)"
  have t: "tpConns demo_transport (rpc_to ?c) = Some 3" "tpShardId demo_transport = 0"
    "psShards (registerShard 0 (demo_node 2) (PeerServer_new 6101)) (tpShardId demo_transport) = Some (demo_node 2)"
    by (simp_all add: demo_transport_def TcpTransport_new_def registerShard_def)
  have h: "rpc_handle ?c (demo_node 2) = (Inr (VoteResp (fst ?h)), snd ?h)" by (simp add: split_beta)
  have l: "length (RequestVoteReq_encode demo_request []) = 32" "length (RequestVoteResp_encode (fst ?h) []) = 9"
    by (simp_all add: RequestVoteReq_encode_def RequestVoteResp_encode_def put_append)
  have w: "fst (writeFrame [5, k] y p [])" if "length p = k" "p \<noteq> []" for y k p
    using writeFrame_sends[OF that(2)] that(1) by simp
  have "concat (map (\<lambda>x. [x]) b) = b" "[] \<notin> set (map (\<lambda>x. [x]) b)" for b :: bytes by (induction b) auto
  from rpc_over_tcp[OF t(1) _ t(3) _ _ h this] show ?thesis
    unfolding t(2) using l w[of "putU32 0 [] @ RequestVoteReq_encode demo_request []" 36] w[of "RequestVoteResp_encode (fst ?h) []" 9]
    by (fastforce simp: putU32_append)
qed

section \<open>Descriptors\<close>

text \<open>The jobs that the workers run, one after the other.\<close>

fun runJobs :: "'w Net \<Rightarrow> Rpc list \<Rightarrow> TcpTransport \<Rightarrow> 'w \<Rightarrow> TcpTransport \<times> 'w" where
  "runJobs os [] t w = (t, w)"
| "runJobs os (job # jobs) t w = (case runJob os job t w of (_, t, w) \<Rightarrow> runJobs os jobs t w)"

definition pooled :: "TcpTransport \<Rightarrow> int set" where
  "pooled t = {fd. 0 \<le> fd \<and> (\<exists>i. tpConns t i = Some fd)}"

text \<open>Beyond the descriptors \<open>B\<close> of others, the open ones are those of the pool, each of one peer.\<close>

definition pool_ok :: "('w \<Rightarrow> int set) \<Rightarrow> int set \<Rightarrow> TcpTransport \<Rightarrow> 'w \<Rightarrow> bool" where
  "pool_ok opens B t w \<longleftrightarrow> opens w = B \<union> pooled t \<and> B \<inter> pooled t = {} \<and>
     (\<forall>i j fd. 0 \<le> fd \<longrightarrow> tpConns t i = Some fd \<longrightarrow> tpConns t j = Some fd \<longrightarrow> i = j)"

lemma pooled_update:
  assumes "\<forall>fd. tpConns t i = Some fd \<longrightarrow> fd < 0"
  shows "pooled (t\<lparr>tpConns := (tpConns t)(i \<mapsto> fd)\<rparr>) = (if fd < 0 then pooled t else insert fd (pooled t))"
  using assms by (auto simp: pooled_def split: if_splits)

lemma getConn_pool:
  assumes "net_ok os opens" "pool_ok opens B t w" "getConn os i t w = (fd, t', w')"
  shows "pool_ok opens B t' w'"
proof (cases "t' = t \<and> w' = w")
  case False
  then obtain host port where c: "netConnect os host port w = (fd, w')" "t' = t\<lparr>tpConns := (tpConns t)(i \<mapsto> fd)\<rparr>"
      "\<forall>fd. tpConns t i = Some fd \<longrightarrow> fd < 0"
    using assms(3) by (auto simp: getConn_def split: option.splits prod.splits if_splits)
  have f: "if fd < 0 then opens w' = opens w else fd \<notin> opens w \<and> opens w' = insert fd (opens w)"
    using assms(1) c(1) by (auto simp: net_ok_def opens_fresh_def)
  have "fd \<notin> pooled t" if "0 \<le> fd" using f that assms(2) by (auto simp: pool_ok_def)
  then have "\<forall>a b x. 0 \<le> x \<longrightarrow> tpConns t' a = Some x \<longrightarrow> tpConns t' b = Some x \<longrightarrow> a = b"
    using assms(2) by (auto simp: c(2) pool_ok_def pooled_def)
  moreover have "opens w' = B \<union> pooled t'" "B \<inter> pooled t' = {}"
    using assms(2) f unfolding c(2) pooled_update[OF c(3)] pool_ok_def by (auto split: if_splits)
  ultimately show ?thesis by (simp add: pool_ok_def)
qed (use assms(2) in simp)

lemma dropConn_pool:
  assumes "net_ok os opens" "pool_ok opens B t w" "tcp_dropConn os i t w = (t', w')"
  shows "pool_ok opens B t' w'"
proof (cases "tpConns t i")
  case (Some fd)
  then have t': "t' = t\<lparr>tpConns := (tpConns t)(i \<mapsto> -1)\<rparr>" and w': "w' = (if fd \<ge> 0 then netClose os fd w else w)"
    using assms(3) by (simp_all add: tcp_dropConn_def)
  have "pooled t' = pooled t - {fd}"
    using Some assms(2) by (auto simp: t' pooled_def pool_ok_def split: if_splits) (metis option.inject)
  moreover have "fd \<in> pooled t" if "0 \<le> fd" using Some that by (auto simp: pooled_def)
  moreover have "opens w' = (if fd \<ge> 0 then opens w - {fd} else opens w)" using assms(1) by (simp add: w' net_ok_def)
  moreover have "fd \<notin> pooled t" if "\<not> 0 \<le> fd" using that by (simp add: pooled_def)
  ultimately show ?thesis using assms(2) by (auto simp: pool_ok_def t' split: if_splits)
qed (use assms in \<open>simp add: tcp_dropConn_def\<close>)

lemma pool_ok_opens: "opens w' = opens w \<Longrightarrow> pool_ok opens B t w' = pool_ok opens B t w"
  by (simp add: pool_ok_def)

lemma roundTrip_pool:
  assumes n: "net_ok os opens" and p: "pool_ok opens B t w" and r: "roundTrip os i ty b t w = (x, t', w')"
  shows "pool_ok opens B t' w'"
proof -
  obtain fd t1 w1 where g: "getConn os i t w = (fd, t1, w1)" by (metis prod_cases3)
  have p1: "pool_ok opens B t1 w1" using getConn_pool[OF n p g] .
  obtain ok w2 where s: "sendFrame os fd ty (putU32 (tpShardId t1) [] @ b) w1 = (ok, w2)" by fastforce
  obtain y w3 where v: "recvFrame os fd w2 = (y, w3)" by fastforce
  have o: "opens w2 = opens w1" "opens w3 = opens w1"
    using frame_opens(1)[OF n, of fd ty "putU32 (tpShardId t1) [] @ b" w1] frame_opens(2)[OF n, of fd w2] s v by simp_all
  have p2: "pool_ok opens B t1 w2" "pool_ok opens B t1 w3" using p1 o by (simp_all add: pool_ok_def)
  have "(t', w') \<in> {(t1, w1), (t1, w3), tcp_dropConn os i t1 w2, tcp_dropConn os i t1 w3}"
    using r g s v by (auto simp: roundTrip_def split: if_splits option.splits bool.splits)
  then show ?thesis using p1 p2 dropConn_pool[OF n p2(1), of i] dropConn_pool[OF n p2(2), of i] by auto
qed

lemma runJob_pool:
  assumes "net_ok os opens" "pool_ok opens B t w" "runJob os job t w = (x, t', w')"
  shows "pool_ok opens B t' w'"
  using assms(3) roundTrip_pool[OF assms(1,2)]
  by (cases job) (auto split: prod.splits option.splits)

lemma runJobs_pool:
  assumes "net_ok os opens"
  shows "pool_ok opens B t w \<Longrightarrow> runJobs os jobs t w = (t', w') \<Longrightarrow> pool_ok opens B t' w'"
proof (induction jobs arbitrary: t w)
  case (Cons job jobs)
  obtain x t1 w1 where j: "runJob os job t w = (x, t1, w1)" by (metis prod_cases3)
  show ?case using Cons.IH[OF runJob_pool[OF assms Cons.prems(1) j]] Cons.prems(2) j by simp
qed simp

lemma close_pool:
  assumes "net_ok os opens"
  shows "opens (TcpTransport_close os order t w) = opens w - {fd. 0 \<le> fd \<and> (\<exists>i\<in>set order. tpConns t i = Some fd)}"
proof (induction order arbitrary: w)
  case (Cons i order)
  then show ?case
    using assms by (cases "tpConns t i") (auto simp: TcpTransport_close_def net_ok_def)
qed (simp add: TcpTransport_close_def)

text \<open>
  C21. The transport leaks no descriptor: whatever calls it runs and however sends, receives and connects
  fail, over the system calls that \<open>connectTo\<close> makes, the descriptors open when it has been destroyed are those
  that were open when it was made. Neither a failed \<open>connectTo\<close> nor a dropped connection leaves one behind.
\<close>

theorem transport_no_leak:
  assumes "sys_ok sys opens" "\<And>fd b w. opens (netSend os fd b w) = opens w" "\<And>fd ss w. opens (netLeft os fd ss w) = opens w"
    and "runJobs (sysNet sys os) jobs (TcpTransport_new s addrs) w = (t, w')" "set order = dom (tpConns t)"
  shows "opens (TcpTransport_close (sysNet sys os) order t w') = opens w"
proof -
  have n: "net_ok (sysNet sys os) opens" using assms(1-3) by (rule sysNet_ok)
  have "pool_ok opens (opens w) (TcpTransport_new s addrs) w" by (simp add: pool_ok_def pooled_def TcpTransport_new_def)
  from runJobs_pool[OF n this assms(4)] have p: "pool_ok opens (opens w) t w'" .
  have "{fd. 0 \<le> fd \<and> (\<exists>i\<in>set order. tpConns t i = Some fd)} = pooled t" using assms(5) by (auto simp: pooled_def dom_def)
  then show ?thesis using p unfolding close_pool[OF n] pool_ok_def by blast
qed

definition demo_wire :: "int list Net" where
  "demo_wire = \<lparr>netConnect = (\<lambda>_ _ w. (-1, w)), netRoom = (\<lambda>_ _. [5, 100]), netSend = (\<lambda>_ _ w. w),
     netIn = (\<lambda>_ _. [frame_bytes WRequestVoteResp [9]]), netLeft = (\<lambda>_ _ w. w), netClose = (\<lambda>_ w. w)\<rparr>"

theorem transport_no_leak_witness:
  "\<exists>t w. runJobs (sysNet demo_sys demo_wire) [SendRequestVote 2 demo_request 1 2] (TcpTransport_new 0 [2 \<mapsto> ([49], 6100)]) [0, 1, 2] =
      (t, w) \<and> w = [3, 0, 1, 2] \<and> set (TcpTransport_close (sysNet demo_sys demo_wire) [2] t w) = {0, 1, 2}"
proof -
  let ?os = "sysNet demo_sys demo_wire" and ?t = "TcpTransport_new 0 [2 \<mapsto> ([49], 6100)]"
  let ?t1 = "?t\<lparr>tpConns := [2 \<mapsto> 3]\<rparr>"
  have g: "getConn ?os 2 ?t [0, 1, 2] = (3, ?t1, [3, 0, 1, 2])"
    by (simp add: getConn_def TcpTransport_new_def sysNet_def connectTo_def demo_sys_def)
  have "length (putU32 0 [] @ RequestVoteReq_encode demo_request []) \<le> 100" "putU32 0 [] \<noteq> []"
    by (simp_all add: RequestVoteReq_encode_def putU32_def putU64_def putLE_def)
  then have s: "sendFrame ?os 3 WRequestVoteReq (putU32 0 [] @ RequestVoteReq_encode demo_request []) [3, 0, 1, 2] = (True, [3, 0, 1, 2])"
    by (simp add: sendFrame_def sysNet_def demo_wire_def writeFrame_sends)
  have "\<exists>ss. readFrame [frame_bytes WRequestVoteResp [9]] = (Some (WRequestVoteResp, [9]), ss)"
    using readFrame_gets[of "[frame_bytes WRequestVoteResp [9]]" WRequestVoteResp "[9]" "[]"]
    by (auto simp: frame_bytes_def)
  then have v: "recvFrame ?os 3 [3, 0, 1, 2] = (Some (WRequestVoteResp, [9]), [3, 0, 1, 2])"
    by (auto simp: recvFrame_def sysNet_def demo_wire_def)
  have r: "runJobs ?os [SendRequestVote 2 demo_request 1 2] ?t [0, 1, 2] = (?t1, [3, 0, 1, 2])"
    using s v by (simp add: roundTrip_def g) (simp add: TcpTransport_new_def)
  have "set (TcpTransport_close ?os [2] ?t1 [3, 0, 1, 2]) = set [0, 1, 2]"
    by (rule transport_no_leak[OF demo_sys_ok _ _ r]) (simp_all add: demo_wire_def)
  then show ?thesis using r by simp
qed

end
