(* ===== verification/Node_Main.thy ===== *)
theory Node_Main
  imports Kv_Client Tcp_Transport
begin

text \<open>
  The entry point of a node, \<^verbatim>\<open>server/main.cpp\<close>: its arguments, the list of peers, and the objects it
  builds and connects. The two servers of the process point to one node object; the model of
  the process keeps the node in each, equal when the process starts.
\<close>

section \<open>Arguments\<close>

type_synonym Args = "bytes \<rightharpoonup> bytes"

definition parseArg :: "bytes \<Rightarrow> Args \<Rightarrow> Args result" where
  "parseArg a args =
     (let pos = findFrom 61 a 0
      in if prefix (str ''--'') a \<and> pos \<noteq> npos
         then rbind (substr a 2 (pos - 2)) (\<lambda>k. rbind (substr a (pos + 1) npos) (\<lambda>v. Inr (args(k \<mapsto> v))))
         else Inr args)"

text \<open>The arguments behind the program's name.\<close>

definition parseArgs :: "bytes list \<Rightarrow> Args result" where
  "parseArgs argv = fold (\<lambda>a r. rbind r (parseArg a)) argv (Inr Map.empty)"

definition argAt :: "bytes \<Rightarrow> Args \<Rightarrow> bytes result" where
  "argAt k args = (case args k of None \<Rightarrow> Inl OutOfRange | Some v \<Rightarrow> Inr v)"

section \<open>Peers\<close>

type_synonym PeerAddrs = "NodeId \<rightharpoonup> bytes \<times> int"

definition parsePeer :: "NodeId \<Rightarrow> bytes \<Rightarrow> ClusterConfig \<times> PeerAddrs \<Rightarrow> (ClusterConfig \<times> PeerAddrs) result" where
  "parsePeer self tok = (\<lambda>(cfg, addrs).
     let p1 = findFrom 58 tok 0;
         p2 = findFrom 58 tok (p1 + 1)
     in rbind (rbind (substr tok 0 p1) stoul) (\<lambda>pid.
        rbind (substr tok (p1 + 1) (p2 - p1 - 1)) (\<lambda>host.
        rbind (rbind (substr tok (p2 + 1) npos) stoi) (\<lambda>port.
        let pid = ucast pid
        in Inr (cfg\<lparr>voters := voters cfg @ [pid], addresses := addresses cfg @ [(pid, host @ [58] @ intToString port)]\<rparr>,
             if pid \<noteq> self then addrs(pid \<mapsto> (host, port)) else addrs)))))"

definition parsePeers :: "NodeId \<Rightarrow> bytes \<Rightarrow> (ClusterConfig \<times> PeerAddrs) result" where
  "parsePeers self s =
     fold (\<lambda>tok r. rbind r (parsePeer self tok)) (getlines 44 s) (Inr (\<lparr>voters = [], addresses = []\<rparr>, Map.empty))"

section \<open>The process\<close>

record NodeArgs =
  naId :: NodeId
  naShard :: u32
  naWal :: bytes
  naPeerPort :: int
  naClientPort :: int
  naConfig :: ClusterConfig
  naPeerAddrs :: PeerAddrs

definition nodeArgs :: "bytes list \<Rightarrow> NodeArgs result" where
  "nodeArgs argv =
     rbind (parseArgs argv) (\<lambda>args.
     rbind (rbind (argAt (str ''id'') args) stoul) (\<lambda>i.
     rbind (case args (str ''shard'') of Some s \<Rightarrow> rbind (stoul s) (\<lambda>n. Inr (ucast n)) | None \<Rightarrow> Inr 0) (\<lambda>shardId.
     let wal = (case args (str ''wal'') of Some d \<Rightarrow> d | None \<Rightarrow> str ''/tmp/keyper/'' @ the (args (str ''id''))) in
     rbind (rbind (argAt (str ''peer-port'') args) stoi) (\<lambda>peerPort.
     rbind (rbind (argAt (str ''client-port'') args) stoi) (\<lambda>clientPort.
     rbind (rbind (argAt (str ''peers'') args) (parsePeers (ucast i))) (\<lambda>(cfg, addrs).
     Inr \<lparr>naId = ucast i, naShard = shardId, naWal = wal, naPeerPort = peerPort, naClientPort = clientPort,
       naConfig = cfg, naPeerAddrs = addrs\<rparr>))))))"

definition RaftOptions_default :: "NodeId \<Rightarrow> RaftOptions" where
  "RaftOptions_default i =
     \<lparr>opt_id = i, electionTimeoutMinMs = 150, electionTimeoutMaxMs = 300, heartbeatIntervalMs = 50,
      snapshotThresholdEntries = 10000\<rparr>"

record Process =
  prTransport :: TcpTransport
  prPeers :: PeerServer
  prClients :: KvServer

text \<open>
  \<open>d\<close> are the files under the node's directory, \<open>g\<close> the random numbers, \<open>now\<close> the clock, and \<open>w\<close> the world
  in which the servers open their sockets.
\<close>

definition boot ::
  "'w Sys \<Rightarrow> NodeArgs \<Rightarrow> Disk \<Rightarrow> (nat \<Rightarrow> int) \<Rightarrow> int \<Rightarrow> (int \<Rightarrow> Socket) \<Rightarrow> 'w \<Rightarrow> (Process \<times> 'w) result" where
  "boot sys a d g now socks w =
     rbind (RaftNode_new (RaftOptions_default (naId a)) (naConfig a) d KvStore_empty g now) (\<lambda>n.
     let n = start n;
         (ps, w) = PeerServer_start sys (registerShard (naShard a) n (PeerServer_new (naPeerPort a))) w;
         shards = ShardManager_addShard (naShard a) n (ShardManager_new 128);
         (kv, w) = KvServer_start sys (KvServer_new (naClientPort a) shards 4 socks) w
     in Inr (\<lparr>prTransport = TcpTransport_new (naShard a) (naPeerAddrs a), prPeers = ps, prClients = kv\<rparr>, w))"

section \<open>The list of peers\<close>

text \<open>The argument \<^verbatim>\<open>--peers\<close> as the usage text of the program writes it.\<close>

definition printPeer :: "NodeId \<times> bytes \<times> nat \<Rightarrow> bytes" where
  "printPeer = (\<lambda>(i, host, port). toString (unat i) @ 58 # host @ 58 # toString port)"

fun join :: "u8 \<Rightarrow> bytes list \<Rightarrow> bytes" where
  "join d [] = []"
| "join d [t] = t"
| "join d (t # ts) = t @ d # join d ts"

definition peer_ok :: "NodeId \<times> bytes \<times> nat \<Rightarrow> bool" where
  "peer_ok = (\<lambda>(i, host, port). 58 \<notin> set host \<and> 44 \<notin> set host \<and> length host < 2 ^ 32 \<and> port < 2 ^ 31)"

lemma getlines_single:
  assumes "t \<noteq> []" "d \<notin> set t"
  shows "getlines d (t @ d # s) = t # getlines d s" "getlines d t = [t]"
proof -
  have "takeWhile (\<lambda>x. x \<noteq> d) (t @ d # s) = t" using assms(2) by (subst takeWhile_append2) auto
  then show "getlines d (t @ d # s) = t # getlines d s" using assms(1) by (cases t) (simp_all add: Let_def)
  have "takeWhile (\<lambda>x. x \<noteq> d) t = t" using assms(2) by (auto simp: takeWhile_eq_all_conv)
  then show "getlines d t = [t]" using assms(1) by (cases t) (simp_all add: Let_def)
qed

lemma getlines_join: "\<forall>t\<in>set ts. t \<noteq> [] \<and> d \<notin> set t \<Longrightarrow> getlines d (join d ts) = ts"
  by (induction d ts rule: join.induct) (simp_all add: getlines_single)

lemma toString_length: "length (toString n) \<le> n + 1"
proof (induction n rule: toString.induct)
  case (1 n)
  show ?case
  proof (cases "n < 10")
    case False
    then have "length (toString n) \<le> n div 10 + 2" using 1 by (simp add: toString.simps[of n])
    also have "\<dots> \<le> n + 1" using False by simp
    finally show ?thesis .
  qed (simp add: toString.simps[of n])
qed

lemma toString_no: "c \<in> {58, 44} \<Longrightarrow> c \<notin> set (toString n)"
  using toString_digits(3)[of n] by (auto dest!: isDigit_not)

lemma printPeer_token: "peer_ok p \<Longrightarrow> printPeer p \<noteq> [] \<and> 44 \<notin> set (printPeer p)"
  using toString_no by (auto simp: printPeer_def peer_ok_def)

lemma parsePeer_printed:
  assumes "peer_ok (i, host, port)"
  shows "parsePeer self (printPeer (i, host, port)) (cfg, addrs) =
    Inr (cfg\<lparr>voters := voters cfg @ [i], addresses := addresses cfg @ [(i, host @ 58 # toString port)]\<rparr>,
      if i \<noteq> self then addrs(i \<mapsto> (host, int port)) else addrs)"
proof -
  let ?I = "toString (unat i)" and ?P = "toString port"
  let ?t = "?I @ 58 # host @ 58 # ?P"
  have ok: "58 \<notin> set host" "length host < 2 ^ 32" "port < 2 ^ 31" using assms by (simp_all add: peer_ok_def)
  have i: "unat i < 2 ^ 32" using unsigned_less[of i, where ?'a = nat] by simp
  have len: "length ?t < 2 ^ 64"
    using toString_length[of "unat i"] toString_length[of port] i ok(2,3) by simp
  have p1: "findFrom 58 ?t 0 = of_nat (length ?I)"
    using findFrom_skip[of 58 ?I "[]" "host @ 58 # ?P"] toString_no[of 58 "unat i"] len by simp
  have s1: "(of_nat (length ?I) + 1 :: u64) = of_nat (length (?I @ [58]))" by (simp add: add.commute)
  have p2: "findFrom 58 ?t (of_nat (length ?I) + 1) = of_nat (length ?I + 1 + length host)"
    unfolding s1 using findFrom_skip[of 58 host "?I @ [58]" ?P] ok(1) len by simp
  have d: "of_nat (length ?I + 1 + length host) - of_nat (length ?I) - 1 = (of_nat (length host) :: u64)" by simp
  have s2: "(of_nat (length ?I + 1 + length host) + 1 :: u64) = of_nat (length (?I @ 58 # host @ [58]))" by (simp add: algebra_simps)
  have "substr ?t 0 (of_nat (length ?I)) = Inr ?I" using substr_part[of 0 "length ?I" ?t] len by simp
  moreover have "substr ?t (of_nat (length ?I) + 1) (of_nat (length host)) = Inr host"
    unfolding s1 using substr_part[of "length (?I @ [58])" "length host" ?t] len by simp
  moreover have "length (?I @ 58 # host @ [58]) + length ?P < 2 ^ 64" using len by simp
  from substr_tail[OF this] have "substr ?t (of_nat (length ?I + 1 + length host) + 1) npos = Inr ?P"
    unfolding s2 by simp
  moreover have "stoul ?I = Inr (ucast i)" using stoul_toString[of "unat i"] i by simp
  ultimately show ?thesis
    using ok(3) by (simp add: parsePeer_def printPeer_def p1 p2 d stoi_toString intToString_def Let_def)
qed

lemma parsePeers_fold:
  assumes "\<forall>p\<in>set ps. peer_ok p"
  shows "fold (\<lambda>tok r. rbind r (parsePeer self tok)) (map printPeer ps) (Inr (cfg, addrs)) =
    Inr (\<lparr>voters = voters cfg @ map fst ps, addresses = addresses cfg @ map (\<lambda>(i, h, p). (i, h @ 58 # toString p)) ps\<rparr>,
      addrs ++ map_of (rev (map (\<lambda>(i, h, p). (i, h, int p)) (filter (\<lambda>p. fst p \<noteq> self) ps))))"
  using assms
proof (induction ps arbitrary: cfg addrs)
  case (Cons p ps)
  obtain i h q where "p = (i, h, q)" by (rule prod_cases3)
  then show ?case
    using Cons parsePeer_printed[of i h q self cfg addrs] by (auto simp: map_add_def fun_eq_iff split: option.splits)
qed simp

text \<open>
  The list of peers is read as it is written: for the text \<^verbatim>\<open>id:host:port,\<dots>\<close> every id becomes a
  voter, in order, every peer but the node itself gets its host and port in the transport, and
  the address the configuration keeps of a peer is read back by the client as that host and port.
\<close>

theorem peers_roundtrip:
  assumes "\<forall>p\<in>set ps. peer_ok p" "distinct (map fst ps)"
  shows "\<exists>cfg addrs. parsePeers self (join 44 (map printPeer ps)) = Inr (cfg, addrs) \<and> voters cfg = map fst ps \<and>
    (\<forall>(i, h, p) \<in> set ps. addrs i = (if i = self then None else Some (h, int p)) \<and>
      (\<exists>a. (i, a) \<in> set (addresses cfg) \<and> parseAddr a = Inr (h, int p)))"
proof -
  let ?as = "map (\<lambda>(i, h, p). (i, h, int p)) (filter (\<lambda>p. fst p \<noteq> self) ps)"
  have parsed: "parsePeers self (join 44 (map printPeer ps)) =
      Inr (\<lparr>voters = map fst ps, addresses = map (\<lambda>(i, h, p). (i, h @ 58 # toString p)) ps\<rparr>, map_of (rev ?as))"
    using getlines_join[of "map printPeer ps" 44] printPeer_token assms(1)
    by (simp add: parsePeers_def parsePeers_fold[OF assms(1)])
  have d: "distinct (map fst (rev ?as))"
    using assms(2) by (simp add: rev_map[symmetric] split_beta comp_def distinct_map_filter)
  have "map_of (rev ?as) i = (if i = self then None else Some (h, int p))" if "(i, h, p) \<in> set ps" for i h p
  proof (cases "i = self")
    case True
    then have "i \<notin> fst ` set (rev ?as)" by auto
    then have "map_of (rev ?as) i = None" by (simp only: map_of_eq_None_iff simp_thms)
    then show ?thesis using True by simp
  next
    case False
    then have "(i, h, int p) \<in> set (rev ?as)" using that by force
    then show ?thesis using map_of_is_SomeI[OF d] False by simp
  qed
  note dial = this
  have "parseAddr (h @ 58 # toString p) = Inr (h, int p)" if "(i, h, p) \<in> set ps" for i h p
    using bspec[OF assms(1) that] toString_length[of p] by (intro parseAddr_printed) (simp_all add: peer_ok_def)
  moreover have "(i, h @ 58 # toString p) \<in> set (map (\<lambda>(i, h, p). (i, h @ 58 # toString p)) ps)" if "(i, h, p) \<in> set ps" for i h p
    using that by force
  ultimately have "\<forall>(i, h, p) \<in> set ps. map_of (rev ?as) i = (if i = self then None else Some (h, int p)) \<and>
      (\<exists>a. (i, a) \<in> set (map (\<lambda>(i, h, p). (i, h @ 58 # toString p)) ps) \<and> parseAddr a = Inr (h, int p))"
    using dial by blast
  then show ?thesis unfolding parsed by (intro exI conjI) (rule refl, simp_all only: ClusterConfig.simps)
qed

theorem peers_roundtrip_witness:
  "\<exists>cfg addrs. parsePeers 1 (join 44 (map printPeer [(1, str ''a'', 6100), (2, str ''b'', 6101)])) = Inr (cfg, addrs) \<and>
    voters cfg = [1, 2] \<and> addrs 1 = None \<and> addrs 2 = Some (str ''b'', 6101)"
  using peers_roundtrip[of "[(1, str ''a'', 6100), (2, str ''b'', 6101)]" 1] by (fastforce simp: peer_ok_def str_def)

section \<open>The process after its start\<close>

lemma parseArg_printed:
  assumes "61 \<notin> set k" "length k + length v + 3 < 2 ^ 64"
  shows "parseArg (str ''--'' @ k @ 61 # v) args = Inr (args(k \<mapsto> v))"
proof -
  let ?a = "str ''--'' @ k @ 61 # v"
  have f: "findFrom 61 ?a 0 = of_nat (length (str ''--'' @ k))"
    using findFrom_skip[of 61 "str ''--'' @ k" "[]" v] assms by (simp add: str_def)
  have u: "unat (of_nat (length (str ''--'' @ k)) :: u64) = length k + 2"
    using assms(2) by (simp add: unat_of_nat take_bit_nat_eq_self del: of_nat_Suc of_nat_add)
  have ne: "of_nat (length (str ''--'' @ k)) \<noteq> npos" using u assms(2) unat_npos by auto
  have d: "of_nat (length (str ''--'' @ k)) - 2 = (of_nat (length k) :: u64)" by simp
  have "substr ?a 2 (of_nat (length k)) = Inr k"
    using substr_part[of 2 "length k" ?a] assms(2) by (simp add: str_def)
  moreover have p: "(of_nat (length (str ''--'' @ k)) + 1 :: u64) = of_nat (length (str ''--'' @ k @ [61]))" by simp
  have "substr ?a (of_nat (length (str ''--'' @ k)) + 1) npos = Inr v"
    unfolding p using substr_tail[of "str ''--'' @ k @ [61]" v] assms(2) by simp
  ultimately show ?thesis unfolding parseArg_def f Let_def d using ne by (simp add: prefix_def)
qed

lemma single_shard_owner: "HashRing_shardFor k (HashRing_addShard i (HashRing_new 128)) = i"
proof -
  let ?r = "HashRing_addShard i (HashRing_new 128)"
  have m: "map_of (ring ?r) = (\<lambda>h. if h \<in> points i (HashRing_new 128) then Some i else map_of (ring (HashRing_new 128)) h)"
    by (rule ring_addShard) simp
  have "map_of (ring ?r) (vpoint i 0) = Some i" unfolding m by (simp add: points_def) (simp add: HashRing_new_def)
  then have "ring ?r \<noteq> []" by auto
  from shardFor_owner[OF _ this, of k] obtain h where "map_of (ring ?r) h = Some (HashRing_shardFor k ?r)" by auto
  then show ?thesis unfolding m by (simp add: HashRing_new_def split: if_splits)
qed

lemma boot_node:
  assumes "RaftNode_new (RaftOptions_default (naId a)) (naConfig a) d KvStore_empty g now = Inr n0"
  obtains p w' where "boot sys a d g now socks w = Inr (p, w')"
    "\<forall>k. ShardManager_group (ShardManager_shardFor k (svShards (prClients p))) (svShards (prClients p)) = Some (start n0)"
    "psShards (prPeers p) (naShard a) = Some (start n0)" "tpShardId (prTransport p) = naShard a"
    "length (svLoops (prClients p)) = 4"
  using assms that
  by (simp add: boot_def registerShard_def PeerServer_start_def KvServer_start_def KvServer_new_def startWorkers_def
      ShardManager_addShard_def ShardManager_new_def ShardManager_shardFor_def ShardManager_group_def single_shard_owner
      TcpTransport_new_def Let_def split_beta)

lemma start_keeps: "nlog (start n) = nlog n" "role (start n) = role n" "config (start n) = config n" "opts (start n) = opts n"
  "sm (start n) = sm n" "lastApplied (start n) = lastApplied n" "commitIndex (start n) = commitIndex n" "running (start n)"
  by (simp_all add: start_def resetElectionDeadline_def Let_def)

text \<open>
  A node that has started serves every key from one group: whatever the key, the client server looks
  it up in the group of the node's shard, which is the node the peer server calls for that shard;
  the node holds the log that was on its disk, and it is a running follower of the configuration
  given to it; four workers wait for connections.
\<close>

theorem boot_serves:
  assumes "boot sys a d g now socks w = Inr (p, w')"
  shows "\<exists>n. (\<forall>k. ShardManager_group (ShardManager_shardFor k (svShards (prClients p))) (svShards (prClients p)) = Some n) \<and>
    psShards (prPeers p) (naShard a) = Some n \<and> nlog n = loadFromDisk d \<and> role n = Follower \<and> running n \<and>
    config n = naConfig a \<and> node_id n = naId a \<and> tpShardId (prTransport p) = naShard a \<and> length (svLoops (prClients p)) = 4"
proof -
  obtain n0 where n0: "RaftNode_new (RaftOptions_default (naId a)) (naConfig a) d KvStore_empty g now = Inr n0"
    using assms by (auto simp: boot_def rbind_Inr_iff)
  then have "nlog n0 = loadFromDisk d" "role n0 = Follower" "config n0 = naConfig a" "node_id n0 = naId a"
    by (auto simp: RaftNode_new_def RaftOptions_default_def Let_def split: sum.splits)
  then show ?thesis
    using boot_node[OF n0, of sys socks w] assms by (metis Inr_inject Pair_inject start_keeps)
qed

definition demo_args :: NodeArgs where
  "demo_args = \<lparr>naId = 1, naShard = 0, naWal = str ''/tmp/keyper/1'', naPeerPort = 6100, naClientPort = 7100,
     naConfig = demo_config, naPeerAddrs = Map.empty\<rparr>"

theorem boot_serves_witness:
  "\<exists>p w n. boot demo_sys demo_args Map.empty (\<lambda>_. 0) 0 (\<lambda>_. \<lparr>sockRoom = [], sockOut = []\<rparr>) [0, 1, 2] = Inr (p, w) \<and>
    ShardManager_group (ShardManager_shardFor [1] (svShards (prClients p))) (svShards (prClients p)) = Some n \<and>
    psShards (prPeers p) 0 = Some n \<and> role n = Follower"
proof -
  have "loadSnapshotBytes (loadFromDisk Map.empty) = None" by (simp add: empty_log loadSnapshotBytes_def)
  then obtain p w where p: "boot demo_sys demo_args Map.empty (\<lambda>_. 0) 0 (\<lambda>_. \<lparr>sockRoom = [], sockOut = []\<rparr>) [0, 1, 2] = Inr (p, w)"
    by (simp add: boot_def RaftNode_new_def Let_def split_beta)
  from boot_serves[OF p] show ?thesis using p by (auto simp: demo_args_def)
qed

end
