(* ===== verification/Test_Transport.thy ===== *)
theory Test_Transport
  imports Complex_Main Tcp_Transport
begin

text \<open>
  The in-process network with injected faults, \<^verbatim>\<open>net/test_transport.h\<close>. Nodes are objects in a heap and
  the network's table names the object of an id, since a message keeps the object it was
  addressed to when it was sent. Random numbers and the clock are arguments; rates and numbers
  drawn are reals.
\<close>

type_synonym NodeRef = nat

text \<open>
  A message under way: the object that made the call, the ids of the two ends, the object the
  receiving id stood for, if any, and the call.
\<close>

record Message =
  msgCaller :: NodeRef
  msgSelf :: NodeId
  msgTo :: NodeId
  msgTarget :: "NodeRef option"
  msgRpc :: Rpc

record FaultyNetwork =
  fnNodes :: "NodeId \<rightharpoonup> NodeRef"
  fnPartitioned :: bool
  fnGroupA :: "NodeId set"
  fnDead :: "NodeId set"
  fnDropRate :: real
  fnDuplicateRate :: real
  fnDelayMin :: int
  fnDelayMax :: int
  fnTimers :: "(int \<times> Message) list"
  fnQueue :: "Message list"
  fnHeap :: "NodeRef \<rightharpoonup> RaftNode"
  fnStopping :: bool

definition FaultyNetwork_new :: FaultyNetwork where
  "FaultyNetwork_new = \<lparr>fnNodes = Map.empty, fnPartitioned = False, fnGroupA = {}, fnDead = {}, fnDropRate = 0,
     fnDuplicateRate = 0, fnDelayMin = 0, fnDelayMax = 0, fnTimers = [], fnQueue = [], fnHeap = Map.empty,
     fnStopping = False\<rparr>"

section \<open>Faults\<close>

definition registerNode :: "NodeId \<Rightarrow> NodeRef \<Rightarrow> FaultyNetwork \<Rightarrow> FaultyNetwork" where
  "registerNode i r f = f\<lparr>fnNodes := (fnNodes f)(i \<mapsto> r)\<rparr>"

definition net_partition :: "NodeId set \<Rightarrow> FaultyNetwork \<Rightarrow> FaultyNetwork" where
  "net_partition A f = f\<lparr>fnPartitioned := True, fnGroupA := A\<rparr>"

definition healPartition :: "FaultyNetwork \<Rightarrow> FaultyNetwork" where
  "healPartition f = f\<lparr>fnPartitioned := False\<rparr>"

definition setDropRate :: "real \<Rightarrow> FaultyNetwork \<Rightarrow> FaultyNetwork" where
  "setDropRate p f = f\<lparr>fnDropRate := p\<rparr>"

definition setDuplicateRate :: "real \<Rightarrow> FaultyNetwork \<Rightarrow> FaultyNetwork" where
  "setDuplicateRate p f = f\<lparr>fnDuplicateRate := p\<rparr>"

definition setDelayMs :: "int \<Rightarrow> int \<Rightarrow> FaultyNetwork \<Rightarrow> FaultyNetwork" where
  "setDelayMs minMs maxMs f = f\<lparr>fnDelayMin := minMs, fnDelayMax := maxMs\<rparr>"

definition killNode :: "NodeId \<Rightarrow> FaultyNetwork \<Rightarrow> FaultyNetwork" where
  "killNode i f = f\<lparr>fnDead := insert i (fnDead f)\<rparr>"

definition reviveNode :: "NodeId \<Rightarrow> FaultyNetwork \<Rightarrow> FaultyNetwork" where
  "reviveNode i f = f\<lparr>fnDead := fnDead f - {i}\<rparr>"

definition reachable :: "NodeId \<Rightarrow> NodeId \<Rightarrow> FaultyNetwork \<Rightarrow> bool" where
  "reachable a b f =
     (if a \<in> fnDead f \<or> b \<in> fnDead f then False
      else if \<not> fnPartitioned f then True
      else (a \<in> fnGroupA f) = (b \<in> fnGroupA f))"

definition net_find :: "NodeId \<Rightarrow> FaultyNetwork \<Rightarrow> NodeRef option" where
  "net_find i f = fnNodes f i"

section \<open>Delivery\<close>

text \<open>A \<^verbatim>\<open>multimap\<close> keeps entries by time, and entries of one time in the order they came.\<close>

definition addTimer :: "int \<Rightarrow> Message \<Rightarrow> (int \<times> Message) list \<Rightarrow> (int \<times> Message) list" where
  "addTimer t m ts = takeWhile (\<lambda>p. fst p \<le> t) ts @ (t, m) # dropWhile (\<lambda>p. fst p \<le> t) ts"

text \<open>\<open>r1\<close>, \<open>r2\<close>, \<open>r3\<close> are the numbers that \<open>roll\<close> draws; the conversion to \<^verbatim>\<open>int\<close> of a number that is not negative is its floor.\<close>

definition net_deliver :: "real \<Rightarrow> real \<Rightarrow> real \<Rightarrow> int \<Rightarrow> Message \<Rightarrow> FaultyNetwork \<Rightarrow> FaultyNetwork" where
  "net_deliver r1 r2 r3 now m f =
     (if r1 < fnDropRate f then f
      else
        let copies = (if r2 < fnDuplicateRate f then 2 else 1);
            lo = fnDelayMin f; hi = fnDelayMax f;
            delay = (if lo \<ge> hi then lo else lo + \<lfloor>r3 * real_of_int (hi - lo)\<rfloor>)
        in f\<lparr>fnTimers := (addTimer (now + delay) m ^^ copies) (fnTimers f)\<rparr>)"

text \<open>What the callback does to the node that made the call.\<close>

fun rpc_callback :: "Rpc \<Rightarrow> RpcResp option \<Rightarrow> RaftNode \<Rightarrow> unit outcome" where
  "rpc_callback (SendRequestVote _ _ t k) resp n = (case resp of
     Some (VoteResp r) \<Rightarrow> onVoteResp t k True r n
   | _ \<Rightarrow> onVoteResp t k False \<lparr>rvr_term = 0, voteGranted = False\<rparr> n)"
| "rpc_callback (SendAppendEntries p _ t) resp n = (case resp of
     Some (AppendResp r) \<Rightarrow> onAppendResp p t True r n
   | _ \<Rightarrow> onAppendResp p t False \<lparr>aer_term = 0, success = False, aer_matchIndex = 0, conflictIndex = 0, conflictTerm = 0\<rparr> n)"
| "rpc_callback (SendInstallSnapshot p _ i) resp n = (case resp of
     Some (SnapshotResp r) \<Rightarrow> onSnapshotResp p i True r n
   | _ \<Rightarrow> onSnapshotResp p i False \<lparr>isr_term = 0\<rparr> n)"

definition callBack :: "Message \<Rightarrow> RpcResp option \<Rightarrow> FaultyNetwork \<Rightarrow> unit result \<times> FaultyNetwork" where
  "callBack m resp f =
     (case fnHeap f (msgCaller m) of
        None \<Rightarrow> (Inr (), f)
      | Some n \<Rightarrow> (case rpc_callback (msgRpc m) resp n of (x, n) \<Rightarrow> (x, f\<lparr>fnHeap := (fnHeap f)(msgCaller m \<mapsto> n)\<rparr>)))"

text \<open>\<^verbatim>\<open>TestTransport\<close>'s three calls.\<close>

definition test_send :: "real \<Rightarrow> real \<Rightarrow> real \<Rightarrow> int \<Rightarrow> NodeRef \<Rightarrow> NodeId \<Rightarrow> Rpc \<Rightarrow> FaultyNetwork \<Rightarrow> unit result \<times> FaultyNetwork" where
  "test_send r1 r2 r3 now caller self c f =
     (let m = \<lparr>msgCaller = caller, msgSelf = self, msgTo = rpc_to c, msgTarget = net_find (rpc_to c) f, msgRpc = c\<rparr>
      in if \<not> reachable self (rpc_to c) f then callBack m None f
         else (Inr (), net_deliver r1 r2 r3 now m f))"

text \<open>The job of a message, when a worker runs it.\<close>

definition runMessage :: "Message \<Rightarrow> FaultyNetwork \<Rightarrow> unit result \<times> FaultyNetwork" where
  "runMessage m f =
     (case msgTarget m of
        None \<Rightarrow> callBack m None f
      | Some r \<Rightarrow>
        if \<not> reachable (msgSelf m) (msgTo m) f then callBack m None f
        else (case fnHeap f r of
            None \<Rightarrow> (Inr (), f)
          | Some n \<Rightarrow>
            (case rpc_handle (msgRpc m) n of
               (Inl e, n) \<Rightarrow> (Inl e, f\<lparr>fnHeap := (fnHeap f)(r \<mapsto> n)\<rparr>)
             | (Inr resp, n) \<Rightarrow> callBack m (Some resp) (f\<lparr>fnHeap := (fnHeap f)(r \<mapsto> n)\<rparr>))))"

text \<open>The scheduler's inner loop: every timer that is due becomes a job.\<close>

fun fireDue :: "int \<Rightarrow> (int \<times> Message) list \<Rightarrow> Message list \<Rightarrow> (int \<times> Message) list \<times> Message list" where
  "fireDue now [] q = ([], q)"
| "fireDue now ((t, m) # ts) q = (if t \<le> now then fireDue now ts (q @ [m]) else ((t, m) # ts, q))"

definition schedulerRound :: "int \<Rightarrow> FaultyNetwork \<Rightarrow> FaultyNetwork" where
  "schedulerRound now f = (case fireDue now (fnTimers f) (fnQueue f) of (ts, q) \<Rightarrow> f\<lparr>fnTimers := ts, fnQueue := q\<rparr>)"

text \<open>A worker's turn, as in \<^verbatim>\<open>tcp_transport.h\<close>.\<close>

definition takeMessage :: "FaultyNetwork \<Rightarrow> Message WorkerTurn \<times> FaultyNetwork" where
  "takeMessage f =
     (case fnQueue f of
        [] \<Rightarrow> (if fnStopping f then Ends else Waits, f)
      | m # q \<Rightarrow> (Runs m, f\<lparr>fnQueue := q\<rparr>))"

text \<open>The part of the destructor before the threads are joined.\<close>

definition stopNetwork :: "FaultyNetwork \<Rightarrow> FaultyNetwork" where
  "stopNetwork f = f\<lparr>fnStopping := True\<rparr>"

section \<open>Partitions\<close>

text \<open>A failed call leaves its caller alone.\<close>

lemma rpc_callback_failed: "rpc_callback c None n = (Inr (), n)"
  by (cases c) (simp_all add: onVoteResp_def onAppendResp_def onSnapshotResp_def)

lemma callBack_failed: "callBack m None f = (Inr (), f)"
  by (auto simp: callBack_def rpc_callback_failed fun_upd_idem split: option.splits)

lemma reachable_sym: "reachable a b f = reachable b a f"
  by (auto simp: reachable_def)

text \<open>
  A partition cuts every message. While the network is partitioned, a call across the cut is not
  sent, and a message across the cut that was sent before has no effect when it arrives, in
  either direction: no node changes and nothing more is queued. The callers are told of the
  failure.
\<close>

theorem partition_cuts:
  assumes "(msgSelf m \<in> A) \<noteq> (msgTo m \<in> A)" "(self \<in> A) \<noteq> (rpc_to c \<in> A)"
  shows "runMessage m (net_partition A f) = (Inr (), net_partition A f) \<and>
    test_send r1 r2 r3 now caller self c (net_partition A f) = (Inr (), net_partition A f)"
proof -
  have "\<not> reachable (msgSelf m) (msgTo m) (net_partition A f)" "\<not> reachable self (rpc_to c) (net_partition A f)"
    using assms by (auto simp: reachable_def net_partition_def)
  then show ?thesis by (simp add: runMessage_def test_send_def callBack_failed split: option.splits)
qed

theorem partition_cuts_witness:
  "runMessage \<lparr>msgCaller = 7, msgSelf = 1, msgTo = 2, msgTarget = Some 8, msgRpc = SendRequestVote 2 demo_request 1 2\<rparr>
       (net_partition {1} (FaultyNetwork_new\<lparr>fnHeap := [7 \<mapsto> demo_node 1, 8 \<mapsto> demo_node 2]\<rparr>)) =
     (Inr (), net_partition {1} (FaultyNetwork_new\<lparr>fnHeap := [7 \<mapsto> demo_node 1, 8 \<mapsto> demo_node 2]\<rparr>))"
  using partition_cuts[of "\<lparr>msgCaller = 7, msgSelf = 1, msgTo = 2, msgTarget = Some 8, msgRpc = SendRequestVote 2 demo_request 1 2\<rparr>"
      "{1}" 1 "SendRequestVote 2 demo_request 1 2"] by simp

section \<open>Delays and duplicates\<close>

lemma fireDue_sorted:
  "sorted (map fst ts) \<Longrightarrow> fireDue now ts q = (filter (\<lambda>p. now < fst p) ts, q @ map snd (filter (\<lambda>p. fst p \<le> now) ts))"
proof (induction now ts q rule: fireDue.induct)
  case (2 now t m ts q)
  show ?case
  proof (cases "t \<le> now")
    case False
    then have "\<forall>p\<in>set ts. now < fst p" using 2(2) by fastforce
    then have "filter (\<lambda>p. now < fst p) ts = ts" "filter (\<lambda>p. fst p \<le> now) ts = []" by (auto simp: filter_empty_conv)
    then show ?thesis using False by simp
  qed (use 2 in simp)
qed simp

lemma addTimer_sorted: "sorted (map fst ts) \<Longrightarrow> sorted (map fst (addTimer t m ts))"
proof (induction ts)
  case (Cons p ts)
  show ?case
  proof (cases "fst p \<le> t")
    case True
    then have "addTimer t m (p # ts) = p # addTimer t m ts" "set (addTimer t m ts) \<subseteq> insert (t, m) (set ts)"
      by (auto simp: addTimer_def dest: set_takeWhileD set_dropWhileD)
    then show ?thesis using Cons True by auto
  qed (use Cons in \<open>auto simp: addTimer_def\<close>)
qed (simp add: addTimer_def)

lemma addTimer_count:
  "count_list (map snd (filter P (addTimer t m ts))) x = count_list (map snd (filter P ts)) x + (if P (t, m) \<and> m = x then 1 else 0)"
proof -
  have "filter P ts = filter P (takeWhile (\<lambda>p. fst p \<le> t) ts) @ filter P (dropWhile (\<lambda>p. fst p \<le> t) ts)"
    by (metis filter_append takeWhile_dropWhile_id)
  then show ?thesis by (auto simp: addTimer_def count_list_append)
qed


definition demo_message :: Message where
  "demo_message = \<lparr>msgCaller = 7, msgSelf = 1, msgTo = 2, msgTarget = Some 8, msgRpc = SendRequestVote 2 demo_request 1 2\<rparr>"


end
