(* ===== verification/Worker_Pool.thy ===== *)
theory Worker_Pool
  imports Test_Transport
begin

text \<open>
  The pools of threads of \<^verbatim>\<open>net/tcp_transport.h\<close> and \<^verbatim>\<open>net/test_transport.h\<close>: the same loop of a worker over two
  queues, the condition variable it waits on, and the two destructors. A step is a locked section or a whole job. The
  locale \<open>worker_pool\<close> is what the loop needs of a queue. Waits that end although nothing was notified are left out.
\<close>

section \<open>The loop of a worker\<close>

text \<open>A worker waits on the condition variable, is about to look at the queue, runs a job, or has returned.\<close>

datatype 'j Worker = Asleep | Awake | Busy 'j | Ended

text \<open>What the queue belongs to, the workers, and the jobs that were taken so far.\<close>

type_synonym ('s, 'j) Pool = "'s \<times> 'j Worker list \<times> 'j list"

inductive worker_step :: "('s \<Rightarrow> 'j WorkerTurn \<times> 's) \<Rightarrow> ('j \<Rightarrow> 's \<Rightarrow> unit result \<times> 's) \<Rightarrow> ('s, 'j) Pool \<Rightarrow> ('s, 'j) Pool \<Rightarrow> bool"
  for takeNext run where
  sleeps: "\<lbrakk>i < length ws; ws ! i = Awake; takeNext s = (Waits, s')\<rbrakk> \<Longrightarrow> worker_step takeNext run (s, ws, js) (s', ws[i := Asleep], js)"
| returns: "\<lbrakk>i < length ws; ws ! i = Awake; takeNext s = (Ends, s')\<rbrakk> \<Longrightarrow> worker_step takeNext run (s, ws, js) (s', ws[i := Ended], js)"
| takes: "\<lbrakk>i < length ws; ws ! i = Awake; takeNext s = (Runs j, s')\<rbrakk> \<Longrightarrow> worker_step takeNext run (s, ws, js) (s', ws[i := Busy j], js @ [j])"
| completes: "\<lbrakk>i < length ws; ws ! i = Busy j; run j s = (Inr (), s')\<rbrakk> \<Longrightarrow> worker_step takeNext run (s, ws, js) (s', ws[i := Awake], js)"

lemma worker_stepE:
  assumes "worker_step takeNext run (s, ws, js) (s', ws', js')"
  obtains (sleeps) i where "i < length ws" "ws ! i = Awake" "takeNext s = (Waits, s')" "ws' = ws[i := Asleep]" "js' = js"
  | (returns) i where "i < length ws" "ws ! i = Awake" "takeNext s = (Ends, s')" "ws' = ws[i := Ended]" "js' = js"
  | (takes) i j where "i < length ws" "ws ! i = Awake" "takeNext s = (Runs j, s')" "ws' = ws[i := Busy j]" "js' = js @ [j]"
  | (completes) i j where "i < length ws" "ws ! i = Busy j" "run j s = (Inr (), s')" "ws' = ws[i := Awake]" "js' = js"
  using assms by cases auto

text \<open>\<^verbatim>\<open>notify_one\<close> wakes one of the workers that wait, if any; \<^verbatim>\<open>notify_all\<close> wakes all.\<close>

definition notify_one :: "'j Worker list \<Rightarrow> 'j Worker list \<Rightarrow> bool" where
  "notify_one ws ws' \<longleftrightarrow> (if Asleep \<in> set ws then \<exists>i<length ws. ws ! i = Asleep \<and> ws' = ws[i := Awake] else ws' = ws)"

definition notify_all :: "'j Worker list \<Rightarrow> 'j Worker list" where
  "notify_all ws = map (\<lambda>w. case w of Asleep \<Rightarrow> Awake | _ \<Rightarrow> w) ws"

lemma notify_all_set: "Asleep \<notin> set (notify_all ws)" "Ended \<in> set (notify_all ws) \<longleftrightarrow> Ended \<in> set ws"
    "length (notify_all ws) = length ws"
  by (force simp: notify_all_def split: Worker.splits)+

lemma notify_one_awake:
  assumes "notify_one ws ws'"
  shows "length ws' = length ws" "Ended \<in> set ws' \<Longrightarrow> Ended \<in> set ws" "ws \<noteq> [] \<Longrightarrow> \<exists>v\<in>set ws'. v \<noteq> Asleep"
proof -
  show "length ws' = length ws" "Ended \<in> set ws' \<Longrightarrow> Ended \<in> set ws"
    using assms by (auto simp: notify_one_def split: if_splits dest: subsetD[OF set_update_subset_insert])
  show "\<exists>v\<in>set ws'. v \<noteq> Asleep" if "ws \<noteq> []"
  proof (cases "Asleep \<in> set ws")
    case True
    then have "Awake \<in> set ws'" using assms by (auto simp: notify_one_def set_update_memI)
    then show ?thesis by blast
  next
    case False
    then have "hd ws \<in> set ws'" "hd ws \<noteq> Asleep" using assms hd_in_set[OF that] by (simp add: notify_one_def, metis)
    then show ?thesis by blast
  qed
qed

section \<open>What a queue promises\<close>

text \<open>Bounds the steps that a worker of a stopping pool still makes without taking another job.\<close>

fun work_left :: "'j Worker \<Rightarrow> nat" where
  "work_left Ended = 0"
| "work_left (Busy _) = 2"
| "work_left _ = 1"

lemma work_left_update:
  "i < length ws \<Longrightarrow> sum_list (map work_left (ws[i := w])) + work_left (ws ! i) = sum_list (map work_left ws) + work_left w"
proof (induction ws arbitrary: i)
  case (Cons v ws)
  then show ?case by (cases i) auto
qed simp

lemma work_left_bound: "sum_list (map work_left ws) \<le> 2 * length ws"
proof (induction ws)
  case (Cons w ws)
  then show ?case by (cases w) auto
qed simp

locale worker_pool =
  fixes takeNext :: "'s \<Rightarrow> 'j WorkerTurn \<times> 's" and run :: "'j \<Rightarrow> 's \<Rightarrow> unit result \<times> 's"
    and queue :: "'s \<Rightarrow> 'j list" and stopping :: "'s \<Rightarrow> bool"
  assumes take_empty: "queue s = [] \<Longrightarrow> takeNext s = (if stopping s then Ends else Waits, s)"
    and take_job: "queue s = j # q \<Longrightarrow> \<exists>s'. takeNext s = (Runs j, s') \<and> queue s' = q \<and> stopping s' = stopping s"
    and run_keeps: "run j s = (x, s') \<Longrightarrow> queue s' = queue s \<and> stopping s' = stopping s"
begin

lemma take_cases:
  obtains (wait) "queue s = []" "takeNext s = (Waits, s)" "\<not> stopping s"
  | (ends) "queue s = []" "takeNext s = (Ends, s)" "stopping s"
  | (job) j s' where "takeNext s = (Runs j, s')" "queue s = j # queue s'" "stopping s' = stopping s"
proof (cases "queue s")
  case Nil
  with take_empty[of s] wait ends show ?thesis by (cases "stopping s") auto
next
  case (Cons j q)
  with take_job[of s j q] job show ?thesis by auto
qed

text \<open>Jobs are taken in the order of the queue, each once, and a worker returns only from an empty queue of a pool that stops.\<close>

lemma step_order:
  assumes "worker_step takeNext run (s, ws, js) (s', ws', js')"
  shows "js' @ queue s' = js @ queue s" "stopping s' = stopping s" "length ws' = length ws"
    "Ended \<in> set ws' \<Longrightarrow> Ended \<in> set ws \<or> stopping s \<and> queue s = []"
proof -
  have "js' @ queue s' = js @ queue s \<and> stopping s' = stopping s \<and> length ws' = length ws \<and>
      (Ended \<in> set ws' \<longrightarrow> Ended \<in> set ws \<or> stopping s \<and> queue s = [])"
    using assms
  proof (cases rule: worker_stepE)
    case (completes i j)
    then show ?thesis by (auto dest!: run_keeps dest: subsetD[OF set_update_subset_insert])
  qed (cases s rule: take_cases; auto dest: subsetD[OF set_update_subset_insert])+
  then show "js' @ queue s' = js @ queue s" "stopping s' = stopping s" "length ws' = length ws"
    "Ended \<in> set ws' \<Longrightarrow> Ended \<in> set ws \<or> stopping s \<and> queue s = []" by simp_all
qed

text \<open>A worker that waits leaves nothing in the queue.\<close>

lemma step_no_lost_wakeup:
  assumes "worker_step takeNext run (s, ws, js) (s', ws', js')" "queue s' \<noteq> []"
  shows "\<exists>w\<in>set ws'. w \<noteq> Asleep"
  using assms
proof (cases rule: worker_stepE)
  case (sleeps i)
  then show ?thesis using assms(2) by (cases s rule: take_cases) auto
qed (auto simp: set_update_memI intro!: bexI[OF _ set_update_memI])

text \<open>When the pool stops and no worker waits, every step brings its end nearer.\<close>

definition draining :: "'s \<Rightarrow> 'j Worker list \<Rightarrow> bool" where
  "draining s ws \<longleftrightarrow> stopping s \<and> Asleep \<notin> set ws \<and> (Ended \<in> set ws \<longrightarrow> queue s = [])"

definition steps_left :: "'s \<Rightarrow> 'j Worker list \<Rightarrow> nat" where
  "steps_left s ws = 2 * length (queue s) + sum_list (map work_left ws)"

lemma draining_step:
  assumes "worker_step takeNext run (s, ws, js) (s', ws', js')" "draining s ws"
  shows "draining s' ws' \<and> steps_left s' ws' < steps_left s ws"
  using assms(1)
proof (cases rule: worker_stepE)
  case (sleeps i)
  then show ?thesis using assms(2) by (cases s rule: take_cases) (auto simp: draining_def)
next
  case (returns i)
  then show ?thesis using assms(2) work_left_update[of i ws Ended]
    by (cases s rule: take_cases) (auto simp: draining_def steps_left_def dest: subsetD[OF set_update_subset_insert])
next
  case (takes i j)
  then show ?thesis using assms(2) work_left_update[of i ws "Busy j"]
    by (cases s rule: take_cases) (auto simp: draining_def steps_left_def dest: subsetD[OF set_update_subset_insert])
next
  case (completes i j)
  then show ?thesis using assms(2) work_left_update[of i ws Awake]
    by (auto simp: draining_def steps_left_def dest!: run_keeps dest: subsetD[OF set_update_subset_insert])
qed

lemma draining_steps:
  assumes "(worker_step takeNext run ^^ k) (s, ws, js) (s', ws', js')" "draining s ws"
  shows "draining s' ws' \<and> k + steps_left s' ws' \<le> steps_left s ws \<and> js' @ queue s' = js @ queue s \<and> length ws' = length ws"
  using assms
proof (induction k arbitrary: s' ws' js')
  case (Suc k)
  then obtain p where p: "(worker_step takeNext run ^^ k) (s, ws, js) p" "worker_step takeNext run p (s', ws', js')" by auto
  obtain s1 ws1 js1 where q: "p = (s1, ws1, js1)" by (cases p)
  note i = Suc.IH[OF p(1)[unfolded q] Suc.prems(2)]
  from draining_step[OF p(2)[unfolded q]] step_order[OF p(2)[unfolded q]] i show ?case by auto
qed auto

text \<open>A pool that stops comes to rest only when every worker has returned or runs a job that throws.\<close>

lemma draining_rest:
  assumes "draining s ws" "\<not> (\<exists>p. worker_step takeNext run (s, ws, js) p)" "w \<in> set ws"
  shows "w = Ended \<or> (\<exists>j. w = Busy j \<and> isl (fst (run j s)))"
proof -
  obtain i where i: "i < length ws" "ws ! i = w" using assms(3) by (auto simp: in_set_conv_nth)
  show ?thesis
  proof (cases w)
    case Awake
    then show ?thesis using assms(2) i by (cases s rule: take_cases) (blast intro: worker_step.intros)+
  next
    case (Busy j)
    obtain x s' where r: "run j s = (x, s')" by (cases "run j s")
    then show ?thesis using assms(2) i Busy worker_step.completes[of i ws j run s s' takeNext js] by (cases x) auto
  qed (use assms(1,3) in \<open>auto simp: draining_def\<close>)
qed

end

section \<open>The pool of the transport\<close>

text \<open>The transport and the world its calls change; what a callback does to its node is not part of the pool.\<close>

definition tcp_take :: "TcpTransport \<times> 'w \<Rightarrow> Rpc WorkerTurn \<times> TcpTransport \<times> 'w" where
  "tcp_take s = (case takeJob (fst s) of (turn, t) \<Rightarrow> (turn, t, snd s))"

definition tcp_run :: "'w Net \<Rightarrow> Rpc \<Rightarrow> TcpTransport \<times> 'w \<Rightarrow> unit result \<times> TcpTransport \<times> 'w" where
  "tcp_run os job s = (case runJob os job (fst s) (snd s) of (x, t, w) \<Rightarrow> (rbind x (\<lambda>_. Inr ()), t, w))"

text \<open>The constructor's threads, and the part of the destructor before it joins them.\<close>

definition tcp_start :: "nat \<Rightarrow> TcpTransport \<Rightarrow> 'w \<Rightarrow> (TcpTransport \<times> 'w, Rpc) Pool" where
  "tcp_start workers t w = ((t, w), replicate workers Awake, [])"

definition tcp_stop :: "(TcpTransport \<times> 'w, Rpc) Pool \<Rightarrow> (TcpTransport \<times> 'w, Rpc) Pool" where
  "tcp_stop p = (case p of ((t, w), ws, js) \<Rightarrow> ((stopTransport t, w), notify_all ws, js))"

text \<open>The pool in use, with the calls that were made so far.\<close>

inductive tcp_pool_step :: "'w Net \<Rightarrow> (TcpTransport \<times> 'w, Rpc) Pool \<times> Rpc list \<Rightarrow> (TcpTransport \<times> 'w, Rpc) Pool \<times> Rpc list \<Rightarrow> bool"
  for os where
  call: "notify_one ws ws' \<Longrightarrow> tcp_pool_step os (((t, w), ws, js), cs) (((enqueue c t, w), ws', js), cs @ [c])"
| work: "worker_step tcp_take (tcp_run os) p p' \<Longrightarrow> tcp_pool_step os (p, cs) (p', cs)"

lemma tcp_dropConn_queue: "tcp_dropConn os to t w = (t', w') \<Longrightarrow> tpQueue t' = tpQueue t \<and> tpStopping t' = tpStopping t"
  by (auto simp: tcp_dropConn_def split: option.splits)

lemma getConn_queue: "getConn os to t w = (fd, t', w') \<Longrightarrow> tpQueue t' = tpQueue t \<and> tpStopping t' = tpStopping t"
  by (auto simp: getConn_def split: option.splits if_splits prod.splits)

lemma roundTrip_queue:
  assumes "roundTrip os to type payload t w = (x, t', w')"
  shows "tpQueue t' = tpQueue t \<and> tpStopping t' = tpStopping t"
proof -
  obtain fd t1 w1 where c: "getConn os to t w = (fd, t1, w1)" by (metis prod_cases3)
  from assms getConn_queue[OF c] show ?thesis
    by (auto simp: roundTrip_def c split: if_splits prod.splits bool.splits option.splits dest: tcp_dropConn_queue)
qed

lemma runJob_queue: "runJob os job t w = (x, t', w') \<Longrightarrow> tpQueue t' = tpQueue t \<and> tpStopping t' = tpStopping t"
  by (cases job) (auto split: prod.splits option.splits dest: roundTrip_queue)

interpretation tcpPool: worker_pool tcp_take "tcp_run os" "\<lambda>s. tpQueue (fst s)" "\<lambda>s. tpStopping (fst s)" for os
proof
  fix job :: Rpc and s s' :: "TcpTransport \<times> 'a" and x
  assume "tcp_run os job s = (x, s')"
  then show "tpQueue (fst s') = tpQueue (fst s) \<and> tpStopping (fst s') = tpStopping (fst s)"
    by (cases s'; auto simp: tcp_run_def split: prod.splits dest: runJob_queue)
qed (auto simp: tcp_take_def takeJob_def)

text \<open>What holds of a pool in use.\<close>

lemma tcp_pool_inv:
  assumes "(tcp_pool_step os)\<^sup>*\<^sup>* (tcp_start n (TcpTransport_new shard addrs) w, []) (((t', w'), ws, js), cs)" "0 < n"
  shows "\<not> tpStopping t' \<and> Ended \<notin> set ws \<and> length ws = n \<and> js @ tpQueue t' = cs \<and> (tpQueue t' \<noteq> [] \<longrightarrow> (\<exists>v\<in>set ws. v \<noteq> Asleep))"
  using assms(1)
proof (induction "((t', w'), ws, js)" cs arbitrary: t' w' ws js rule: rtranclp_induct2)
  case refl
  then show ?case using assms(2) by (auto simp: tcp_start_def TcpTransport_new_def)
next
  case (step p cs cs' t' w' ws js)
  obtain t w ws0 js0 where p: "p = ((t, w), ws0, js0)" by (metis surj_pair)
  note ih = step.hyps(3)[OF p]
  from step.hyps(2)[unfolded p] show ?case
  proof cases
    case (call c)
    then show ?thesis using ih notify_one_awake[of ws0 ws] assms(2) length_greater_0_conv[of ws0] by (simp add: enqueue_def) blast
  next
    case work
    note s = tcpPool.step_order[OF work(2)] and l = tcpPool.step_no_lost_wakeup[OF work(2)]
    show ?thesis using ih s l work(1) by auto
  qed
qed



section \<open>The pool of the test network\<close>

text \<open>The next timer becomes a job when it is due; the scheduler has the lock for one timer at a time.\<close>

definition fireFirst :: "int \<Rightarrow> FaultyNetwork \<Rightarrow> FaultyNetwork option" where
  "fireFirst now f =
     (case fnTimers f of
        [] \<Rightarrow> None
      | (t, m) # ts \<Rightarrow> if t \<le> now then Some (f\<lparr>fnTimers := ts, fnQueue := fnQueue f @ [m]\<rparr>) else None)"

definition net_start :: "nat \<Rightarrow> (FaultyNetwork, Message) Pool \<times> bool" where
  "net_start workers = ((FaultyNetwork_new, replicate workers Awake, []), True)"

text \<open>The destructor sets the flag and notifies the scheduler, whose condition variable is another one.\<close>

definition net_stop :: "(FaultyNetwork, Message) Pool \<times> bool \<Rightarrow> (FaultyNetwork, Message) Pool \<times> bool" where
  "net_stop p = (case p of ((f, ws, ms), alive) \<Rightarrow> ((stopNetwork f, ws, ms), alive))"

text \<open>The threads of the network: the scheduler, which is alive until it sees the flag, and the workers.\<close>

inductive net_step :: "(FaultyNetwork, Message) Pool \<times> bool \<Rightarrow> (FaultyNetwork, Message) Pool \<times> bool \<Rightarrow> bool" where
  fires: "\<lbrakk>fireFirst now f = Some f'; notify_one ws ws'\<rbrakk> \<Longrightarrow> net_step ((f, ws, ms), True) ((f', ws', ms), True)"
| leaves: "fnStopping f \<Longrightarrow> net_step ((f, ws, ms), True) ((f, ws, ms), False)"
| works: "worker_step takeMessage runMessage p p' \<Longrightarrow> net_step (p, alive) (p', alive)"

lemma callBack_queue: "callBack m r f = (x, f') \<Longrightarrow> fnQueue f' = fnQueue f \<and> fnStopping f' = fnStopping f"
  by (auto simp: callBack_def split: option.splits prod.splits)

interpretation netPool: worker_pool takeMessage runMessage fnQueue fnStopping
proof
  fix m f f' and x :: "unit result"
  assume "runMessage m f = (x, f')"
  then show "fnQueue f' = fnQueue f \<and> fnStopping f' = fnStopping f"
    by (auto simp: runMessage_def split: option.splits if_splits prod.splits sum.splits dest: callBack_queue)
qed (auto simp: takeMessage_def)

text \<open>
  A test network that is idle is never destroyed. Its workers wait on a condition variable that the destructor
  does not notify: after it, whatever the threads of the network do, every worker still waits, and the destructor does not
  get past joining the first of them.
\<close>

theorem idle_network_never_destroyed:
  assumes "fnTimers f = []" "fnQueue f = []" "set ws = {Asleep}" "net_step\<^sup>*\<^sup>* (net_stop ((f, ws, ms), True)) ((f', ws', ms'), alive)"
  shows "set ws' = {Asleep}"
proof -
  have "case p' of ((g, vs, _), _) \<Rightarrow> fnTimers g = [] \<and> set vs = {Asleep}"
    if "net_step\<^sup>*\<^sup>* (net_stop ((f, ws, ms), True)) p'" for p'
    using that
  proof (induction rule: rtranclp_induct)
    case base
    show ?case using assms(1,3) by (simp add: net_stop_def stopNetwork_def)
  next
    case (step p p')
    from step.hyps(2) step.IH show ?case
    proof cases
      case (works p q alive)
      from works(3) works(1) step.IH show ?thesis
        by cases (fastforce dest: nth_mem)+
    qed (auto simp: fireFirst_def)
  qed
  from this[OF assms(4)] show ?thesis by simp
qed

text \<open>A network with one worker that found nothing to do.\<close>

theorem idle_network_never_destroyed_witness:
  "\<exists>f ws ms. net_step\<^sup>*\<^sup>* (net_start 1) ((f, ws, ms), True) \<and> fnQueue f = [] \<and>
     (\<nexists>f' ms' alive. net_step\<^sup>*\<^sup>* (net_stop ((f, ws, ms), True)) ((f', [Ended], ms'), alive))"
proof -
  have "worker_step takeMessage runMessage (FaultyNetwork_new, [Awake], []) (FaultyNetwork_new, [Asleep], [])"
    using worker_step.sleeps[of 0 "[Awake]" takeMessage FaultyNetwork_new FaultyNetwork_new runMessage "[]"]
    by (simp add: takeMessage_def FaultyNetwork_new_def)
  then have "net_step\<^sup>*\<^sup>* (net_start 1) ((FaultyNetwork_new, [Asleep], []), True)"
    by (auto simp: net_start_def intro: net_step.works)
  moreover have "False" if "net_step\<^sup>*\<^sup>* (net_stop ((FaultyNetwork_new, [Asleep], []), True)) ((f', [Ended], ms'), alive)" for f' ms' alive
    using idle_network_never_destroyed[OF _ _ _ that] by (simp add: FaultyNetwork_new_def)
  ultimately show ?thesis by (intro exI[of _ FaultyNetwork_new] exI[of _ "[Asleep]"] exI[of _ "[]"]) (auto simp: FaultyNetwork_new_def)
qed

end
