(* ===== verification/Raft_Log_Matching.thy ===== *)
theory Raft_Log_Matching
  imports Raft_Replication "HOL-Library.Sublist"
begin

text \<open>
  The logs of a whole cluster. \<open>uncompacted\<close> are the runs of the cluster in which no node takes or
  installs a snapshot and no log fills the range of its 64-bit index; over them the logs stay
  well-formed, and two logs that hold an entry of the same index and term are the same up to it. The proof
  keeps a set \<open>G\<close> of all the logs there ever were, closed under prefixes, in which a log is
  determined by its length and its last term; every log is in it, and every AppendEntries request is a
  piece of a member.
\<close>

section \<open>Runs without compaction\<close>

definition plain :: "RaftNode \<Rightarrow> bool" where
  "plain n \<longleftrightarrow> snapshotIndex (nlog n) = 0 \<and> length (entries (nlog n)) + 1 < 2 ^ 64"

inductive uncompacted :: "ClusterConfig \<Rightarrow> Cluster \<Rightarrow> bool" for cfg where
  init: "(\<And>i. opt_id (os i) = i) \<Longrightarrow>
    (\<And>i. RaftNode_new (os i) cfg Map.empty KvStore_empty (gs i) (ts i) = Inr (ns i)) \<Longrightarrow>
    uncompacted cfg \<lparr>nodes = (\<lambda>i. start (ns i)), epoch = (\<lambda>_. 0), net = {}, cast = {}, elected = {}\<rparr>"
| step: "uncompacted cfg c \<Longrightarrow> cstep cfg c c' \<Longrightarrow> (\<And>i. plain (nodes c' i)) \<Longrightarrow> uncompacted cfg c'"

lemma uncompacted_reachable: "uncompacted cfg c \<Longrightarrow> reachable cfg c"
  by (induction rule: uncompacted.induct) (auto intro: reachable.intros)

section \<open>What a step does to a log\<close>

text \<open>A log of one node that starts at index 1: consecutive indices, and terms that are not 0 and never fall.\<close>

definition typed :: "LogEntry list \<Rightarrow> bool" where
  "typed xs \<longleftrightarrow> contiguous 1 xs \<and> length xs + 1 < 2 ^ 64 \<and> (\<forall>e\<in>set xs. eterm e \<noteq> 0) \<and> sorted (map eterm xs)"

text \<open>The request holds what the node's log has after the previous index, in the node's term.\<close>

definition sent_from :: "RaftNode \<Rightarrow> AppendEntriesReq \<Rightarrow> bool" where
  "sent_from n q \<longleftrightarrow> ae_term q = node_term n \<and> prevLogTerm q = termAt (prevLogIndex q) (nlog n) \<and>
     ae_entries q = entriesAfter (prevLogIndex q) 200 (nlog n)"

definition calls_from :: "RaftNode \<Rightarrow> bool" where
  "calls_from n \<longleftrightarrow> (\<forall>p q t. SendAppendEntries p q t \<in> set (outbox n) \<longrightarrow> sent_from n q)"

text \<open>
  A step of a node that is no AppendEntries handler: it may win an election or move to a later term, it
  keeps its log or, as a leader, adds one entry, and what it sends is from the log it then has.
\<close>

definition turns :: "RaftNode \<Rightarrow> RaftNode \<Rightarrow> bool" where
  "turns n n' \<longleftrightarrow> node_term n \<le> node_term n' \<and> (role n' = Follower \<or> node_term n < node_term n' \<or>
     role n' = role n \<or> role n = Candidate)"

definition grows :: "RaftNode \<Rightarrow> RaftNode \<Rightarrow> bool" where
  "grows n n' \<longleftrightarrow> entries (nlog n') = entries (nlog n) \<or> role n' = Leader \<and>
     (\<exists>e. entries (nlog n') = entries (nlog n) @ [e] \<and> eterm e = node_term n' \<and> eindex e = lastIndex (nlog n) + 1)"

definition advances :: "RaftNode \<Rightarrow> RaftNode \<Rightarrow> bool" where
  "advances n n' \<longleftrightarrow> turns n n' \<and> grows n n' \<and> calls_from n'"

lemma quiet_turns: "quiet n n' \<Longrightarrow> turns n n'"
  by (auto simp: quiet_def turns_def)

text \<open>Compaction shows in the snapshot index.\<close>

lemma compactUpTo_plain: "snapshotIndex (compactUpTo i t b L) = 0 \<Longrightarrow> compactUpTo i t b L = L"
  by (auto simp: compactUpTo_def Let_def rewriteWalLocked_def writeSnapshotLocked_def split: if_splits)

lemma compactUpTo_plain_entries:
  "snapshotIndex (compactUpTo i t b L) = 0 \<Longrightarrow> entries (compactUpTo i t b L) = entries L"
  by (drule compactUpTo_plain) simp

lemma forceSnapshot_plain: "snapshotIndex (nlog (forceSnapshot n)) = 0 \<Longrightarrow> forceSnapshot n = n"
  using compactUpTo_plain by (auto simp: forceSnapshot_def forceSnapshot_write_def split: option.splits)

lemma maybeSnapshot_plain: "snapshotIndex (nlog (maybeSnapshot n)) = 0 \<Longrightarrow> maybeSnapshot n = n"
  using forceSnapshot_plain by (auto simp: maybeSnapshot_def split: if_splits)

text \<open>A node whose outbox is empty and whose log stays sends nothing that is not from its log.\<close>

lemma advances_silent:
  assumes "quiet n n'" "entries (nlog n') = entries (nlog n)" "outbox n' = []"
  shows "advances n n'"
  using assms by (simp add: advances_def quiet_turns grows_def calls_from_def)

lemma sendAppendEntriesTo_calls: "calls_from n \<Longrightarrow> calls_from (sendAppendEntriesTo p n)"
  by (auto simp: calls_from_def sendAppendEntriesTo_def sent_from_def Let_def)

lemma sendInstallSnapshotTo_calls: "calls_from n \<Longrightarrow> calls_from (sendInstallSnapshotTo p n)"
  by (auto simp: calls_from_def sendInstallSnapshotTo_def sent_from_def Let_def)

lemma broadcast_calls: "calls_from n \<Longrightarrow> calls_from (broadcastAppendEntries n)"
proof -
  have "calls_from n \<Longrightarrow> calls_from (fold (\<lambda>peer n.
          if peer = node_id n then n
          else if nextOf peer n \<le> snapshotIndex (nlog n) then sendInstallSnapshotTo peer n
          else sendAppendEntriesTo peer n) ps n)" for ps
    by (induction ps arbitrary: n) (auto intro: sendAppendEntriesTo_calls sendInstallSnapshotTo_calls)
  then show "calls_from n \<Longrightarrow> calls_from (broadcastAppendEntries n)" by (simp add: broadcastAppendEntries_def)
qed

lemma broadcast_nlog [simp]: "nlog (broadcastAppendEntries n) = nlog n"
  using broadcastAppendEntries_sends[of n] by (auto simp: sends_def)

text \<open>Before a step: the log is well-formed and not compacted, and nothing waits to be sent.\<close>

definition ready :: "RaftNode \<Rightarrow> bool" where
  "ready n \<longleftrightarrow> log_wf (nlog n) \<and> plain n \<and> outbox n = []"

lemma append_next:
  assumes "log_wf L" "snapshotIndex L = 0" "length (entries L) + 1 < 2 ^ 64" "eindex e = lastIndex L + 1"
  shows "entries (appendAndSync [e] L) = entries L @ [e]"
proof -
  have l: "unat (lastIndex L) = length (entries L)" using assms(1,2) by (simp add: unat_lastIndex)
  then have u: "unat (eindex e) = length (entries L) + 1" using assms(3,4) by (simp add: unat_word_ariths)
  then have "fits_log [e] L"
    using l assms(2,3) by (simp add: fits_log_def contiguous_def word_less_nat_alt)
  then show ?thesis using u assms(1,2) by (simp add: appendAndSync_entries)
qed

text \<open>The state after \<open>propose\<close>, up to what applying the entry changes.\<close>

lemma propose_log:
  assumes "ready n"
  shows "grows n (snd (propose b ty n))" "node_term (snd (propose b ty n)) = node_term n" "outbox (snd (propose b ty n)) = []"
proof -
  let ?e = "\<lparr>eterm = node_term n, eindex = lastIndex (nlog n) + 1, etype = ty, edata = b\<rparr>"
  let ?n = "n\<lparr>nlog := appendAndSync [?e] (nlog n)\<rparr>" and ?p = "snd (propose b ty n)"
  have eq: "?p = (if role n \<noteq> Leader then n else snd (tryAdvanceCommitIndex ?n))"
    by (auto simp: propose_def Let_def fst_snd_abind split: sum.splits)
  have e: "entries (appendAndSync [?e] (nlog n)) = entries (nlog n) @ [?e]"
    using assms by (intro append_next) (simp_all add: ready_def plain_def)
  note F = tryAdvanceCommitIndex_frame[of ?n, unfolded frame_def]
  show "node_term ?p = node_term n" "outbox ?p = []" using F assms by (simp_all add: eq ready_def)
  show "grows n ?p" using F e by (auto simp: eq grows_def)
qed

lemma propose_advances: "ready n \<Longrightarrow> advances n (snd (propose b ty n))"
  using propose_log[of n b ty] quiet_turns[OF propose_step(1)[of n b ty]] by (simp add: advances_def calls_from_def)

lemma becomeLeader_advances:
  assumes "role m = Candidate" "ready m"
  shows "advances m (snd (becomeLeader m))" "node_term (snd (becomeLeader m)) = node_term m"
proof -
  let ?l = "snd (becomeLeader_enter m)"
  let ?p = "snd (propose [] NoOp ?l)"
  let ?t = "snd (tryAdvanceCommitIndex ?p)" and ?n = "snd (becomeLeader m)"
  note E = becomeLeader_enter_fields[OF assms(1)]
  have l: "ready ?l" using assms(2) E by (simp add: ready_def plain_def)
  have st: "?n \<in> {?p, ?t, broadcastAppendEntries ?t}"
    using E(1) by (auto simp: becomeLeader_def fst_snd_abind split: prod.splits sum.splits)
  have F: "nlog ?t = nlog ?p" "outbox ?t = outbox ?p" using tryAdvanceCommitIndex_frame[of ?p] by (simp_all add: frame_def)
  have "calls_from ?p" "calls_from ?t" using propose_log(3)[OF l] F by (simp_all add: calls_from_def)
  then have c: "calls_from ?n" using st broadcast_calls by auto
  have n: "nlog ?n = nlog ?p" using st F(1) by auto
  show t: "node_term ?n = node_term m" using n propose_log(2)[OF l] E(3) by simp
  have "grows m ?n"
    using propose_log(1)[OF l] n E(3) becomeLeader_role[OF assms(1)] by (auto simp: grows_def)
  then show "advances m ?n" using c t assms(1) by (simp add: advances_def turns_def)
qed

lemma becomeCandidate_advances:
  assumes "ready n" "node_term n \<noteq> - 1"
  shows "advances n (snd (becomeCandidate n))"
proof -
  let ?b = "becomeCandidate_enter n"
  have lt: "node_term n < node_term n + 1" using assms(2) by (simp add: word_less_plus_1)
  have b: "ready (?b\<lparr>votes := v\<rparr>)" for v using assms(1) by (simp add: ready_def plain_def)
  show ?thesis
  proof (cases n rule: becomeCandidate_cases)
    case not_voter
    then show ?thesis using lt assms(1) by (simp add: advances_def turns_def grows_def calls_from_def ready_def)
  next
    case alone
    let ?m = "?b\<lparr>votes := (votes n)(node_term n + 1 \<mapsto> 1)\<rparr>"
    have "advances ?m (snd (becomeLeader ?m))" "node_term (snd (becomeLeader ?m)) = node_term n + 1"
      using becomeLeader_advances[OF _ b] by simp_all
    then show ?thesis using alone(3) lt
      by (auto simp: advances_def turns_def grows_def lastIndex_def)
  next
    case ask
    then show ?thesis using lt assms(1) by (auto simp: advances_def turns_def grows_def calls_from_def ready_def)
  qed
qed

lemma broadcast_advances: "ready n \<Longrightarrow> advances n (broadcastAppendEntries n)"
  using quiet_turns[OF broadcastAppendEntries_step(1)] broadcast_calls[of n]
  by (simp add: advances_def grows_def ready_def calls_from_def)

lemma tick_advances:
  assumes "ready n" "node_term n \<noteq> - 1" "plain (snd (runLoop_round hb n))"
  shows "advances n (snd (runLoop_round hb n))"
proof -
  have "snd (runLoop_round hb n) \<in> {n, broadcastAppendEntries n, snd (becomeCandidate n)}"
    using runLoop_round_state[of hb n] assms(3) maybeSnapshot_plain by (auto simp: plain_def)
  moreover have "advances n n" using assms(1) by (intro advances_silent) (simp_all add: ready_def)
  ultimately show ?thesis using broadcast_advances becomeCandidate_advances assms(1,2) by auto
qed

lemma onVoteResp_advances:
  assumes "ready n"
  shows "advances n (snd (onVoteResp t m ok resp n))"
proof (rule onVoteResp_cases[where n = n and t = t and m = m and ok = ok and resp = resp], goal_cases quiet counted won)
  case quiet
  show ?case
  proof (cases "snd (onVoteResp t m ok resp n) = n \<or> snd (onVoteResp t m ok resp n) = becomeFollower (rvr_term resp) 0 n")
    case True
    then show ?thesis using quiet(1) assms by (intro advances_silent) (auto simp: ready_def)
  next
    case False
    then have "role n = Candidate" "ok" "node_term n = t" "voteGranted resp"
      by (auto simp: onVoteResp_def voteResp_count_def Let_def split: if_splits)
    then show ?thesis
      using False assms becomeLeader_advances[of "n\<lparr>votes := v\<rparr>" for v]
      by (auto simp: onVoteResp_def voteResp_count_def Let_def advances_def turns_def grows_def calls_from_def
          ready_def plain_def split: if_splits)
  qed
next
  case (counted v)
  then show ?case using assms by (simp add: advances_def turns_def grows_def calls_from_def ready_def)
next
  case (won v)
  then show ?case
    using assms becomeLeader_advances(1)[of "n\<lparr>votes := (votes n)(t \<mapsto> v)\<rparr>"]
    by (auto simp: advances_def turns_def grows_def ready_def plain_def)
qed

lemma onAppendResp_log:
  "entries (nlog (snd (onAppendResp p t ok resp n))) = entries (nlog n)" "outbox (snd (onAppendResp p t ok resp n)) = outbox n"
  using tryAdvanceCommitIndex_frame[of "n\<lparr>matchIndex := AList.update p (aer_matchIndex resp) (matchIndex n),
          nextIndex := AList.update p (aer_matchIndex resp + 1) (nextIndex n)\<rparr>"]
  by (simp_all add: onAppendResp_def Let_def frame_def)

lemma onSnapshotResp_log:
  "entries (nlog (snd (onSnapshotResp p i ok resp n))) = entries (nlog n)" "outbox (snd (onSnapshotResp p i ok resp n)) = outbox n"
  by (simp_all add: onSnapshotResp_def Let_def)

lemma handleAppendEntries_outbox: "outbox (snd (handleAppendEntries q n)) = outbox n"
proof -
  have "outbox (snd (handleAppendEntries_log q n')) = outbox n'" for n'
    by (simp add: handleAppendEntries_log_def Let_def)
  moreover have "outbox (snd (applyCommittedEntries n')) = outbox n'" for n'
    using applyCommittedEntries_frame(1) by (simp add: frame_def)
  ultimately show ?thesis
    by (auto simp: handleAppendEntries_def fst_snd_abind split: sum.splits prod.splits)
      (metis becomeFollower_fields(9) snd_conv)+
qed

lemma handleRequestVote_advances:
  assumes "handleRequestVote q n = (resp, n')" "ready n"
  shows "advances n n'"
proof -
  have "entries (nlog n') = entries (nlog n)"
    using assms(1) by (auto simp: handleRequestVote_def handleRequestVote_vote_def Let_def split: if_splits)
  then show ?thesis
    using handleRequestVote_spec(3-5)[OF assms(1)] assms(2) hs_le_term[OF handleRequestVote_spec(3)[OF assms(1)]]
    by (auto simp: advances_def turns_def grows_def calls_from_def ready_def)
qed

lemma handleInstallSnapshot_advances:
  assumes "ready n" "plain (snd (handleInstallSnapshot q n))"
  shows "advances n (snd (handleInstallSnapshot q n))"
proof -
  let ?n = "snd (handleInstallSnapshot q n)"
  have "entries (nlog ?n) = entries (nlog n) \<and> outbox ?n = outbox n"
    using assms(2)
    by (auto simp: handleInstallSnapshot_def plain_def compactUpTo_plain_entries Let_def
        split: sum.splits prod.splits if_splits)
  then show ?thesis
    using handleInstallSnapshot_step(1) assms(1) by (intro advances_silent) (simp_all add: ready_def)
qed

section \<open>Coherent sets of logs\<close>

definition coherent :: "LogEntry list set \<Rightarrow> bool" where
  "coherent G \<longleftrightarrow> [] \<in> G \<and> (\<forall>xs\<in>G. typed xs) \<and> (\<forall>xs\<in>G. \<forall>k. take k xs \<in> G) \<and>
     (\<forall>xs\<in>G. \<forall>ys\<in>G. xs \<noteq> [] \<longrightarrow> length xs = length ys \<longrightarrow> eterm (last xs) = eterm (last ys) \<longrightarrow> xs = ys)"

lemma coherentD:
  assumes "coherent G" "xs \<in> G"
  shows "typed xs" "take k xs \<in> G" "contiguous 1 xs"
  using assms by (auto simp: coherent_def typed_def)

lemma coherent_unique:
  assumes "coherent G" "xs \<in> G" "ys \<in> G" "xs \<noteq> []" "length xs = length ys" "eterm (last xs) = eterm (last ys)"
  shows "xs = ys"
  using assms unfolding coherent_def by blast

lemma last_take: "0 < k \<Longrightarrow> k \<le> length xs \<Longrightarrow> last (take k xs) = xs ! (k - 1)"
  by (cases k) (simp_all add: take_Suc_conv_app_nth)

text \<open>Two members that have an entry of the same position and term agree up to it.\<close>

lemma coherent_match:
  assumes "coherent G" "xs \<in> G" "ys \<in> G" "0 < k" "k \<le> length xs" "k \<le> length ys"
    and "eterm (xs ! (k - 1)) = eterm (ys ! (k - 1))"
  shows "take k xs = take k ys"
proof -
  have "take k xs \<in> G" "take k ys \<in> G" "take k xs \<noteq> []"
    using coherentD(2)[OF assms(1,2)] coherentD(2)[OF assms(1,3)] assms(4,5) by auto
  then show ?thesis
    using coherent_unique[OF assms(1), of "take k xs" "take k ys"] assms(4-7) by (simp add: last_take)
qed

text \<open>A leader's new entry: no member of its length has its term, so the set stays coherent.\<close>

lemma coherent_insert:
  assumes G: "coherent G" and xs: "xs \<in> G" "typed (xs @ [e])"
    and new: "\<And>ys. ys \<in> G \<Longrightarrow> ys \<noteq> [] \<Longrightarrow> eterm (last ys) = eterm e \<Longrightarrow> prefix ys xs"
  shows "coherent (insert (xs @ [e]) G)"
proof -
  have short: "length ys \<noteq> length (xs @ [e])" if "ys \<in> G" "ys \<noteq> []" "eterm (last ys) = eterm e" for ys
    using new[OF that] by (auto dest: prefix_length_le)
  have pre: "take k (xs @ [e]) \<in> insert (xs @ [e]) G" for k
    using coherentD(2)[OF G xs(1), of k] by (cases "k \<le> length xs") simp_all
  have one: "ys = zs" if "ys \<in> insert (xs @ [e]) G" "zs \<in> insert (xs @ [e]) G" "ys \<noteq> []" "length ys = length zs"
      "eterm (last ys) = eterm (last zs)" for ys zs
  proof (cases "ys \<in> G \<and> zs \<in> G")
    case True
    then show ?thesis using coherent_unique[OF G] that(3-5) by blast
  next
    case False
    moreover have "zs \<noteq> []" using that(3,4) by auto
    ultimately show ?thesis using that short[of ys] short[of zs] by auto
  qed
  have "[] \<in> G" "\<forall>ys\<in>insert (xs @ [e]) G. typed ys" "\<forall>ys\<in>insert (xs @ [e]) G. \<forall>k. take k ys \<in> insert (xs @ [e]) G"
    using G xs(2) pre coherentD(1,2)[OF G] by (auto simp: coherent_def)
  then show ?thesis unfolding coherent_def using one by blast
qed

section \<open>AppendEntries requests\<close>

text \<open>A request is a piece of a member whose terms are not beyond the request's.\<close>

definition piece_of :: "AppendEntriesReq \<Rightarrow> LogEntry list \<Rightarrow> bool" where
  "piece_of q p \<longleftrightarrow> (\<forall>e\<in>set p. eterm e \<le> ae_term q) \<and>
     ae_entries q = take 200 (drop (unat (prevLogIndex q)) p) \<and>
     (prevLogIndex q \<noteq> 0 \<longrightarrow> unat (prevLogIndex q) \<le> length p \<longrightarrow>
       prevLogTerm q = eterm (p ! (unat (prevLogIndex q) - 1)))"

lemma termAt_plain:
  assumes "snapshotIndex L = 0" "i \<noteq> 0"
  shows "termAt i L = (if unat i \<le> length (entries L) then eterm (entries L ! (unat i - 1)) else 0)"
proof -
  have "0 < unat i" using assms(2) by (simp add: unat_gt_0)
  then show ?thesis using assms by (simp add: termAt_logNth logNth_def)
qed

lemma sent_from_piece:
  assumes "sent_from n q" "plain n" "\<forall>e\<in>set (entries (nlog n)). eterm e \<le> node_term n"
  shows "piece_of q (entries (nlog n))"
  using assms by (auto simp: sent_from_def piece_of_def plain_def termAt_plain entriesAfter_eq)

text \<open>A follower that accepts a piece of a member, its own log being one, ends with a prefix of that member.\<close>

lemma accepted_prefix:
  assumes G: "coherent G" "entries L \<in> G" "p \<in> G" and L: "snapshotIndex L = 0" "prev_ok q L"
    and q: "piece_of q p" "ae_entries q \<noteq> []"
  shows "entries (appendAndSync (ae_entries q) L) = take (unat (prevLogIndex q) + 200) p"
proof -
  let ?k = "unat (prevLogIndex q)"
  have es: "ae_entries q = take 200 (drop ?k p)" and k: "?k < length p" using q by (auto simp: piece_of_def)
  have wf: "log_wf L" using coherentD(3)[OF G(1,2)] L(1) by (simp add: log_wf_contiguous)
  have "contiguous (1 + ?k) (drop ?k p)" using k by (intro contiguous_drop coherentD(3)[OF G(1,3)]) simp
  then have c: "contiguous (?k + 1) (ae_entries q)" unfolding es by (simp add: contiguous_take)
  have m: "?k \<le> length (entries L) \<and> take ?k (entries L) = take ?k p"
  proof (cases "prevLogIndex q = 0")
    case False
    then have pos: "0 < ?k" by (simp add: unat_gt_0)
    have t: "termAt (prevLogIndex q) L = prevLogTerm q" "termAt (prevLogIndex q) L \<noteq> 0"
      using L False by (auto simp: prev_ok_def split: if_splits)
    then have "?k \<le> length (entries L)" "eterm (entries L ! (?k - 1)) = eterm (p ! (?k - 1))"
      using q(1) k False L(1) by (auto simp: termAt_plain piece_of_def split: if_splits)
    then show ?thesis using coherent_match[OF G pos] k by simp
  qed simp
  then have "prevLogIndex q \<le> lastIndex L" using wf L(1) by (simp add: word_le_nat_alt unat_lastIndex)
  with fits_after[OF wf c q(2)] L(1) show ?thesis
    using wf m by (simp add: appendAndSync_entries es take_add)
qed

section \<open>The invariant of the logs\<close>

definition logs_in :: "Cluster \<Rightarrow> LogEntry list set \<Rightarrow> bool" where
  "logs_in c G \<longleftrightarrow> (\<forall>i. plain (nodes c i) \<and> entries (nlog (nodes c i)) \<in> G \<and>
     (\<forall>e\<in>set (entries (nlog (nodes c i))). eterm e \<le> node_term (nodes c i)))"

definition pieces_in :: "Cluster \<Rightarrow> LogEntry list set \<Rightarrow> bool" where
  "pieces_in c G \<longleftrightarrow> (\<forall>i ep j q t. Req i ep (SendAppendEntries j q t) \<in> net c \<longrightarrow> (\<exists>p\<in>G. piece_of q p))"

text \<open>Entries of a term are made by its leader, whose log holds them all while it leads.\<close>

definition led :: "Cluster \<Rightarrow> LogEntry list set \<Rightarrow> bool" where
  "led c G \<longleftrightarrow> (\<forall>xs\<in>G. xs \<noteq> [] \<longrightarrow> (\<exists>k. (eterm (last xs), k) \<in> elected c))"

definition leaders_hold :: "Cluster \<Rightarrow> LogEntry list set \<Rightarrow> bool" where
  "leaders_hold c G \<longleftrightarrow> (\<forall>i xs. role (nodes c i) = Leader \<longrightarrow> xs \<in> G \<longrightarrow> xs \<noteq> [] \<longrightarrow>
     eterm (last xs) = node_term (nodes c i) \<longrightarrow> prefix xs (entries (nlog (nodes c i))))"

definition terms_ok :: "Cluster \<Rightarrow> bool" where
  "terms_ok c \<longleftrightarrow> (\<forall>i. role (nodes c i) = Candidate \<longrightarrow> node_term (nodes c i) \<noteq> 0 \<and> (node_term (nodes c i), i) \<notin> elected c) \<and>
     (\<forall>t i. (t, i) \<in> elected c \<longrightarrow> t \<noteq> 0 \<and> t \<le> node_term (nodes c i))"

definition loginv :: "Cluster \<Rightarrow> LogEntry list set \<Rightarrow> bool" where
  "loginv c G \<longleftrightarrow> coherent G \<and> logs_in c G \<and> pieces_in c G \<and> led c G \<and> leaders_hold c G \<and> terms_ok c"

lemma loginvD:
  assumes "loginv c G"
  shows "coherent G" "logs_in c G" "pieces_in c G" "led c G" "leaders_hold c G" "terms_ok c"
  using assms by (simp_all add: loginv_def)

lemma elected_install:
  "(t, k) \<in> elected (install i n c) \<longleftrightarrow> (t, k) \<in> elected c \<or> k = i \<and> t = node_term n \<and> role n = Leader"
  by (auto simp: install_def)

text \<open>The same nodes, and no AppendEntries request that was not under way.\<close>

definition quieter :: "Cluster \<Rightarrow> Cluster \<Rightarrow> bool" where
  "quieter c c' \<longleftrightarrow> nodes c' = nodes c \<and> elected c' = elected c \<and>
     (\<forall>i ep j q t. Req i ep (SendAppendEntries j q t) \<in> net c' \<longrightarrow> Req i ep (SendAppendEntries j q t) \<in> net c)"

lemma quieter_simps [simp]:
  "quieter c c" "quieter c (lose m c)" "quieter c (c\<lparr>epoch := ep\<rparr>)" "quieter c (put_msg (VoteReply i p j t k r) c)"
  "quieter c (put_msg (AppendReply i p j t a) c)" "quieter c (put_msg (SnapReply i p j x s) c)"
  by (auto simp: quieter_def lose_def put_msg_def)

lemma loginv_net:
  assumes "loginv c G" "quieter c c'"
  shows "loginv c' G"
proof -
  have "pieces_in c' G" using loginvD(3)[OF assms(1)] assms(2) unfolding pieces_in_def quieter_def by blast
  then show ?thesis
    using assms by (simp add: quieter_def loginv_def logs_in_def led_def leaders_hold_def terms_ok_def)
qed

text \<open>One node changes; the set may grow by logs that end in a term this node leads.\<close>

lemma install_loginv:
  assumes inv: "loginv c G" and G': "coherent G'" "G \<subseteq> G'"
    and new: "\<And>xs. xs \<in> G' \<Longrightarrow> xs \<notin> G \<Longrightarrow> role n = Leader \<and> eterm (last xs) = node_term n"
    and n: "plain n" "entries (nlog n) \<in> G'" "\<forall>e\<in>set (entries (nlog n)). eterm e \<le> node_term n"
    and calls: "\<And>p q t. SendAppendEntries p q t \<in> set (outbox n) \<Longrightarrow> \<exists>p\<in>G'. piece_of q p"
    and le: "node_term (nodes c i) \<le> node_term n"
    and others: "\<And>k. k \<noteq> i \<Longrightarrow> role n = Leader \<Longrightarrow> role (nodes c k) = Leader \<Longrightarrow> node_term (nodes c k) \<noteq> node_term n"
    and hold: "\<And>xs. role n = Leader \<Longrightarrow> xs \<in> G' \<Longrightarrow> xs \<noteq> [] \<Longrightarrow> eterm (last xs) = node_term n \<Longrightarrow> prefix xs (entries (nlog n))"
    and cand: "role n = Candidate \<Longrightarrow> node_term n \<noteq> 0 \<and> (node_term n, i) \<notin> elected c"
    and lead: "role n = Leader \<Longrightarrow> node_term n \<noteq> 0"
  shows "loginv (install i n c) G'"
proof -
  note I = loginvD[OF inv]
  have "logs_in (install i n c) G'" using I(2) n G'(2) by (auto simp: logs_in_def plain_def)
  moreover have "pieces_in (install i n c) G'"
    using I(3) G'(2) calls unfolding pieces_in_def in_install_net by blast
  moreover have "led (install i n c) G'"
    using I(4) new unfolding led_def elected_install by metis
  moreover have "prefix xs (entries (nlog (nodes (install i n c) k)))"
    if "role (nodes (install i n c) k) = Leader" "xs \<in> G'" "xs \<noteq> []" "eterm (last xs) = node_term (nodes (install i n c) k)" for k xs
  proof (cases "k = i")
    case True
    then show ?thesis using hold that by simp
  next
    case False
    then have k: "role (nodes c k) = Leader" "eterm (last xs) = node_term (nodes c k)" using that by simp_all
    then have "xs \<in> G" using new[of xs] others[OF False] that(2) by auto
    then show ?thesis using I(5) k that(3) False by (simp add: leaders_hold_def)
  qed
  then have "leaders_hold (install i n c) G'" unfolding leaders_hold_def by blast
  moreover have "terms_ok (install i n c)"
    using I(6) cand lead le order_trans[OF _ le] by (auto simp: terms_ok_def elected_install)
  ultimately show ?thesis using G'(1) by (simp add: loginv_def)
qed

lemma loginv_ready:
  assumes "loginv c G" "cinv cfg c"
  shows "ready (nodes c i)"
proof -
  have p: "plain (nodes c i)" and "entries (nlog (nodes c i)) \<in> G"
    using loginvD(2)[OF assms(1)] by (simp_all add: logs_in_def)
  then have "log_wf (nlog (nodes c i))"
    using coherentD(3)[OF loginvD(1)[OF assms(1)]] by (simp add: log_wf_contiguous plain_def)
  then show ?thesis using p nodes_okD(3)[OF assms(2)] by (simp add: ready_def)
qed

definition one_leader :: "Cluster \<Rightarrow> bool" where
  "one_leader c \<longleftrightarrow> (\<forall>t i j. (t, i) \<in> elected c \<longrightarrow> (t, j) \<in> elected c \<longrightarrow> i = j)"

lemma one_leaderD: "one_leader c \<Longrightarrow> (t, i) \<in> elected c \<Longrightarrow> (t, j) \<in> elected c \<Longrightarrow> i = j"
  unfolding one_leader_def by blast

lemma cinv_one_leader: "cinv cfg c \<Longrightarrow> elected c = elected c' \<Longrightarrow> one_leader c'"
  unfolding one_leader_def using elected_once by metis

text \<open>A new leader's term is new, so that no log ends in it yet; an old leader holds what it made.\<close>

lemma fresh_term:
  assumes "terms_ok c" "turns (nodes c i) n" "role n = Leader"
    and "\<not> (role (nodes c i) = Leader \<and> node_term (nodes c i) = node_term n)"
  shows "(node_term n, i) \<notin> elected c \<and> node_term n \<noteq> 0"
proof (cases "node_term (nodes c i) < node_term n")
  case True
  then show ?thesis using assms(1) by (force simp: terms_ok_def)
next
  case False
  then have "role (nodes c i) = Candidate" "node_term n = node_term (nodes c i)"
    using assms(2-4) by (auto simp: turns_def)
  then show ?thesis using assms(1) by (simp add: terms_ok_def)
qed

lemma leader_has_all:
  assumes inv: "loginv c G" "cinv cfg c" and c': "one_leader (install i n c)" and n: "turns (nodes c i) n" "role n = Leader"
    and xs: "xs \<in> G" "xs \<noteq> []" "eterm (last xs) = node_term n"
  shows "prefix xs (entries (nlog (nodes c i)))"
proof (cases "role (nodes c i) = Leader \<and> node_term (nodes c i) = node_term n")
  case True
  then show ?thesis using loginvD(5)[OF inv(1)] xs by (simp add: leaders_hold_def)
next
  case False
  obtain k where k: "(node_term n, k) \<in> elected c" using loginvD(4)[OF inv(1)] xs unfolding led_def by metis
  then have "k = i" using one_leaderD[OF c', of "node_term n" k i] n(2) by (simp add: elected_install)
  then show ?thesis using k fresh_term[OF loginvD(6)[OF inv(1)] n False] by simp
qed

lemma roles_after:
  assumes inv: "loginv c G" "cinv cfg c" and c': "one_leader (install i n c)" and t: "turns (nodes c i) n"
  shows "role n = Leader \<Longrightarrow> node_term n \<noteq> 0"
    and "role n = Candidate \<Longrightarrow> node_term n \<noteq> 0 \<and> (node_term n, i) \<notin> elected c"
    and "k \<noteq> i \<Longrightarrow> role n = Leader \<Longrightarrow> role (nodes c k) = Leader \<Longrightarrow> node_term (nodes c k) \<noteq> node_term n"
proof -
  note T = loginvD(6)[OF inv(1)]
  show "node_term n \<noteq> 0" if "role n = Leader"
    using fresh_term[OF T t that] leader_elected[OF inv(2), of i] T unfolding terms_ok_def by metis
  show "node_term n \<noteq> 0 \<and> (node_term n, i) \<notin> elected c" if "role n = Candidate"
  proof (cases "node_term (nodes c i) < node_term n")
    case True
    then show ?thesis using T by (force simp: terms_ok_def)
  next
    case False
    then have "role (nodes c i) = Candidate" "node_term n = node_term (nodes c i)" using t that by (auto simp: turns_def)
    then show ?thesis using T by (simp add: terms_ok_def)
  qed
  show "node_term (nodes c k) \<noteq> node_term n" if "k \<noteq> i" "role n = Leader" "role (nodes c k) = Leader"
    using one_leaderD[OF c', of "node_term n" k i] leader_elected[OF inv(2) that(3)] that by (auto simp: elected_install)
qed

lemma typed_snoc:
  assumes "typed xs" "length xs + 2 < 2 ^ 64" "unat (eindex e) = length xs + 1" "eterm e \<noteq> 0" "\<forall>x\<in>set xs. eterm x \<le> eterm e"
  shows "typed (xs @ [e])"
  using assms by (simp add: typed_def contiguous_append sorted_append) (simp add: contiguous_def)

lemma install_advances_loginv:
  assumes inv: "loginv c G" "cinv cfg c" and c': "one_leader (install i n c)" and n: "advances (nodes c i) n" "plain n"
  shows "\<exists>G'. loginv (install i n c) G'"
proof -
  let ?F = "entries (nlog (nodes c i))" and ?F' = "entries (nlog n)"
  note I = loginvD[OF inv(1)]
  have t: "turns (nodes c i) n" and g: "grows (nodes c i) n" and cf: "calls_from n" using n(1) by (simp_all add: advances_def)
  have le: "node_term (nodes c i) \<le> node_term n" using t by (simp add: turns_def)
  have F: "?F \<in> G" "\<forall>e\<in>set ?F. eterm e \<le> node_term n" using I(2) le by (fastforce simp: logs_in_def)+
  note lead = roles_after(1)[OF inv c' t] and cand = roles_after(2)[OF inv c' t] and others = roles_after(3)[OF inv c' t]
  note all = leader_has_all[OF inv c' t]
  have pc: "piece_of q ?F'" if "\<forall>e\<in>set ?F'. eterm e \<le> node_term n" "SendAppendEntries p q t \<in> set (outbox n)" for p q t
    using sent_from_piece[OF _ n(2) that(1)] cf that(2) by (auto simp: calls_from_def)
  show ?thesis
  proof (cases "?F' = ?F")
    case True
    have "loginv (install i n c) G"
    proof (rule install_loginv[OF inv(1) I(1) subset_refl _ n(2) _ _ _ le others _ cand lead])
      show "\<exists>p\<in>G. piece_of q p" if "SendAppendEntries p q t \<in> set (outbox n)" for p q t
        using pc[OF _ that] True F by auto
    qed (use True F all in simp_all)
    then show ?thesis ..
  next
    case False
    then obtain e where e: "role n = Leader" "?F' = ?F @ [e]" "eterm e = node_term n" "eindex e = lastIndex (nlog (nodes c i)) + 1"
      using g by (auto simp: grows_def)
    have "unat (lastIndex (nlog (nodes c i))) = length ?F"
      using loginv_ready[OF inv, of i] by (simp add: ready_def plain_def unat_lastIndex)
    then have u: "unat (eindex e) = length ?F + 1" using e n(2) by (simp add: plain_def unat_word_ariths)
    have ty: "typed (?F @ [e])"
      using coherentD(1)[OF I(1) F(1)] u e n(2) lead F(2) by (intro typed_snoc) (simp_all add: plain_def)
    have co: "coherent (insert (?F @ [e]) G)" using all[OF e(1)] e(3) by (intro coherent_insert[OF I(1) F(1) ty]) simp
    have "loginv (install i n c) (insert (?F @ [e]) G)"
    proof (rule install_loginv[OF inv(1) co subset_insertI _ n(2) _ _ _ le others _ cand lead])
      show "\<exists>p\<in>insert (?F @ [e]) G. piece_of q p" if "SendAppendEntries p q t \<in> set (outbox n)" for p q t
        using pc[OF _ that] e F by auto
      show "prefix xs ?F'" if "xs \<in> insert (?F @ [e]) G" "xs \<noteq> []" "eterm (last xs) = node_term n" for xs
        using that all[OF e(1), of xs] e(2) by auto
    qed (use e F in auto)
    then show ?thesis ..
  qed
qed

text \<open>An AppendEntries handler leaves its node as it was, or a follower whose log is still in the set.\<close>

lemma handleAppendEntries_in:
  assumes inv: "loginv c G" "cinv cfg c" and p: "p \<in> G" "piece_of q p"
    and n: "n = snd (handleAppendEntries q (nodes c j))"
  shows "n = nodes c j \<or> role n = Follower" "node_term (nodes c j) \<le> node_term n" "outbox n = []"
    "snapshotIndex (nlog n) = 0" "entries (nlog n) \<in> G" "\<forall>e\<in>set (entries (nlog n)). eterm e \<le> node_term n"
proof -
  let ?n = "nodes c j"
  let ?f = "becomeFollower (ae_term q) (ae_leaderId q) ?n"
  note I = loginvD[OF inv(1)]
  have b: "snapshotIndex (nlog ?n) = 0" "entries (nlog ?n) \<in> G" "\<forall>e\<in>set (entries (nlog ?n)). eterm e \<le> node_term ?n"
    using I(2) by (simp_all add: logs_in_def plain_def)
  show le: "node_term ?n \<le> node_term n"
    using hs_le_term[OF quiet_hs_le[OF handleAppendEntries_step(1)[of ?n q]]] n by simp
  show "outbox n = []" using handleAppendEntries_outbox[of q ?n] nodes_okD(3)[OF inv(2), of j] n by simp
  have "(n = ?n \<or> role n = Follower) \<and> snapshotIndex (nlog n) = 0 \<and> entries (nlog n) \<in> G \<and>
      (\<forall>e\<in>set (entries (nlog n)). eterm e \<le> node_term n)"
  proof (cases "\<not> ae_term q < node_term ?n \<and> prev_ok q (nlog ?n)")
    case True
    note A = handleAppendEntries_accept[OF conjunct1[OF True] conjunct2[OF True], folded n]
    have t: "node_term n = ae_term q" using A(1) True by auto
    have f: "snapshotIndex (nlog ?f) = 0" "entries (nlog ?f) \<in> G" "prev_ok q (nlog ?f)"
      using b True unfolding prev_ok_def log_reads_becomeFollower by simp_all
    show ?thesis
    proof (cases "ae_entries q = []")
      case True
      then show ?thesis using A(1,2) b f le t by (force simp: appendAndSync_def)
    next
      case False
      have e: "entries (nlog n) = take (unat (prevLogIndex q) + 200) p"
        unfolding A(1) by (rule accepted_prefix[OF I(1) f(2) p(1) f(1,3) p(2) False])
      then have "entries (nlog n) \<in> G" using coherentD(2)[OF I(1) p(1)] by simp
      moreover have "\<forall>x\<in>set (entries (nlog n)). eterm x \<le> node_term n"
        using p(2) t e by (auto simp: piece_of_def dest: in_set_takeD)
      ultimately show ?thesis using A(1,2) f(1) by simp
    qed
  next
    case False
    then have "n = ?n \<or> role n = Follower \<and> snapshotIndex (nlog n) = 0 \<and> entries (nlog n) = entries (nlog ?n)"
      using handleAppendEntries_reject(1)[of q ?n] n b(1) by (auto simp: handleAppendEntries_def)
    then show ?thesis using b le by force
  qed
  then show "n = ?n \<or> role n = Follower" "snapshotIndex (nlog n) = 0" "entries (nlog n) \<in> G"
    "\<forall>e\<in>set (entries (nlog n)). eterm e \<le> node_term n" by blast+
qed

lemma install_append_loginv:
  assumes inv: "loginv c G" "cinv cfg c" and q: "Req i ep (SendAppendEntries j q t) \<in> net c"
    and n: "n = snd (handleAppendEntries q (nodes c j))"
  shows "loginv (install j n c) G"
proof -
  note I = loginvD[OF inv(1)]
  obtain p where p: "p \<in> G" "piece_of q p" using I(3) q unfolding pieces_in_def by blast
  note H = handleAppendEntries_in[OF inv p n]
  have "plain n" using coherentD(1)[OF I(1) H(5)] H(4) by (simp add: plain_def typed_def)
  moreover have "role n = Leader \<Longrightarrow> n = nodes c j" "role n = Candidate \<Longrightarrow> n = nodes c j" using H(1) by auto
  moreover have "node_term (nodes c k) \<noteq> node_term (nodes c j)" if "k \<noteq> j" "role (nodes c j) = Leader" "role (nodes c k) = Leader" for k
    using elected_once[OF inv(2)] leader_elected[OF inv(2) that(2)] leader_elected[OF inv(2) that(3)] that(1) by metis
  moreover have "node_term (nodes c j) \<noteq> 0" if "role (nodes c j) = Leader"
    using leader_elected[OF inv(2) that] I(6) by (auto simp: terms_ok_def)
  ultimately show ?thesis
    using I(5,6) H by (intro install_loginv[OF inv(1) I(1) subset_refl]) (auto simp: terms_ok_def leaders_hold_def)
qed

text \<open>A step that puts the node \<open>n\<close> for \<open>i\<close>, with messages lost before it and replies under way after it.\<close>

definition puts :: "ClusterConfig \<Rightarrow> Cluster \<Rightarrow> NodeId \<Rightarrow> RaftNode \<Rightarrow> Cluster \<Rightarrow> bool" where
  "puts cfg c i n c' \<longleftrightarrow> (\<exists>b. cinv cfg b \<and> quieter c b \<and> quieter (install i n b) c')"

lemma putsI: "cinv cfg b \<Longrightarrow> quieter c b \<Longrightarrow> quieter (install i n b) c' \<Longrightarrow> puts cfg c i n c'"
  unfolding puts_def by (intro exI conjI)

lemma puts_intros:
  assumes "cinv cfg c"
  shows "c' = install i n c \<Longrightarrow> puts cfg c i n c'" "c' = install i n (lose m c) \<Longrightarrow> puts cfg c i n c'"
    "c' = install i n (c\<lparr>epoch := (epoch c)(k := Suc (epoch c k))\<rparr>) \<Longrightarrow> puts cfg c i n c'"
    "c' = put_msg (VoteReply k p j t y r) (install i n (lose m c)) \<Longrightarrow> puts cfg c i n c'"
    "c' = put_msg (SnapReply k p j x s) (install i n c) \<Longrightarrow> puts cfg c i n c'"
  by (rule putsI[OF assms], simp, simp, rule putsI[OF lose_cinv[OF assms, of m]], simp, simp,
      rule putsI[OF epoch_cinv[OF assms, of k]], simp, simp, rule putsI[OF lose_cinv[OF assms, of m]], simp, simp,
      rule putsI[OF assms], simp, simp)

lemma puts_node: "puts cfg c i n c' \<Longrightarrow> nodes c' i = n\<lparr>outbox := []\<rparr>"
  by (auto simp: puts_def quieter_def)

lemma advance_loginv:
  assumes inv: "loginv c G" and c': "puts cfg c i n c'" "cinv cfg c'" and n: "advances (nodes c i) n" "plain n"
  shows "\<exists>G'. loginv c' G'"
proof -
  obtain b where b: "cinv cfg b" "quieter c b" "quieter (install i n b) c'" using c'(1) by (auto simp: puts_def)
  have "loginv b G" by (rule loginv_net[OF inv b(2)])
  moreover have "one_leader (install i n b)" using cinv_one_leader[OF c'(2)] b(3) by (simp add: quieter_def)
  moreover have "advances (nodes b i) n" using n(1) b(2) by (simp add: quieter_def)
  ultimately obtain G' where "loginv (install i n b) G'" using install_advances_loginv[OF _ b(1)] n(2) by blast
  then have "loginv c' G'" using b(3) by (rule loginv_net)
  then show ?thesis ..
qed

lemma advances_env: "advances (n\<lparr>clock := now, rng := g\<rparr>) n' \<longleftrightarrow> advances n n'"
  by (simp add: advances_def turns_def grows_def)

lemma ready_silent: "ready n \<Longrightarrow> advances n n"
  by (intro advances_silent) (simp_all add: ready_def)

lemma readBarrier_advances: "ready n \<Longrightarrow> advances n (snd (readBarrier_begin n))"
  using broadcast_advances ready_silent by (simp add: readBarrier_begin_def)

lemma callback_advances:
  assumes "ready n"
  shows "advances n (snd (onAppendResp p t ok ar n))" "advances n (snd (onSnapshotResp p i ok sr n))"
  using assms onAppendResp_step(1) onSnapshotResp_step(1)
  by (auto intro!: advances_silent simp: onAppendResp_log onSnapshotResp_log ready_def)

lemma restart_advances:
  assumes "cinv cfg c" "RaftNode_new (opts (nodes c i)) cfg (plDisk (nlog (nodes c i))) s0 g now = Inr n"
  shows "advances (nodes c i) (start n)"
proof -
  note F = RaftNode_new_fields[OF assms(2)]
  have "nlog n = nlog (nodes c i)"
    using F(2) nodes_okD(2)[OF assms(1), of i] by (simp add: good_def static_log_def synced_def)
  then show ?thesis using F by (simp add: advances_def turns_def grows_def calls_from_def)
qed

lemma snapshot_advances:
  assumes "ready n" "plain n'" "handleInstallSnapshot q n = (r, n')"
  shows "advances n n'"
  using handleInstallSnapshot_advances[of n q] assms by (simp add: plain_def)

lemma round_advances:
  assumes "ready n" "node_term n \<noteq> - 1" "plain (snd (runLoop_round hb (n\<lparr>clock := now, rng := g\<rparr>)))"
  shows "advances n (snd (runLoop_round hb (n\<lparr>clock := now, rng := g\<rparr>)))"
  using tick_advances[of "n\<lparr>clock := now, rng := g\<rparr>" hb] assms by (simp add: advances_env ready_def plain_def)

lemma force_advances:
  assumes "ready n" "plain (forceSnapshot n)"
  shows "advances n (forceSnapshot n)"
  using forceSnapshot_plain[of n] assms ready_silent[of n] by (simp add: plain_def)

lemma cstep_advances:
  assumes "cstep cfg c c'" and r: "\<And>i. ready (nodes c i)" and p: "\<And>i. plain (nodes c' i)" and c: "cinv cfg c"
  obtains (node) i n where "advances (nodes c i) n" "puts cfg c i n c'"
  | (append) i ep j q t where "Req i ep (SendAppendEntries j q t) \<in> net c"
      "quieter (install j (snd (handleAppendEntries q (nodes c j))) c) c'"
  | (lost) m where "c' = lose m c"
proof -
  have pn: "plain n" if "puts cfg c i n c'" for i n using p[of i] puts_node[OF that] by (simp add: plain_def)
  note P = puts_intros[OF c]
  show thesis using assms(1)
  proof cases
    case (tick i hb g now)
    show thesis by (rule node[OF round_advances[OF r tick(2) pn[OF P(1)[OF tick(1)]]] P(1)[OF tick(1)]])
  next
    case (client_propose b i)
    show thesis by (rule node[OF propose_advances[OF r] P(1)[OF client_propose(1)]])
  next
    case (client_read i)
    show thesis by (rule node[OF readBarrier_advances[OF r] P(1)[OF client_read]])
  next
    case (snapshot i)
    show thesis by (rule node[OF force_advances[OF r pn[OF P(1)[OF snapshot]]] P(1)[OF snapshot]])
  next
    case (recv_vote i ep j q t m resp n)
    show thesis by (rule node[OF handleRequestVote_advances[OF recv_vote(3) r] P(4)[OF recv_vote(1)]])
  next
    case (recv_append i ep j q t resp n)
    then show thesis by (intro append[of i ep j q t]) simp_all
  next
    case (recv_append_throws i ep j q t e n)
    then show thesis by (intro append[of i ep j q t]) simp_all
  next
    case (recv_snapshot i ep j q x resp n)
    show thesis by (rule node[OF snapshot_advances[OF r pn[OF P(5)[OF recv_snapshot(1)]] recv_snapshot(3)] P(5)[OF recv_snapshot(1)]])
  next
    case (recv_snapshot_throws i ep j q x e n)
    show thesis by (rule node[OF snapshot_advances[OF r pn[OF P(1)[OF recv_snapshot_throws(1)]] recv_snapshot_throws(3)] P(1)[OF recv_snapshot_throws(1)]])
  next
    case (vote_reply i j t m resp)
    show thesis by (rule node[OF onVoteResp_advances[OF r] P(2)[OF vote_reply(1)]])
  next
    case (append_reply i j t resp)
    show thesis by (rule node[OF callback_advances(1)[OF r] P(1)[OF append_reply(1)]])
  next
    case (snap_reply i j x resp)
    show thesis by (rule node[OF callback_advances(2)[OF r] P(1)[OF snap_reply(1)]])
  next
    case (restart i s0 g now n)
    show thesis by (rule node[OF restart_advances[OF c restart(2)] P(3)[OF restart(1)]])
  qed (rule lost)
qed

lemma cstep_loginv:
  assumes st: "cstep cfg c c'" and inv: "loginv c G" "cinv cfg c" "config_wf cfg" and p: "\<And>i. plain (nodes c' i)"
  shows "\<exists>G'. loginv c' G'"
  using st loginv_ready[OF inv(1,2)] p inv(2)
proof (cases rule: cstep_advances)
  case (node i n)
  have "plain n" using p[of i] puts_node[OF node(2)] by (simp add: plain_def)
  then show ?thesis using advance_loginv[OF inv(1) node(2) cstep_cinv[OF st inv(2,3)] node(1)] by blast
next
  case (append i ep j q t)
  then show ?thesis using loginv_net[OF install_append_loginv[OF inv(1,2) append(1) refl]] by blast
next
  case (lost m)
  then show ?thesis using loginv_net[OF inv(1) quieter_simps(2)] by blast
qed

lemma init_loginv:
  assumes "\<And>i. RaftNode_new (os i) cfg Map.empty KvStore_empty (gs i) (ts i) = Inr (ns i)"
  shows "loginv \<lparr>nodes = (\<lambda>i. start (ns i)), epoch = (\<lambda>_. 0), net = {}, cast = {}, elected = {}\<rparr> {[]}"
  using RaftNode_new_fields[OF assms]
  by (simp add: loginv_def coherent_def typed_def contiguous_def logs_in_def pieces_in_def led_def leaders_hold_def
      terms_ok_def plain_def empty_log)

lemma uncompacted_loginv: "uncompacted cfg c \<Longrightarrow> config_wf cfg \<Longrightarrow> \<exists>G. loginv c G"
proof (induction rule: uncompacted.induct)
  case (init os gs ts ns)
  then show ?case using init_loginv by blast
next
  case (step c c')
  then show ?case using cstep_loginv reachable_cinv[OF uncompacted_reachable] by blast
qed

section \<open>Log matching\<close>

lemma entryAt_plain:
  assumes "snapshotIndex L = 0"
  shows "entryAt x L = Some e \<longleftrightarrow> 0 < unat x \<and> unat x \<le> length (entries L) \<and> e = entries L ! (unat x - 1)"
  using assms by (auto simp: entryAt_logNth logNth_def)


text \<open>
  C10. The type of a log: in every such run each log has consecutive indices from 1, terms that are not 0 and
  never fall along the log, and no term beyond the term of the node that holds it.
\<close>

theorem logs_typed:
  assumes "config_wf cfg" "uncompacted cfg c"
  shows "typed (entries (nlog (nodes c i))) \<and> log_wf (nlog (nodes c i)) \<and>
    (\<forall>e\<in>set (entries (nlog (nodes c i))). eterm e \<le> node_term (nodes c i))"
proof -
  obtain G where G: "loginv c G" using uncompacted_loginv[OF assms(2,1)] by blast
  have "entries (nlog (nodes c i)) \<in> G" "\<forall>e\<in>set (entries (nlog (nodes c i))). eterm e \<le> node_term (nodes c i)"
    using loginvD(2)[OF G] by (simp_all add: logs_in_def)
  then show ?thesis
    using coherentD(1)[OF loginvD(1)[OF G]] loginv_ready[OF G reachable_cinv[OF uncompacted_reachable[OF assms(2)] assms(1)], of i]
    by (simp add: ready_def)
qed

section \<open>A run\<close>

definition demo_noop :: LogEntry where
  "demo_noop = \<lparr>eterm = 1, eindex = 1, etype = NoOp, edata = []\<rparr>"

definition demo_noop_request :: AppendEntriesReq where
  "demo_noop_request = \<lparr>ae_term = 1, ae_leaderId = 1, prevLogIndex = 0, prevLogTerm = 0, ae_entries = [demo_noop], leaderCommit = 0\<rparr>"

lemma demo_winner_fields:
  "entries (nlog demo_winner) = [demo_noop]" "snapshotIndex (nlog demo_winner) = 0"
  "SendAppendEntries 2 demo_noop_request 1 \<in> set (outbox demo_winner)"
  by (simp_all add: demo_winner_def onVoteResp_def voteResp_count_def demo_candidate_def demo_node_def empty_log Let_def
      becomeLeader_def becomeLeader_enter_def initProgress_def demo_config_def demo_options_def propose_def
      lastIndex_def appendAndSync_def rewriteWalLocked_def setHardState_def writeHardStateLocked_def
      tryAdvanceCommitIndex_def matches_def broadcastAppendEntries_def sendAppendEntriesTo_def nextOf_def termAt_def
      entriesAfter_eq demo_noop_def demo_noop_request_def)

lemma demo_uncompacted: "uncompacted demo_config demo_cluster"
proof -
  define ns where "ns i = (demo_node i)\<lparr>electionDeadline := 0, running := False\<rparr>" for i
  have "RaftNode_new (demo_options i) demo_config Map.empty KvStore_empty (\<lambda>_. 0) 0 = Inr (ns i)" for i
    by (simp add: RaftNode_new_def ns_def demo_node_def empty_log loadSnapshotBytes_def Let_def)
  then have "uncompacted demo_config \<lparr>nodes = (\<lambda>i. start (ns i)), epoch = (\<lambda>_. 0), net = {}, cast = {}, elected = {}\<rparr>"
    by (intro uncompacted.init[where os = demo_options and gs = "\<lambda>_ _. 0" and ts = "\<lambda>_. 0"]) simp_all
  moreover have "start (ns i) = demo_node i" for i
    by (simp add: ns_def start_def resetElectionDeadline_def demo_node_def demo_options_def)
  ultimately show ?thesis by (simp add: demo_cluster_def)
qed

lemma demo_plain: "plain (demo_node i)" "plain demo_candidate" "plain demo_voter" "plain demo_winner"
  by (simp_all add: plain_def demo_voter_fields demo_winner_fields) (simp_all add: demo_candidate_def demo_node_def empty_log)

lemma plain_outbox [simp]: "plain (n\<lparr>outbox := cs\<rparr>) = plain n"
  by (simp add: plain_def)

text \<open>The leader is elected and its first entry is on its way to the voter, which then accepts it.\<close>

lemma demo_leading:
  obtains c where "uncompacted demo_config c" "nodes c = demo_node(1 := demo_winner\<lparr>outbox := []\<rparr>, 2 := demo_voter)"
    "Req 1 0 (SendAppendEntries 2 demo_noop_request 1) \<in> net c"
proof -
  obtain c1 c2 c3 where s: "cstep demo_config demo_cluster c1" "cstep demo_config c1 c2" "cstep demo_config c2 c3"
    and n: "nodes c1 = demo_node(1 := demo_candidate)" "nodes c2 = demo_node(1 := demo_candidate, 2 := demo_voter)"
      "nodes c3 = demo_node(1 := demo_winner\<lparr>outbox := []\<rparr>, 2 := demo_voter)"
      "\<forall>call\<in>set (outbox demo_winner). Req 1 0 call \<in> net c3"
    by (rule demo_steps)
  have "uncompacted demo_config c1" using demo_plain by (intro uncompacted.step[OF demo_uncompacted s(1)]) (simp add: n)
  from uncompacted.step[OF this s(2)] have "uncompacted demo_config c2" using demo_plain by (simp add: n)
  from uncompacted.step[OF this s(3)] have "uncompacted demo_config c3" using demo_plain by (simp add: n)
  then show thesis using that n(3,4) demo_winner_fields(3) by blast
qed

lemma demo_replicated:
  obtains c where "uncompacted demo_config c" "entryAt 1 (nlog (nodes c 1)) = Some demo_noop" "entryAt 1 (nlog (nodes c 2)) = Some demo_noop"
proof -
  obtain c where c: "uncompacted demo_config c" "nodes c = demo_node(1 := demo_winner\<lparr>outbox := []\<rparr>, 2 := demo_voter)"
      "Req 1 0 (SendAppendEntries 2 demo_noop_request 1) \<in> net c"
    by (rule demo_leading)
  let ?n = "snd (handleAppendEntries demo_noop_request demo_voter)"
  have nl: "nlog ?n = appendAndSync [demo_noop] (nlog demo_voter)"
    using handleAppendEntries_accept(1)[of demo_noop_request demo_voter] demo_voter_fields(4)
    by (simp add: demo_noop_request_def prev_ok_def)
  have e: "entries (nlog ?n) = [demo_noop]" "snapshotIndex (nlog ?n) = 0"
    using demo_voter_fields(2,3) by (simp_all add: nl) (simp add: appendAndSync_def rewriteWalLocked_def)
  obtain c' where st: "cstep demo_config c c'" "nodes c' = nodes (install 2 ?n c)"
  proof (cases "fst (handleAppendEntries demo_noop_request demo_voter)")
    case (Inl x)
    then show thesis using that[OF cstep.recv_append_throws[OF c(3), of x ?n]] c(2) by (simp add: prod_eq_iff)
  next
    case (Inr r)
    then show thesis using that[OF cstep.recv_append[OF c(3), of r ?n]] c(2) by (simp add: prod_eq_iff)
  qed
  have "plain (nodes c' i)" for i using demo_plain e by (simp add: st(2) c(2)) (simp add: plain_def)
  then have "uncompacted demo_config c'" by (rule uncompacted.step[OF c(1) st(1)])
  then show thesis
    using that demo_winner_fields(1,2) e by (simp add: st(2) c(2) entryAt_plain)
qed


theorem logs_typed_witness:
  "\<exists>c. uncompacted demo_config c \<and> entries (nlog (nodes c 1)) = [demo_noop] \<and> typed (entries (nlog (nodes c 1)))"
proof -
  obtain c where c: "uncompacted demo_config c" "nodes c = demo_node(1 := demo_winner\<lparr>outbox := []\<rparr>, 2 := demo_voter)"
    by (rule demo_leading)
  have "config_wf demo_config" by (simp add: config_wf_def demo_config_def)
  from logs_typed[OF this c(1), of 1] show ?thesis using c demo_winner_fields(1) by auto
qed

end
