(* ===== verification/Raft_Lost_Write.thy ===== *)
theory Raft_Lost_Write
  imports Raft_Log_Matching
begin

text \<open>
  A run of three nodes that loses a committed write. Node 1 leads term 1, commits and applies a put that
  node 2 has acknowledged. Then the leader's first AppendEntries request, delayed in the network, reaches node 2
  and cuts its log back, and node 2 wins term 2 with the vote of node 3.
\<close>

section \<open>The leader\<close>

definition lw_put :: KvCommand where
  "lw_put = sample_put [5] [6] 7 1"

definition lw_entry :: LogEntry where
  "lw_entry = \<lparr>eterm = 1, eindex = 2, etype = Command, edata = KvCommand_encode lw_put\<rparr>"

lemma demo_winner_state:
  "role demo_winner = Leader" "node_term demo_winner = 1" "config demo_winner = demo_config" "opts demo_winner = demo_options 1"
  "commitIndex demo_winner = 0" "lastApplied demo_winner = 0" "sm demo_winner = KvStore_empty"
  "nextIndex demo_winner = [(1, 1), (2, 1), (3, 1)]" "matchIndex demo_winner = [(1, 0), (2, 0), (3, 0)]"
  by (simp_all add: demo_winner_def onVoteResp_def voteResp_count_def demo_candidate_def demo_node_def empty_log Let_def
      becomeLeader_def becomeLeader_enter_def initProgress_def demo_config_def demo_options_def propose_def
      lastIndex_def appendAndSync_def rewriteWalLocked_def setHardState_def writeHardStateLocked_def
      tryAdvanceCommitIndex_def matches_def broadcastAppendEntries_def sendAppendEntriesTo_def nextOf_def termAt_def
      entriesAfter_eq)

text \<open>The leader with the put in its log, and after a read barrier has sent the log again.\<close>

definition lw_proposed :: RaftNode where
  "lw_proposed = snd (propose (KvCommand_encode lw_put) Command (demo_winner\<lparr>outbox := []\<rparr>))"

lemma lw_proposed_state:
  "role lw_proposed = Leader" "node_term lw_proposed = 1" "config lw_proposed = demo_config" "opts lw_proposed = demo_options 1"
  "commitIndex lw_proposed = 0" "lastApplied lw_proposed = 0" "sm lw_proposed = KvStore_empty"
  "nextIndex lw_proposed = [(1, 1), (2, 1), (3, 1)]" "matchIndex lw_proposed = [(1, 0), (2, 0), (3, 0)]"
  "entries (nlog lw_proposed) = [demo_noop, lw_entry]" "snapshotIndex (nlog lw_proposed) = 0" "outbox lw_proposed = []"
  using demo_winner_state demo_winner_fields
  by (simp_all add: lw_proposed_def propose_def Let_def lastIndex_def appendAndSync_def rewriteWalLocked_def
      tryAdvanceCommitIndex_def matches_def demo_config_def demo_options_def demo_noop_def lw_entry_def)

definition lw_request :: AppendEntriesReq where
  "lw_request = \<lparr>ae_term = 1, ae_leaderId = 1, prevLogIndex = 0, prevLogTerm = snapshotTerm (nlog lw_proposed),
     ae_entries = [demo_noop, lw_entry], leaderCommit = 0\<rparr>"

definition lw_sent :: RaftNode where
  "lw_sent = snd (readBarrier_begin lw_proposed)"

lemma lw_sent_state:
  "SendAppendEntries 2 lw_request 1 \<in> set (outbox lw_sent)" "lw_sent\<lparr>outbox := []\<rparr> = lw_proposed"
  using lw_proposed_state
  by (simp_all add: lw_sent_def readBarrier_begin_def broadcastAppendEntries_def sendAppendEntriesTo_def nextOf_def termAt_def
      entriesAfter_eq demo_config_def demo_options_def lw_request_def Let_def)

text \<open>The acknowledgement of node 2 commits the put, and the leader applies it.\<close>

definition lw_ack :: AppendEntriesResp where
  "lw_ack = \<lparr>aer_term = 1, success = True, aer_matchIndex = 2, conflictIndex = 0, conflictTerm = 0\<rparr>"

definition lw_committed :: RaftNode where
  "lw_committed = snd (onAppendResp 2 1 True lw_ack lw_proposed)"

lemma lw_put_applies:
  "KvStore_apply (KvCommand_encode lw_put) 2 KvStore_empty = Inr (str ''OK'', \<lparr>kv_data = [([5], [6])], kv_lastSeq = [(7, 1, str ''OK'')]\<rparr>)"
proof -
  have "KvCommand_decode (KvCommand_encode lw_put) = Inr lw_put"
    by (rule KvCommand_decode_encode) (simp add: command_ok_def lw_put_def sample_put_def)
  then show ?thesis by (simp add: KvStore_apply_def Let_def kvExec_def KvStore_empty_def lw_put_def sample_put_def)
qed

lemma lw_committed_state:
  "lastApplied lw_committed = 2" "entries (nlog lw_committed) = [demo_noop, lw_entry]" "node_term lw_committed = 1"
  "snapshotIndex (nlog lw_committed) = 0" "KvStore_get [5] (sm lw_committed) = Some [6]" "pendingResults lw_committed 2 = Some (str ''OK'')"
  using lw_proposed_state lw_put_applies
  by (simp_all add: lw_committed_def onAppendResp_def lw_ack_def Let_def tryAdvanceCommitIndex_def matches_def demo_config_def
      demo_options_def lastIndex_def termAt_def demo_noop_def lw_entry_def applyCommittedEntries_def collectToApply_def
      collectLoop.simps entryAt_def applyOne_def KvStore_get_def)

section \<open>The follower that becomes the next leader\<close>

lemma demo_voter_state:
  "role demo_voter = Follower" "config demo_voter = demo_config" "opts demo_voter = demo_options 2" "commitIndex demo_voter = 0"
  "lastApplied demo_voter = 0" "electionDeadline demo_voter = 150"
  by (simp_all add: demo_voter_def handleRequestVote_def handleRequestVote_vote_def Let_def demo_request_def demo_node_def
      empty_log lastIndex_def lastTerm_def resetElectionDeadline_def becomeFollower_def demo_options_def)

definition lw_follower :: RaftNode where
  "lw_follower = snd (handleAppendEntries lw_request demo_voter)"

lemma lw_follower_state:
  "handleAppendEntries lw_request demo_voter = (Inr lw_ack, lw_follower)"
  "entries (nlog lw_follower) = [demo_noop, lw_entry]" "snapshotIndex (nlog lw_follower) = 0" "node_term lw_follower = 1"
  "role lw_follower = Follower" "config lw_follower = demo_config" "opts lw_follower = demo_options 2" "commitIndex lw_follower = 0"
  "lastApplied lw_follower = 0" "outbox lw_follower = []"
  using demo_voter_state demo_voter_fields(2-5)
  by (simp_all add: lw_follower_def handleAppendEntries_def handleAppendEntries_log_def lw_request_def Let_def
      appendAndSync_def rewriteWalLocked_def applyCommittedEntries_def collectToApply_def collectLoop.simps lw_ack_def
      lw_entry_def)

text \<open>The leader's first request, delivered late: the acknowledged entry is gone.\<close>

definition lw_cut :: RaftNode where
  "lw_cut = snd (handleAppendEntries demo_noop_request lw_follower)"

lemma lw_cut_state:
  "fst (handleAppendEntries demo_noop_request lw_follower) = Inr (lw_ack\<lparr>aer_matchIndex := 1\<rparr>)"
  "entries (nlog lw_cut) = [demo_noop]" "snapshotIndex (nlog lw_cut) = 0" "node_term lw_cut = 1"
  "role lw_cut = Follower" "config lw_cut = demo_config" "opts lw_cut = demo_options 2" "commitIndex lw_cut = 0"
  "lastApplied lw_cut = 0" "outbox lw_cut = []"
  using lw_follower_state(2-)
  by (simp_all add: lw_cut_def handleAppendEntries_def handleAppendEntries_log_def demo_noop_request_def Let_def
      appendAndSync_def rewriteWalLocked_def applyCommittedEntries_def collectToApply_def collectLoop.simps lw_ack_def
      demo_noop_def)

text \<open>It stands for election in term 2.\<close>

definition lw_vote_request :: RequestVoteReq where
  "lw_vote_request = \<lparr>rv_term = 2, candidateId = 2, lastLogIndex = 1, lastLogTerm = 1\<rparr>"

definition lw_candidate :: RaftNode where
  "lw_candidate = snd (runLoop_round 0 (lw_cut\<lparr>clock := electionDeadline lw_cut, rng := (\<lambda>_. 0)\<rparr>))"

lemma lw_candidate_state:
  "SendRequestVote 3 lw_vote_request 2 2 \<in> set (outbox lw_candidate)" "role lw_candidate = Candidate" "node_term lw_candidate = 2"
  "config lw_candidate = demo_config" "opts lw_candidate = demo_options 2" "commitIndex lw_candidate = 0" "lastApplied lw_candidate = 0"
  "entries (nlog lw_candidate) = [demo_noop]" "snapshotIndex (nlog lw_candidate) = 0" "votes lw_candidate 2 = Some 1"
  using lw_cut_state(2-)
  by (simp_all add: lw_candidate_def runLoop_round_def Let_def becomeCandidate_def becomeCandidate_enter_def resetElectionDeadline_def
      demo_config_def hasVoter_iff lastIndex_def lastTerm_def abind_def maybeSnapshot_def demo_options_def lw_vote_request_def
      demo_noop_def)

text \<open>Node 3, whose log is empty, grants its vote, and the candidate wins.\<close>

lemma lw_vote:
  "\<exists>n. handleRequestVote lw_vote_request (demo_node 3) = (\<lparr>rvr_term = 2, voteGranted = True\<rparr>, n)"
  by (simp add: handleRequestVote_def handleRequestVote_vote_def Let_def lw_vote_request_def demo_node_def
      empty_log lastIndex_def lastTerm_def)

definition lw_leader :: RaftNode where
  "lw_leader = snd (onVoteResp 2 2 True \<lparr>rvr_term = 2, voteGranted = True\<rparr> (lw_candidate\<lparr>outbox := []\<rparr>))"

lemma lw_leader_state:
  "role lw_leader = Leader" "node_term lw_leader = 2" "snapshotIndex (nlog lw_leader) = 0"
  "entries (nlog lw_leader) = [demo_noop, \<lparr>eterm = 2, eindex = 2, etype = NoOp, edata = []\<rparr>]"
  using lw_candidate_state(2-)
  by (simp_all add: lw_leader_def onVoteResp_def voteResp_count_def Let_def becomeLeader_def becomeLeader_enter_def
      initProgress_def demo_config_def demo_options_def propose_def lastIndex_def appendAndSync_def rewriteWalLocked_def
      tryAdvanceCommitIndex_def matches_def broadcastAppendEntries_def sendAppendEntriesTo_def nextOf_def termAt_def
      entriesAfter_eq demo_noop_def)

section \<open>The run\<close>

text \<open>Node 2 acknowledges the put and node 1 commits it; the first request is still under way.\<close>

lemma lw_commits:
  obtains c where "reachable demo_config c" "nodes c = demo_node(1 := lw_committed\<lparr>outbox := []\<rparr>, 2 := lw_follower)"
    "Req 1 0 (SendAppendEntries 2 demo_noop_request 1) \<in> net c" "epoch c = (\<lambda>_. 0)"
proof -
  obtain c1 c2 c3 where s: "cstep demo_config demo_cluster c1" "cstep demo_config c1 c2" "cstep demo_config c2 c3"
    and n: "nodes c3 = demo_node(1 := demo_winner\<lparr>outbox := []\<rparr>, 2 := demo_voter)"
      "\<forall>call\<in>set (outbox demo_winner). Req 1 0 call \<in> net c3" "epoch c3 = (\<lambda>_. 0)"
    by (rule demo_steps)
  have r3: "reachable demo_config c3"
    by (rule reachable.step[OF reachable.step[OF reachable.step[OF demo_reachable s(1)] s(2)] s(3)])
  define c4 where "c4 = install 1 lw_proposed c3"
  define c5 where "c5 = install 1 lw_sent c4"
  define c6 where "c6 = put_msg (AppendReply 1 0 2 1 lw_ack) (install 2 lw_follower c5)"
  define c7 where "c7 = install 1 lw_committed c6"
  have o: "lw_proposed\<lparr>outbox := []\<rparr> = lw_proposed" "lw_follower\<lparr>outbox := []\<rparr> = lw_follower"
    using lw_proposed_state(12) lw_follower_state(10) by simp_all
  have "short (KvCommand_encode lw_put)"
    by (simp add: lw_put_def sample_put_def KvCommand_encode_def putBytes_def putU64_def putU32_def putU8_def putLE_def)
  from cstep.client_propose[OF this, of demo_config c3 1] have "cstep demo_config c3 c4" by (simp add: n c4_def lw_proposed_def)
  then have r4: "reachable demo_config c4" by (rule reachable.step[OF r3])
  have n4: "nodes c4 1 = lw_proposed" by (simp add: c4_def o)
  from cstep.client_read[of demo_config c4 1] have "cstep demo_config c4 c5" by (simp add: n4 c5_def lw_sent_def)
  then have r5: "reachable demo_config c5" by (rule reachable.step[OF r4])
  have n5: "nodes c5 2 = demo_voter" "Req 1 0 (SendAppendEntries 2 lw_request 1) \<in> net c5"
    using lw_sent_state(1) by (simp_all add: c5_def c4_def n in_install_net)
  from cstep.recv_append[OF n5(2), unfolded n5(1), OF lw_follower_state(1)] have "cstep demo_config c5 c6" by (simp add: c6_def)
  then have r6: "reachable demo_config c6" by (rule reachable.step[OF r5])
  have n6: "nodes c6 1 = lw_proposed" "AppendReply 1 (epoch c6 1) 2 1 lw_ack \<in> net c6"
    by (simp_all add: c6_def c5_def c4_def n lw_sent_state(2))
  from cstep.append_reply[OF n6(2), of demo_config] have "cstep demo_config c6 c7" by (simp add: n6(1) c7_def lw_committed_def)
  then have r7: "reachable demo_config c7" by (rule reachable.step[OF r6])
  have "nodes c7 = demo_node(1 := lw_committed\<lparr>outbox := []\<rparr>, 2 := lw_follower)" "epoch c7 = (\<lambda>_. 0)"
      "Req 1 0 (SendAppendEntries 2 demo_noop_request 1) \<in> net c7"
    using n(2) demo_winner_fields(3) by (auto simp: c7_def c6_def c5_def c4_def n o in_install_net fun_eq_iff)
  then show thesis using that r7 by blast
qed

text \<open>
  C35. A committed write can be lost. In a run of three nodes in which messages are only delayed, a
  client's put is committed by a majority, applied by the leader and reported as done; then an older AppendEntries
  request reaches the follower that acknowledged it, which drops the entry from its log and wins the next term with
  the vote of the third node. The new leader does not have the put, and another entry stands at its index.
\<close>

theorem committed_write_lost:
  "\<exists>c. reachable demo_config c \<and> entryAt 2 (nlog (nodes c 1)) = Some lw_entry \<and> lastApplied (nodes c 1) = 2 \<and>
     KvStore_get [5] (sm (nodes c 1)) = Some [6] \<and> waitApplied 2 [] (nodes c 1) = (True, str ''OK'') \<and>
     role (nodes c 2) = Leader \<and> node_term (nodes c 1) < node_term (nodes c 2) \<and>
     lw_entry \<notin> set (entries (nlog (nodes c 2))) \<and>
     entryAt 2 (nlog (nodes c 2)) = Some \<lparr>eterm = 2, eindex = 2, etype = NoOp, edata = []\<rparr>"
proof -
  obtain c where c: "reachable demo_config c" "nodes c = demo_node(1 := lw_committed\<lparr>outbox := []\<rparr>, 2 := lw_follower)"
      "Req 1 0 (SendAppendEntries 2 demo_noop_request 1) \<in> net c" "epoch c = (\<lambda>_. 0)"
    by (rule lw_commits)
  let ?q = "SendRequestVote 3 lw_vote_request 2 2" and ?r = "\<lparr>rvr_term = 2, voteGranted = True\<rparr>"
  define c1 where "c1 = put_msg (AppendReply 1 0 2 1 (lw_ack\<lparr>aer_matchIndex := 1\<rparr>)) (install 2 lw_cut c)"
  define c2 where "c2 = install 2 lw_candidate c1"
  obtain n3 where n3: "handleRequestVote lw_vote_request (demo_node 3) = (?r, n3)" using lw_vote by blast
  define c3 where "c3 = put_msg (VoteReply 2 0 3 2 2 ?r) (install 3 n3 (lose (Req 2 0 ?q) c2))"
  define c4 where "c4 = install 2 lw_leader (lose (VoteReply 2 0 3 2 2 ?r) c3)"
  have cut: "handleAppendEntries demo_noop_request (nodes c 2) = (Inr (lw_ack\<lparr>aer_matchIndex := 1\<rparr>), lw_cut)"
    using lw_cut_state(1) by (simp add: c(2) lw_cut_def prod_eq_iff)
  have "cstep demo_config c c1" unfolding c1_def by (rule cstep.recv_append[OF c(3) cut])
  then have r1: "reachable demo_config c1" by (rule reachable.step[OF c(1)])
  have n1: "nodes c1 2 = lw_cut" "epoch c1 = (\<lambda>_. 0)" using lw_cut_state(10) by (simp_all add: c1_def c(4))
  have "cstep demo_config c1 c2"
    using cstep.tick[of c1 2 demo_config 0 "\<lambda>_. 0" "electionDeadline lw_cut"] lw_cut_state(4)
    by (simp add: n1 c2_def lw_candidate_def)
  then have r2: "reachable demo_config c2" by (rule reachable.step[OF r1])
  have n2: "nodes c2 3 = demo_node 3" "Req 2 0 ?q \<in> net c2" "epoch c2 = (\<lambda>_. 0)"
    using lw_candidate_state(1) by (simp_all add: c2_def c1_def c n1(2) in_install_net)
  have "cstep demo_config c2 c3" unfolding c3_def using n3 by (intro cstep.recv_vote[OF n2(2)]) (simp add: n2(1))
  then have r3: "reachable demo_config c3" by (rule reachable.step[OF r2])
  have n3: "nodes c3 2 = lw_candidate\<lparr>outbox := []\<rparr>" "VoteReply 2 (epoch c3 2) 3 2 2 ?r \<in> net c3" "epoch c3 = (\<lambda>_. 0)"
    by (simp_all add: c3_def c2_def n2(3) c1_def c(4))
  have "cstep demo_config c3 c4" using cstep.vote_reply[OF n3(2), of demo_config] by (simp add: n3 c4_def lw_leader_def)
  then have "reachable demo_config c4" by (rule reachable.step[OF r3])
  moreover have "nodes c4 1 = lw_committed\<lparr>outbox := []\<rparr>" "nodes c4 2 = lw_leader\<lparr>outbox := []\<rparr>"
    by (simp_all add: c4_def c3_def c2_def c1_def c(2))
  ultimately show ?thesis
    using lw_committed_state lw_leader_state
    by (intro exI[of _ c4]) (simp add: entryAt_def waitApplied_def lw_entry_def demo_noop_def)
qed

end
