(* ===== verification/Raft_Progress.thy ===== *)
theory Raft_Progress
  imports Raft_Replication
begin

text \<open>
  Progress. From every reachable cluster a leader of the newest term can be elected: no order of crashes,
  losses and elections leaves the group stuck. A write in a group whose followers are in step is committed, applied
  and answered after one round of a majority. A follower with a conflicting log, however, may never be
  brought up to date: the hint of its reply sends the leader to the same index again and again.
\<close>

section \<open>Logs that are at least as up to date\<close>

definition up_to_date :: "PersistentLog \<Rightarrow> PersistentLog \<Rightarrow> bool" where
  "up_to_date L L' \<longleftrightarrow> lastTerm L' < lastTerm L \<or> lastTerm L' = lastTerm L \<and> lastIndex L' \<le> lastIndex L"

lemma up_to_date_setHardState [simp]:
  "up_to_date (setHardState t v L) L' = up_to_date L L'" "up_to_date L (setHardState t v L') = up_to_date L L'"
  by (simp_all add: up_to_date_def)

lemma up_to_date_refl [simp]: "up_to_date L L"
  by (simp add: up_to_date_def)

lemma most_up_to_date:
  assumes "vs \<noteq> []"
  obtains i where "i \<in> set vs" "\<And>j. j \<in> set vs \<Longrightarrow> up_to_date (f i) (f j)"
proof -
  have "\<exists>i\<in>set vs. \<forall>j\<in>set vs. up_to_date (f i) (f j)"
    using assms
  proof (induction vs rule: list_nonempty_induct)
    case (cons v vs)
    then obtain i where i: "i \<in> set vs" "\<forall>j\<in>set vs. up_to_date (f i) (f j)" by blast
    show ?case
    proof (cases "up_to_date (f i) (f v)")
      case False
      then have "\<forall>j\<in>set vs. up_to_date (f v) (f j)" using i(2) unfolding up_to_date_def by force
      then show ?thesis by simp
    qed (use i in auto)
  qed simp
  then show thesis using that by blast
qed

section \<open>Rounds of the timer loop\<close>

text \<open>No snapshot is due.\<close>

definition settled :: "RaftNode \<Rightarrow> bool" where
  "settled n \<longleftrightarrow> \<not> snapshotThresholdEntries (opts n) \<le> lastApplied n - snapshotIndex (nlog n) \<or>
     lastApplied n \<le> snapshotIndex (nlog n)"

lemma settled_snapshot: "settled n \<Longrightarrow> maybeSnapshot n = n"
  by (auto simp: settled_def maybeSnapshot_def forceSnapshot_def forceSnapshot_position_def)

lemma maybeSnapshot_keeps:
  "opts (maybeSnapshot n) = opts n" "role (maybeSnapshot n) = role n" "node_term (maybeSnapshot n) = node_term n"
  "lastApplied (maybeSnapshot n) = lastApplied n"
  by (auto simp: maybeSnapshot_def forceSnapshot_def forceSnapshot_write_def split: option.splits)

lemma maybeSnapshot_settled: "settled (maybeSnapshot n)"
  by (auto simp: settled_def maybeSnapshot_def forceSnapshot_def forceSnapshot_position_def forceSnapshot_write_def
      compactUpTo_def Let_def rewriteWalLocked_def writeSnapshotLocked_def)

lemma settled_env [simp]: "settled (n\<lparr>clock := now, rng := g\<rparr>) = settled n" "settled (n\<lparr>outbox := b\<rparr>) = settled n"
  by (simp_all add: settled_def)

text \<open>The rounds of a leader, with and without a heartbeat, and of another node whose time is up.\<close>

lemma leader_round:
  assumes "role n = Leader"
  shows "snd (runLoop_round (clock n - heartbeatIntervalMs (opts n)) n) = maybeSnapshot (broadcastAppendEntries n)"
    and "snd (runLoop_round (clock n - heartbeatIntervalMs (opts n) + 1) n) = maybeSnapshot n"
  using assms by (simp_all add: runLoop_round_def)

lemma timeout_round:
  assumes "role n \<noteq> Leader" "electionDeadline n \<le> clock n"
  shows "snd (runLoop_round hb n) \<in> {snd (becomeCandidate n), maybeSnapshot (snd (becomeCandidate n))}"
  using assms by (auto simp: runLoop_round_def Let_def fst_snd_abind split: sum.splits)

lemma candidate_round:
  assumes "role n \<noteq> Leader" "electionDeadline n \<le> clock n" "node_id n \<in> set (voters (config n))" "1 < majority (config n)"
  shows "snd (runLoop_round hb n) = maybeSnapshot ((becomeCandidate_enter n)\<lparr>votes := (votes n)(node_term n + 1 \<mapsto> 1),
        outbox := outbox n @ map (\<lambda>p. SendRequestVote p (vote_request (becomeCandidate_enter n)) (node_term n + 1)
          (int (majority (config n)))) (filter (\<lambda>p. p \<noteq> node_id n) (voters (config n)))\<rparr>)"
proof (rule becomeCandidate_cases[of n])
  have "fst (becomeCandidate n) = Inr ()"
    using assms(3,4) by (auto simp: becomeCandidate_def hasVoter_iff Let_def majority_def)
  then have "snd (runLoop_round hb n) = maybeSnapshot (snd (becomeCandidate n))"
    using assms(1,2) by (simp add: runLoop_round_def Let_def fst_snd_abind)
  then show ?thesis if "snd (becomeCandidate n) = (becomeCandidate_enter n)\<lparr>votes := (votes n)(node_term n + 1 \<mapsto> 1),
        outbox := outbox n @ map (\<lambda>p. SendRequestVote p (vote_request (becomeCandidate_enter n)) (node_term n + 1)
          (int (majority (config n)))) (filter (\<lambda>p. p \<noteq> node_id n) (voters (config n)))\<rparr>"
    using that by simp
qed (use assms in simp_all)

lemma alone_round:
  assumes "role n \<noteq> Leader" "electionDeadline n \<le> clock n" "node_id n \<in> set (voters (config n))" "majority (config n) = 1"
  shows "role (snd (runLoop_round hb n)) = Leader"
proof (rule becomeCandidate_cases[of n])
  assume "snd (becomeCandidate n) = snd (becomeLeader ((becomeCandidate_enter n)\<lparr>votes := (votes n)(node_term n + 1 \<mapsto> 1)\<rparr>))"
  then have "role (snd (becomeCandidate n)) = Leader" by (simp add: becomeLeader_role)
  then show ?thesis using timeout_round[OF assms(1,2), of hb] by (auto simp: maybeSnapshot_keeps)
qed (use assms in simp_all)


section \<open>Steps of a cluster\<close>

lemma steps_cinv:
  assumes "(cstep cfg)\<^sup>*\<^sup>* c c'" "cinv cfg c" "config_wf cfg"
  shows "cinv cfg c'"
  using assms by (induction rule: rtranclp_induct) (auto intro: cstep_cinv)

text \<open>A node when its timer goes off: its clock has reached the deadline and has not gone back.\<close>

definition later :: "RaftNode \<Rightarrow> RaftNode" where
  "later n = n\<lparr>clock := max (clock n) (electionDeadline n), rng := rng n\<rparr>"

lemma later_fields [simp]:
  "opts (later n) = opts n" "role (later n) = role n" "nlog (later n) = nlog n" "config (later n) = config n"
  "votes (later n) = votes n" "outbox (later n) = outbox n" "electionDeadline (later n) \<le> clock (later n)"
  "settled (later n) = settled n" "lastApplied (later n) = lastApplied n"
  by (simp_all add: later_def settled_def)

lemma tick_later:
  "node_term (nodes c i) \<noteq> - 1 \<Longrightarrow> cstep cfg c (install i (snd (runLoop_round hb (later (nodes c i)))) c)"
  unfolding later_def by (rule cstep.tick)

lemma not_top_plus: "(t :: Term) \<noteq> - 1 \<Longrightarrow> unat (t + 1) = unat t + 1"
  using unsigned_less[of t, where ?'a = nat] by (metis add.commute add_eq_0_iff Suc_eq_plus1 unatSuc)

lemma below_top: "unat (t :: Term) + 1 < 2 ^ 64 \<Longrightarrow> t \<noteq> - 1"
  by (auto simp: unsigned_minus_1_eq_mask mask_eq_exp_minus_1)

text \<open>One timer round of each voter, and every snapshot that was due is taken.\<close>

lemma settle_one:
  assumes "cinv cfg c" "i \<in> set (voters cfg)" "1 < majority cfg" "node_term (nodes c i) \<noteq> - 1"
  obtains c' where "cstep cfg c c'" "settled (nodes c' i)" "\<And>j. j \<noteq> i \<Longrightarrow> nodes c' j = nodes c j"
    "unat (node_term (nodes c' i)) \<le> unat (node_term (nodes c i)) + 1"
proof -
  let ?n = "later (nodes c i)"
  have n: "config ?n = cfg" "node_id ?n = i" using nodes_okD(1,2)[OF assms(1), of i] by (simp_all add: good_def)
  obtain hb m where m: "snd (runLoop_round hb ?n) = maybeSnapshot m" "unat (node_term m) \<le> unat (node_term (nodes c i)) + 1"
  proof (cases "role ?n = Leader")
    case True
    then show thesis using that[OF leader_round(2)[OF True]] by simp
  next
    case False
    then show thesis using that[OF candidate_round[OF False]] n assms(2-4) by (simp add: not_top_plus)
  qed
  show thesis
    using m maybeSnapshot_settled[of m] that[OF tick_later[OF assms(4), where hb = hb]] by (simp add: maybeSnapshot_keeps)
qed

lemma settle:
  assumes "cinv cfg c" "config_wf cfg" "1 < majority cfg" "set vs \<subseteq> set (voters cfg)" "distinct vs"
    and "\<forall>j\<in>set vs. node_term (nodes c j) \<noteq> - 1"
  shows "\<exists>c'. (cstep cfg)\<^sup>*\<^sup>* c c' \<and> (\<forall>j\<in>set vs. settled (nodes c' j) \<and>
      unat (node_term (nodes c' j)) \<le> unat (node_term (nodes c j)) + 1) \<and> (\<forall>j. j \<notin> set vs \<longrightarrow> nodes c' j = nodes c j)"
  using assms
proof (induction vs arbitrary: c)
  case (Cons i vs)
  obtain d where d: "cstep cfg c d" "settled (nodes d i)" "\<And>j. j \<noteq> i \<Longrightarrow> nodes d j = nodes c j"
      "unat (node_term (nodes d i)) \<le> unat (node_term (nodes c i)) + 1"
    using settle_one[OF Cons.prems(1) _ Cons.prems(3)] Cons.prems(4,6) by (metis list.set_intros(1) subsetD)
  have "\<forall>j\<in>set vs. node_term (nodes d j) \<noteq> - 1" using Cons.prems(5,6) d(3) by force
  then obtain c' where c': "(cstep cfg)\<^sup>*\<^sup>* d c'" "\<forall>j\<in>set vs. settled (nodes c' j) \<and>
      unat (node_term (nodes c' j)) \<le> unat (node_term (nodes d j)) + 1" "\<forall>j. j \<notin> set vs \<longrightarrow> nodes c' j = nodes d j"
    using Cons.IH[OF cstep_cinv[OF d(1) Cons.prems(1,2)] Cons.prems(2,3)] Cons.prems(4,5) by auto
  have "(cstep cfg)\<^sup>*\<^sup>* c c'" using d(1) c'(1) by (rule converse_rtranclp_into_rtranclp)
  moreover have "\<forall>j\<in>set (i # vs). settled (nodes c' j) \<and> unat (node_term (nodes c' j)) \<le> unat (node_term (nodes c j)) + 1"
    using c'(2,3) d Cons.prems(5) by fastforce
  moreover have "\<forall>j. j \<notin> set (i # vs) \<longrightarrow> nodes c' j = nodes c j" using c'(3) d(3) by simp
  ultimately show ?case by blast
qed auto


section \<open>A leader that has missed a term\<close>

lemma nextOf_outbox [simp]: "nextOf p (n\<lparr>outbox := b\<rparr>) = nextOf p n"
  by (simp add: nextOf_def)

lemma broadcast_call:
  assumes "role n = Leader" "j \<in> set (voters (config n))" "j \<noteq> node_id n"
  shows "if nextOf j n \<le> snapshotIndex (nlog n)
    then \<exists>q. SendInstallSnapshot j q (snapshotIndex (nlog n)) \<in> set (outbox (broadcastAppendEntries n)) \<and> is_term q = node_term n
    else SendAppendEntries j (append_request j n) (node_term n) \<in> set (outbox (broadcastAppendEntries n))"
proof -
  let ?f = "\<lambda>peer n. if peer = node_id n then n
          else if nextOf peer n \<le> snapshotIndex (nlog n) then sendInstallSnapshotTo peer n
          else sendAppendEntriesTo peer n"
  have s: "sends m (fold ?f vs m)" for vs m
    by (induction vs arbitrary: m) (auto intro: sends_trans sends_step)
  obtain xs ys where v: "voters (config n) = xs @ j # ys" using split_list[OF assms(2)] by blast
  obtain b where m: "fold ?f xs n = n\<lparr>outbox := b\<rparr>" using s[of n xs] by (auto simp: sends_def)
  let ?m = "?f j (n\<lparr>outbox := b\<rparr>)"
  have "broadcastAppendEntries n = fold ?f ys ?m" using assms(1) by (simp add: broadcastAppendEntries_def v m)
  then have sub: "set (outbox ?m) \<subseteq> set (outbox (broadcastAppendEntries n))" using s[of ?m ys] by (auto simp: sends_def)
  show ?thesis
  proof (cases "nextOf j n \<le> snapshotIndex (nlog n)")
    case True
    then obtain q where "SendInstallSnapshot j q (snapshotIndex (nlog n)) \<in> set (outbox ?m)" "is_term q = node_term n"
      using assms by (fastforce simp: sendInstallSnapshotTo_def Let_def)
    then show ?thesis using sub True by auto
  next
    case False
    then have "SendAppendEntries j (append_request j n) (node_term n) \<in> set (outbox ?m)"
      using assms by (simp add: sendAppendEntriesTo_def append_request_def Let_def)
    then show ?thesis using sub False by auto
  qed
qed

lemma broadcast_keeps:
  "opts (broadcastAppendEntries n) = opts n" "nlog (broadcastAppendEntries n) = nlog n" "role (broadcastAppendEntries n) = role n"
  "lastApplied (broadcastAppendEntries n) = lastApplied n" "settled (broadcastAppendEntries n) = settled n"
  using broadcastAppendEntries_sends[of n] by (auto simp: sends_def)

lemma stale_requests:
  "ae_term q < node_term n \<Longrightarrow> handleAppendEntries q n =
    (Inr \<lparr>aer_term = node_term n, success = False, aer_matchIndex = 0, conflictIndex = 0, conflictTerm = 0\<rparr>, n)"
  "is_term s < node_term n \<Longrightarrow> handleInstallSnapshot s n = (Inr \<lparr>isr_term = node_term n\<rparr>, n)"
  by (simp_all add: handleAppendEntries_def handleInstallSnapshot_def)

lemma later_replies:
  "node_term n < aer_term r \<Longrightarrow> snd (onAppendResp p t True r n) = becomeFollower (aer_term r) 0 n"
  "node_term n < isr_term r' \<Longrightarrow> snd (onSnapshotResp p x True r' n) = becomeFollower (isr_term r') 0 n"
  by (simp_all add: onAppendResp_def onSnapshotResp_def)

text \<open>A request of the leader to a node of a later term is answered with that term, and the leader steps down.\<close>

lemma refused:
  assumes inv: "cinv cfg c" and i: "role (nodes c i) = Leader"
    and j: "j \<noteq> i" "j \<in> set (voters cfg)" "node_term (nodes c i) < node_term (nodes c j)"
    and c1_def: "c1 = install i (broadcastAppendEntries (later (nodes c i))) c"
  shows "\<exists>c2 c3. cstep cfg c1 c2 \<and> nodes c2 = nodes c1 \<and> cstep cfg c2 c3 \<and>
    nodes c3 = (nodes c2)(i := (becomeFollower (node_term (nodes c j)) 0 (nodes c2 i))\<lparr>outbox := []\<rparr>)"
proof -
  let ?n = "later (nodes c i)" and ?t = "node_term (nodes c j)"
  let ?b = "broadcastAppendEntries ?n"
  have n: "config ?n = cfg" "node_id ?n = i" using nodes_okD(1,2)[OF inv, of i] by (simp_all add: good_def)
  have c1: "nodes c1 = (nodes c)(i := ?b\<lparr>outbox := []\<rparr>)" "epoch c1 = epoch c" by (auto simp: c1_def)
  have oj: "(nodes c j)\<lparr>outbox := []\<rparr> = nodes c j" using nodes_okD(3)[OF inv, of j] by simp
  show ?thesis
  proof (cases "nextOf j ?n \<le> snapshotIndex (nlog ?n)")
    case True
    then obtain q x where q: "Req i (epoch c i) (SendInstallSnapshot j q x) \<in> net c1" "is_term q = node_term ?n"
      using broadcast_call[of ?n j] i n j by (auto simp: c1_def in_install_net)
    define r where "r = \<lparr>isr_term = ?t\<rparr>"
    define c2 where "c2 = put_msg (SnapReply i (epoch c i) j x r) (install j (nodes c j) c1)"
    have "cstep cfg c1 c2" unfolding c2_def
      using q j c1 stale_requests(2)[of q "nodes c j"] by (intro cstep.recv_snapshot) (simp_all add: r_def)
    moreover have c2: "nodes c2 = nodes c1" "SnapReply i (epoch c2 i) j x r \<in> net c2"
      using oj j(1) c1 by (auto simp: c2_def)
    moreover have "snd (onSnapshotResp j x True r (nodes c2 i)) = becomeFollower ?t 0 (nodes c2 i)"
      using j(3) by (simp add: later_replies r_def c2(1) c1 broadcast_keeps)
    ultimately show ?thesis using cstep.snap_reply[OF c2(2), of cfg] by (auto intro!: exI)
  next
    case False
    define q where "q = append_request j ?n"
    have q: "Req i (epoch c i) (SendAppendEntries j q (node_term ?n)) \<in> net c1" "ae_term q = node_term ?n"
      using False broadcast_call[of ?n j] i n j by (simp_all add: c1_def in_install_net q_def append_request_def)
    define r where "r = \<lparr>aer_term = ?t, success = False, aer_matchIndex = 0, conflictIndex = 0, conflictTerm = 0\<rparr>"
    define c2 where "c2 = put_msg (AppendReply i (epoch c i) j (node_term ?n) r) (install j (nodes c j) c1)"
    have "cstep cfg c1 c2" unfolding c2_def
      using q j c1 stale_requests(1)[of q "nodes c j"] by (intro cstep.recv_append) (simp_all add: r_def)
    moreover have c2: "nodes c2 = nodes c1" "AppendReply i (epoch c2 i) j (node_term ?n) r \<in> net c2"
      using oj j(1) c1 by (auto simp: c2_def)
    moreover have "snd (onAppendResp j (node_term ?n) True r (nodes c2 i)) = becomeFollower ?t 0 (nodes c2 i)"
      using j(3) by (simp add: later_replies r_def c2(1) c1 broadcast_keeps)
    ultimately show ?thesis using cstep.append_reply[OF c2(2), of cfg] by (auto intro!: exI)
  qed
qed

text \<open>Its next heartbeat to a node of a later term makes it a follower.\<close>

lemma depose:
  assumes inv: "cinv cfg c" and i: "role (nodes c i) = Leader" "settled (nodes c i)"
    and j: "j \<noteq> i" "j \<in> set (voters cfg)" "node_term (nodes c i) < node_term (nodes c j)"
  obtains c' where "(cstep cfg)\<^sup>*\<^sup>* c c'" "\<And>k. k \<noteq> i \<Longrightarrow> nodes c' k = nodes c k" "role (nodes c' i) = Follower"
    "nlog (nodes c' i) = setHardState (node_term (nodes c j)) 0 (nlog (nodes c i))" "settled (nodes c' i)"
proof -
  let ?n = "later (nodes c i)" and ?t = "node_term (nodes c j)"
  let ?b = "broadcastAppendEntries ?n"
  have top: "node_term (nodes c i) \<noteq> - 1" using j(3) by (metis word_order.extremum_strict)
  define c1 where "c1 = install i ?b c"
  have s1: "cstep cfg c c1"
    using tick_later[OF top, of cfg "clock ?n - heartbeatIntervalMs (opts ?n)"] leader_round(1)[of ?n] i
    by (simp add: c1_def settled_snapshot broadcast_keeps)
  have c1: "nodes c1 = (nodes c)(i := ?b\<lparr>outbox := []\<rparr>)" "epoch c1 = epoch c" by (auto simp: c1_def)
  obtain c2 c3 where s: "cstep cfg c1 c2" "nodes c2 = nodes c1" "cstep cfg c2 c3"
      "nodes c3 = (nodes c2)(i := (becomeFollower ?t 0 (nodes c2 i))\<lparr>outbox := []\<rparr>)"
    using refused[OF inv i(1) j c1_def] by blast
  have "(cstep cfg)\<^sup>*\<^sup>* c c3" using s1 s(1,3) by (meson converse_rtranclp_into_rtranclp r_into_rtranclp)
  then show thesis using s c1 i j(3) by (intro that[of c3]) (simp_all add: broadcast_keeps settled_def)
qed


section \<open>A campaign\<close>

text \<open>
  A candidate with \<open>v\<close> votes in its term, whose requests to \<open>js\<close> are under way.
\<close>

definition standing :: "ClusterConfig \<Rightarrow> Cluster \<Rightarrow> NodeId \<Rightarrow> int \<Rightarrow> NodeId set \<Rightarrow> bool" where
  "standing cfg c i v js \<longleftrightarrow> role (nodes c i) = Candidate \<and> votes (nodes c i) (node_term (nodes c i)) = Some v \<and>
     (\<forall>j\<in>js. Req i (epoch c i) (SendRequestVote j (vote_request (nodes c i)) (node_term (nodes c i)) (int (majority cfg))) \<in> net c)"

lemma campaign:
  assumes inv: "cinv cfg c" "i \<in> set (voters cfg)" "1 < majority cfg"
    and n: "role (nodes c i) \<noteq> Leader" "settled (nodes c i)" "node_term (nodes c i) \<noteq> - 1"
  obtains c' where "cstep cfg c c'" "standing cfg c' i 1 (set (voters cfg) - {i})" "\<And>k. k \<noteq> i \<Longrightarrow> nodes c' k = nodes c k"
    "nlog (nodes c' i) = setHardState (node_term (nodes c i) + 1) i (nlog (nodes c i))" "settled (nodes c' i)"
proof -
  let ?n = "later (nodes c i)"
  have id: "config ?n = cfg" "node_id ?n = i" using nodes_okD(1,2)[OF inv(1), of i] by (simp_all add: good_def)
  define m where "m = (becomeCandidate_enter ?n)\<lparr>votes := (votes ?n)(node_term ?n + 1 \<mapsto> 1),
        outbox := outbox ?n @ map (\<lambda>p. SendRequestVote p (vote_request (becomeCandidate_enter ?n)) (node_term ?n + 1)
          (int (majority cfg))) (filter (\<lambda>p. p \<noteq> i) (voters cfg))\<rparr>"
  have m: "role m = Candidate" "nlog m = setHardState (node_term (nodes c i) + 1) i (nlog (nodes c i))"
      "votes m (node_term m) = Some 1" "opts m = opts (nodes c i)" "vote_request (m\<lparr>outbox := []\<rparr>) = vote_request (becomeCandidate_enter ?n)"
    using id by (simp_all add: m_def vote_request_def)
  have set: "settled m" using n(2) by (simp add: m_def settled_def becomeCandidate_enter_def resetElectionDeadline_def Let_def)
  have r: "snd (runLoop_round 0 ?n) = m"
    using candidate_round[of ?n 0] n(1) inv(2,3) id settled_snapshot[OF set] by (simp add: m_def)
  show thesis
  proof (rule that)
    show "cstep cfg c (install i m c)" using tick_later[OF n(3), of cfg 0] by (simp add: r)
    show "standing cfg (install i m c) i 1 (set (voters cfg) - {i})"
      using m id by (auto simp: standing_def in_install_net) (auto simp: m_def)
  qed (use m set in simp_all)
qed

text \<open>Timeouts until the candidate's term is beyond \<open>t\<close>.\<close>

lemma campaign_beyond:
  assumes "cinv cfg c" "config_wf cfg" "i \<in> set (voters cfg)" "1 < majority cfg" "role (nodes c i) \<noteq> Leader" "settled (nodes c i)"
    and "t \<noteq> - 1" "node_term (nodes c i) \<le> t"
  shows "\<exists>c'. (cstep cfg)\<^sup>*\<^sup>* c c' \<and> standing cfg c' i 1 (set (voters cfg) - {i}) \<and> (\<forall>k. k \<noteq> i \<longrightarrow> nodes c' k = nodes c k) \<and>
    t < node_term (nodes c' i) \<and> (\<forall>L. up_to_date (nlog (nodes c' i)) L = up_to_date (nlog (nodes c i)) L)"
  using assms
proof (induction "unat t - unat (node_term (nodes c i))" arbitrary: c rule: less_induct)
  case less
  have top: "node_term (nodes c i) \<noteq> - 1" using less.prems(7,8) by (metis word_order.extremum_unique)
  obtain d where d: "cstep cfg c d" "standing cfg d i 1 (set (voters cfg) - {i})" "\<And>k. k \<noteq> i \<Longrightarrow> nodes d k = nodes c k"
      "nlog (nodes d i) = setHardState (node_term (nodes c i) + 1) i (nlog (nodes c i))" "settled (nodes d i)"
    by (rule campaign[OF less.prems(1,3-6) top]) blast
  show ?case
  proof (cases "t < node_term (nodes d i)")
    case True
    then show ?thesis using d by (intro exI[of _ d]) auto
  next
    case False
    have "unat (node_term (nodes c i)) < unat (node_term (nodes d i))" using not_top_plus[OF top] d(4) by simp
    then have lt: "unat t - unat (node_term (nodes d i)) < unat t - unat (node_term (nodes c i))"
      using False by (simp add: not_less word_le_nat_alt)
    have "role (nodes d i) \<noteq> Leader" using d(2) by (simp add: standing_def)
    then obtain c' where c': "(cstep cfg)\<^sup>*\<^sup>* d c'" "standing cfg c' i 1 (set (voters cfg) - {i})"
        "\<forall>k. k \<noteq> i \<longrightarrow> nodes c' k = nodes d k" "t < node_term (nodes c' i)"
        "\<forall>L. up_to_date (nlog (nodes c' i)) L = up_to_date (nlog (nodes d i)) L"
      using less.hyps[OF lt cstep_cinv[OF d(1) less.prems(1,2)] less.prems(2-4)] d(5) less.prems(7) False by (meson leI)
    then show ?thesis
      using converse_rtranclp_into_rtranclp[OF d(1) c'(1)] d(3,4) by (intro exI[of _ c']) simp
  qed
qed

text \<open>A node of an earlier term whose log is not ahead grants its vote.\<close>

lemma vote_granted:
  assumes "node_term n < rv_term q" "lastTerm (nlog n) < lastLogTerm q \<or> lastTerm (nlog n) = lastLogTerm q \<and> lastIndex (nlog n) \<le> lastLogIndex q"
  obtains n' where "handleRequestVote q n = (\<lparr>rvr_term = rv_term q, voteGranted = True\<rparr>, n')" "node_term n' = rv_term q"
  using assms that by (auto simp: handleRequestVote_def handleRequestVote_vote_def Let_def not_less_iff_gr_or_eq)

lemma becomeLeader_term:
  assumes "role n = Candidate"
  shows "node_term (snd (becomeLeader n)) = node_term n"
  using becomeLeader_step(1)[OF assms] becomeLeader_role[OF assms] becomeLeader_enter_fields[OF assms] by (auto simp: quiet_def)

lemma vote_counted:
  assumes "role n = Candidate" "votes n (node_term n) = Some v"
  shows "snd (onVoteResp (node_term n) m True \<lparr>rvr_term = node_term n, voteGranted = True\<rparr> n) =
    (let n' = n\<lparr>votes := (votes n)(node_term n \<mapsto> v + 1)\<rparr> in if m \<le> v + 1 then snd (becomeLeader n') else n')"
  using assms by (simp add: onVoteResp_def voteResp_count_def Let_def)


text \<open>One request delivered and its answer counted.\<close>

lemma ballot:
  assumes st: "standing cfg c i v js" "j \<in> js" "j \<noteq> i"
    and j: "node_term (nodes c j) < node_term (nodes c i)" "up_to_date (nlog (nodes c i)) (nlog (nodes c j))"
  shows "\<exists>c'. (cstep cfg)\<^sup>*\<^sup>* c c' \<and> node_term (nodes c' j) = node_term (nodes c i) \<and>
    (\<forall>k. k \<noteq> i \<longrightarrow> k \<noteq> j \<longrightarrow> nodes c' k = nodes c k) \<and>
    nodes c' i = (let n' = (nodes c i)\<lparr>votes := (votes (nodes c i))(node_term (nodes c i) \<mapsto> v + 1)\<rparr>
       in if int (majority cfg) \<le> v + 1 then snd (becomeLeader n') else n')\<lparr>outbox := []\<rparr> \<and>
    (v + 1 < int (majority cfg) \<longrightarrow> standing cfg c' i (v + 1) (js - {j}))"
proof -
  let ?n = "nodes c i" and ?m = "int (majority cfg)"
  let ?t = "node_term ?n" and ?q = "vote_request ?n"
  let ?r = "\<lparr>rvr_term = ?t, voteGranted = True\<rparr>" and ?req = "Req i (epoch c i) (SendRequestVote j ?q ?t ?m)"
  have s: "role ?n = Candidate" "votes ?n ?t = Some v" "?req \<in> net c" using st by (simp_all add: standing_def)
  obtain n' where g: "handleRequestVote ?q (nodes c j) = (?r, n')" "node_term n' = ?t"
    by (rule vote_granted[of "nodes c j" ?q]) (use j in \<open>auto simp: vote_request_def up_to_date_def\<close>)
  define c1 where "c1 = put_msg (VoteReply i (epoch c i) j ?t ?m ?r) (install j n' (lose ?req c))"
  have c1: "nodes c1 = (nodes c)(j := n'\<lparr>outbox := []\<rparr>)" "epoch c1 = epoch c" by (auto simp: c1_def)
  define c2 where "c2 = install i (snd (onVoteResp ?t ?m True ?r ?n)) (lose (VoteReply i (epoch c i) j ?t ?m ?r) c1)"
  have "cstep cfg c c1" unfolding c1_def using s(3) g(1) by (rule cstep.recv_vote)
  moreover have "cstep cfg c1 c2"
    using cstep.vote_reply[of i c1 j ?t ?m ?r cfg] c1 st(3) by (simp add: c2_def c1_def)
  ultimately have "(cstep cfg)\<^sup>*\<^sup>* c c2" by (meson converse_rtranclp_into_rtranclp r_into_rtranclp)
  moreover have "standing cfg c2 i (v + 1) (js - {j})" if "v + 1 < ?m"
  proof -
    have "nodes c2 i = ?n\<lparr>votes := (votes ?n)(?t \<mapsto> v + 1), outbox := []\<rparr>"
      using vote_counted[OF s(1,2), of ?m] that by (simp add: c2_def Let_def)
    moreover have "Req i (epoch c i) (SendRequestVote k ?q ?t ?m) \<in> net c2" if "k \<in> js - {j}" for k
      using st(1) that by (auto simp: c2_def c1_def in_install_net standing_def)
    ultimately show ?thesis using s(1) c1(2) by (simp add: standing_def vote_request_def c2_def)
  qed
  moreover have "nodes c2 i = (snd (onVoteResp ?t ?m True ?r ?n))\<lparr>outbox := []\<rparr>" "\<And>k. k \<noteq> i \<Longrightarrow> nodes c2 k = nodes c1 k"
    by (simp_all add: c2_def)
  ultimately show ?thesis
    using g(2) c1(1) st(3) by (intro exI[of _ c2]) (simp add: vote_counted[OF s(1,2)])
qed

lemma tally:
  assumes "standing cfg c i v (set js)" "distinct js" "i \<notin> set js" "v < int (majority cfg)" "int (majority cfg) \<le> v + int (length js)"
    and "\<forall>j\<in>set js. node_term (nodes c j) < node_term (nodes c i) \<and> up_to_date (nlog (nodes c i)) (nlog (nodes c j))"
  shows "\<exists>c'. (cstep cfg)\<^sup>*\<^sup>* c c' \<and> role (nodes c' i) = Leader \<and> node_term (nodes c' i) = node_term (nodes c i) \<and>
    (\<forall>k. nodes c' k = nodes c k \<or> node_term (nodes c' k) = node_term (nodes c i))"
  using assms
proof (induction js arbitrary: c v)
  case (Cons j js)
  let ?n = "nodes c i"
  let ?n' = "?n\<lparr>votes := (votes ?n)(node_term ?n \<mapsto> v + 1)\<rparr>"
  have r: "role ?n' = Candidate" using Cons.prems(1) by (simp add: standing_def)
  have j: "j \<noteq> i" "node_term (nodes c j) < node_term ?n" "up_to_date (nlog ?n) (nlog (nodes c j))"
    using Cons.prems(3,6) by auto
  obtain d where d: "(cstep cfg)\<^sup>*\<^sup>* c d" "node_term (nodes d j) = node_term ?n"
      "\<forall>k. k \<noteq> i \<longrightarrow> k \<noteq> j \<longrightarrow> nodes d k = nodes c k"
      "nodes d i = (let n' = ?n' in if int (majority cfg) \<le> v + 1 then snd (becomeLeader n') else n')\<lparr>outbox := []\<rparr>"
      "v + 1 < int (majority cfg) \<longrightarrow> standing cfg d i (v + 1) (set (j # js) - {j})"
    using ballot[OF Cons.prems(1) list.set_intros(1) j] by blast
  show ?case
  proof (cases "int (majority cfg) \<le> v + 1")
    case True
    then have i: "role (nodes d i) = Leader" "node_term (nodes d i) = node_term ?n"
      using d(4) becomeLeader_role[OF r] becomeLeader_term[OF r] by (simp_all add: Let_def)
    have "nodes d k = nodes c k \<or> node_term (nodes d k) = node_term ?n" for k
      using d(2,3) i(2) by metis
    then show ?thesis using d(1) i by (intro exI[of _ d] conjI allI)
  next
    case False
    have i: "nodes d i = ?n'\<lparr>outbox := []\<rparr>" using d(4) False by (simp add: Let_def)
    have st: "standing cfg d i (v + 1) (set js)" using d(5) False Cons.prems(2) by simp
    have less: "\<forall>k\<in>set js. node_term (nodes d k) < node_term (nodes d i) \<and> up_to_date (nlog (nodes d i)) (nlog (nodes d k))"
    proof
      fix k assume "k \<in> set js"
      then have "k \<noteq> i" "k \<noteq> j" "k \<in> set (j # js)" using Cons.prems(2,3) by auto
      then show "node_term (nodes d k) < node_term (nodes d i) \<and> up_to_date (nlog (nodes d i)) (nlog (nodes d k))"
        using Cons.prems(6) spec[OF d(3), of k] i by simp
    qed
    have js: "distinct js" "i \<notin> set js" "v + 1 < int (majority cfg)" "int (majority cfg) \<le> (v + 1) + int (length js)"
      using Cons.prems(2,3,5) False by simp_all
    from Cons.IH[OF st js less]
    obtain c' where c': "(cstep cfg)\<^sup>*\<^sup>* d c'" "role (nodes c' i) = Leader" "node_term (nodes c' i) = node_term (nodes d i)"
        "\<forall>k. nodes c' k = nodes d k \<or> node_term (nodes c' k) = node_term (nodes d i)"
      by (elim exE conjE)
    have t: "node_term (nodes d i) = node_term ?n" by (simp add: i)
    have "nodes c' k = nodes c k \<or> node_term (nodes c' k) = node_term ?n" for k
      using c'(4) d(2,3) t by metis
    then show ?thesis using rtranclp_trans[OF d(1) c'(1)] c'(2,3) t by (intro exI[of _ c'] conjI allI) simp_all
  qed
qed simp


section \<open>A leader can be elected\<close>

lemma elect_alone_voter:
  assumes inv: "cinv cfg c" and i: "voters cfg = [i]" "node_term (nodes c i) \<noteq> - 1"
  shows "\<exists>c'. (cstep cfg)\<^sup>*\<^sup>* c c' \<and> role (nodes c' i) = Leader"
proof (cases "role (nodes c i) = Leader")
  case False
  let ?n = "later (nodes c i)"
  have "config ?n = cfg" "node_id ?n = i" using nodes_okD(1,2)[OF inv, of i] by (simp_all add: good_def)
  then have "role (snd (runLoop_round 0 ?n)) = Leader" using False i(1) by (intro alone_round) (simp_all add: majority_def)
  then show ?thesis
    using r_into_rtranclp[of "cstep cfg", OF tick_later[OF i(2)]]
    by (intro exI[of _ "install i (snd (runLoop_round 0 ?n)) c"]) simp
qed auto

text \<open>A voter that is no leader and has one of the most up-to-date logs wins.\<close>

lemma elect_best:
  assumes inv: "cinv cfg c" "config_wf cfg" "1 < majority cfg"
    and i: "i \<in> set (voters cfg)" "role (nodes c i) \<noteq> Leader" "settled (nodes c i)"
    and best: "\<forall>j\<in>set (voters cfg). up_to_date (nlog (nodes c i)) (nlog (nodes c j))"
    and t: "t \<noteq> - 1" "\<forall>j\<in>set (voters cfg). node_term (nodes c j) \<le> t"
  shows "\<exists>c'. (cstep cfg)\<^sup>*\<^sup>* c c' \<and> role (nodes c' i) = Leader \<and> (\<forall>j\<in>set (voters cfg). node_term (nodes c' j) \<le> node_term (nodes c' i))"
proof -
  let ?js = "remove1 i (voters cfg)"
  obtain d where d: "(cstep cfg)\<^sup>*\<^sup>* c d" "standing cfg d i 1 (set (voters cfg) - {i})" "\<forall>k. k \<noteq> i \<longrightarrow> nodes d k = nodes c k"
      "t < node_term (nodes d i)" "\<forall>L. up_to_date (nlog (nodes d i)) L = up_to_date (nlog (nodes c i)) L"
    using campaign_beyond[OF inv(1,2) i(1) inv(3) i(2,3) t(1) bspec[OF t(2) i(1)]] by blast
  have dist: "distinct (voters cfg)" using inv(2) by (simp add: config_wf_def)
  have js: "set ?js = set (voters cfg) - {i}" "distinct ?js" "i \<notin> set ?js" "length ?js = length (voters cfg) - 1"
    using dist i(1) by (simp_all add: length_remove1)
  have m: "1 < int (majority cfg)" "int (majority cfg) \<le> 1 + int (length ?js)"
    using inv(3) unfolding js(4) by (auto simp: majority_def)
  have st: "standing cfg d i 1 (set ?js)" using d(2) unfolding js(1) .
  have "\<forall>j\<in>set ?js. node_term (nodes d j) < node_term (nodes d i) \<and> up_to_date (nlog (nodes d i)) (nlog (nodes d j))"
  proof
    fix j assume "j \<in> set ?js"
    then have j: "j \<noteq> i" "j \<in> set (voters cfg)" using js(1) by auto
    then show "node_term (nodes d j) < node_term (nodes d i) \<and> up_to_date (nlog (nodes d i)) (nlog (nodes d j))"
      using order.strict_trans1[OF bspec[OF t(2) j(2)] d(4)] d(3,5) best by simp
  qed
  then obtain c' where c': "(cstep cfg)\<^sup>*\<^sup>* d c'" "role (nodes c' i) = Leader" "node_term (nodes c' i) = node_term (nodes d i)"
      "\<forall>k. nodes c' k = nodes d k \<or> node_term (nodes c' k) = node_term (nodes d i)"
    using tally[OF st js(2,3) m] by blast
  have "node_term (nodes c' j) \<le> node_term (nodes c' i)" if "j \<in> set (voters cfg)" for j
  proof (cases "j = i \<or> nodes c' j \<noteq> nodes d j")
    case True
    then show ?thesis using spec[OF c'(4), of j] c'(3) by auto
  next
    case False
    then show ?thesis using spec[OF d(3), of j] d(4) bspec[OF t(2) that] c'(3) by simp
  qed
  then show ?thesis using rtranclp_trans[OF d(1) c'(1)] c'(2) by blast
qed

text \<open>If that voter is a leader it has the newest term, or it is deposed first.\<close>

lemma elect_settled:
  assumes inv: "cinv cfg c" "config_wf cfg" "1 < majority cfg"
    and i: "i \<in> set (voters cfg)" "settled (nodes c i)"
    and best: "\<forall>j\<in>set (voters cfg). up_to_date (nlog (nodes c i)) (nlog (nodes c j))"
    and t: "t \<noteq> - 1" "\<forall>j\<in>set (voters cfg). node_term (nodes c j) \<le> t"
  shows "\<exists>c'. (cstep cfg)\<^sup>*\<^sup>* c c' \<and> role (nodes c' i) = Leader \<and> (\<forall>j\<in>set (voters cfg). node_term (nodes c' j) \<le> node_term (nodes c' i))"
proof (cases "role (nodes c i) = Leader")
  case False
  then show ?thesis using elect_best[OF inv i(1) _ i(2) best t] by blast
next
  case lead: True
  show ?thesis
  proof (cases "\<forall>j\<in>set (voters cfg). node_term (nodes c j) \<le> node_term (nodes c i)")
    case True
    then show ?thesis using lead by (intro exI[of _ c]) simp
  next
    case False
    then obtain j where j: "j \<in> set (voters cfg)" "node_term (nodes c i) < node_term (nodes c j)" "j \<noteq> i"
      by (auto simp: not_le)
    obtain d where d: "(cstep cfg)\<^sup>*\<^sup>* c d" "\<And>k. k \<noteq> i \<Longrightarrow> nodes d k = nodes c k" "role (nodes d i) = Follower"
        "nlog (nodes d i) = setHardState (node_term (nodes c j)) 0 (nlog (nodes c i))" "settled (nodes d i)"
      by (rule depose[OF inv(1) lead i(2) j(3,1,2)]) blast
    have k: "up_to_date (nlog (nodes d i)) (nlog (nodes d k)) \<and> node_term (nodes d k) \<le> t" if "k \<in> set (voters cfg)" for k
      using bspec[OF best that] bspec[OF t(2) that] bspec[OF t(2) j(1)] d(2)[of k] d(4) by (cases "k = i") simp_all
    have f: "role (nodes d i) \<noteq> Leader" "\<forall>k\<in>set (voters cfg). up_to_date (nlog (nodes d i)) (nlog (nodes d k))"
        "\<forall>k\<in>set (voters cfg). node_term (nodes d k) \<le> t"
      using d(3) k by simp_all
    from elect_best[OF steps_cinv[OF d(1) inv(1,2)] inv(2,3) i(1) f(1) d(5) f(2) t(1) f(3)]
    obtain c' where c': "(cstep cfg)\<^sup>*\<^sup>* d c'" "role (nodes c' i) = Leader"
        "\<forall>j\<in>set (voters cfg). node_term (nodes c' j) \<le> node_term (nodes c' i)"
      by (elim exE conjE)
    then show ?thesis using rtranclp_trans[OF d(1) c'(1)] by blast
  qed
qed



section \<open>A follower that is never brought up to date\<close>

text \<open>One AppendEntries exchange of a leader and a follower: request, handler and callback.\<close>

definition exchange :: "NodeId \<Rightarrow> RaftNode \<times> RaftNode \<Rightarrow> RaftNode \<times> RaftNode" where
  "exchange p lf = (case handleAppendEntries (append_request p (fst lf)) (snd lf) of
     (Inr resp, f) \<Rightarrow> (snd (onAppendResp p (node_term (fst lf)) True resp (fst lf)), f)
   | (Inl e, f) \<Rightarrow> (fst lf, f))"

lemma exchange_conflict:
  assumes l: "role l = Leader" "node_term f \<le> node_term l" "i = nextOf p l - 1" "0 < i"
    and t: "termAt i (nlog f) = t" "t \<noteq> 0" "t \<noteq> termAt i (nlog l)"
  obtains l' f' where "exchange p (l, f) = (l', f')" "role l' = Leader" "nlog l' = nlog l" "nextOf p l' = t"
    "node_term f' = node_term l" "entries (nlog f') = entries (nlog f)" "\<And>k. termAt k (nlog f') = termAt k (nlog f)"
proof -
  let ?q = "append_request p l"
  let ?g = "becomeFollower (node_term l) (node_id l) f"
  define r where "r = \<lparr>aer_term = node_term l, success = False, aer_matchIndex = conflictLoop (nlog ?g) t i, conflictIndex = t, conflictTerm = 0\<rparr>"
  define f' where "f' = (resetElectionDeadline ?g)\<lparr>leaderId := node_id l\<rparr>"
  have q: "ae_term ?q = node_term l" "ae_leaderId ?q = node_id l" "prevLogIndex ?q = i" "prevLogTerm ?q = termAt i (nlog l)"
    using l(3) by (simp_all add: append_request_def)
  have nt: "\<not> node_term l < node_term f" using l(2) by simp
  have g: "node_term ?g = node_term l" "termAt k (nlog ?g) = termAt k (nlog f)" "entries (nlog ?g) = entries (nlog f)" for k
    using nt unfolding log_reads_becomeFollower by simp_all
  have "handleAppendEntries_log ?q ?g = (Inl r, f')"
    using q g t l(4) by (simp add: handleAppendEntries_log_def Let_def r_def f'_def del: becomeFollower_fields(13))
  then have h: "handleAppendEntries ?q f = (Inr r, f')" using q(1,2) nt by (simp add: handleAppendEntries_def)
  define l' where "l' = l\<lparr>nextIndex := AList.update p (max 1 t) (nextIndex l)\<rparr>"
  have "snd (onAppendResp p (node_term l) True r l) = l'"
    using l(1) t(2) by (simp add: onAppendResp_def r_def l'_def Let_def word_neq_0_conv)
  then have "exchange p (l, f) = (l', f')" using h by (simp add: exchange_def)
  moreover have "max 1 t = t" using t(2) by (simp add: max_def word_less_1 not_le)
  ultimately show thesis
    using that[of l' f'] l(1) g by (simp add: l'_def f'_def nextOf_def update_conv' del: becomeFollower_fields(13))
qed

text \<open>
  C36. A follower can be left behind for good. Its reply to a conflict names the term of its own entry where the leader
  reads an index. If that number is the leader's next index for it, every exchange, however often it is repeated and
  with nothing lost, ends where it began: the leader asks at the same index again, and the follower keeps its conflicting log.
  It takes a node that led term 3 from an empty log and was cut off after two entries, and a leader of term 4 whose first two
  entries are of term 1: the witness is these two nodes.
\<close>

theorem catch_up_stuck:
  assumes "role l = Leader" "node_term f \<le> node_term l" "1 < nextOf p l"
    and "termAt (nextOf p l - 1) (nlog f) = nextOf p l" "termAt (nextOf p l - 1) (nlog l) \<noteq> nextOf p l"
  shows "let (l', f') = (exchange p ^^ k) (l, f) in role l' = Leader \<and> nlog l' = nlog l \<and> nextOf p l' = nextOf p l \<and>
    entries (nlog f') = entries (nlog f) \<and> termAt (nextOf p l - 1) (nlog f') \<noteq> termAt (nextOf p l - 1) (nlog l')"
proof -
  let ?t = "nextOf p l"
  have i: "0 < ?t - 1" "?t \<noteq> 0" using assms(3) by (auto simp: word_greater_zero_iff)
  have "role (fst s) = Leader \<and> nlog (fst s) = nlog l \<and> nextOf p (fst s) = ?t \<and> entries (nlog (snd s)) = entries (nlog f) \<and>
      node_term (snd s) \<le> node_term l \<and> termAt (?t - 1) (nlog (snd s)) = ?t"
    if "s = (exchange p ^^ k) (l, f)" for s
    using that
  proof (induction k arbitrary: s)
    case (Suc k)
    obtain m g where mg: "(exchange p ^^ k) (l, f) = (m, g)" by fastforce
    then have I: "role m = Leader" "nlog m = nlog l" "nextOf p m = ?t" "entries (nlog g) = entries (nlog f)"
        "node_term g \<le> node_term m" "termAt (?t - 1) (nlog g) = ?t"
      using Suc.IH[of "(m, g)"] by simp_all
    obtain m' g' where E: "exchange p (m, g) = (m', g')" "role m' = Leader" "nlog m' = nlog m" "nextOf p m' = ?t"
        "node_term g' = node_term m" "entries (nlog g') = entries (nlog g)" "\<And>k. termAt k (nlog g') = termAt k (nlog g)"
      by (rule exchange_conflict[of m g "?t - 1" p ?t]) (use I i assms(5) in simp_all)
    have "s = (m', g')" using Suc.prems mg E(1) by simp
    then show ?case using E(2-) I by simp
  qed (use assms in simp)
  from this[OF refl] show ?thesis using assms(5) by (simp add: split_beta)
qed

definition demo_behind :: RaftNode where
  "demo_behind = (demo_node 3)\<lparr>nlog := setHardState 3 3 (appendAndSync [mkEntry 3 1, mkEntry 3 2] (loadFromDisk Map.empty))\<rparr>"

definition demo_ahead :: RaftNode where
  "demo_ahead = (demo_node 1)\<lparr>role := Leader, nlog := setHardState 4 1
     (appendAndSync [mkEntry 1 1, mkEntry 1 2, mkEntry 4 3] (loadFromDisk Map.empty)), nextIndex := [(1, 3), (2, 3), (3, 3)]\<rparr>"

lemma demo_behind_fields:
  "entries (nlog demo_behind) = [mkEntry 3 1, mkEntry 3 2]" "snapshotIndex (nlog demo_behind) = 0" "node_term demo_behind = 3"
  "entries (nlog demo_ahead) = [mkEntry 1 1, mkEntry 1 2, mkEntry 4 3]" "snapshotIndex (nlog demo_ahead) = 0" "node_term demo_ahead = 4"
  "role demo_ahead = Leader" "nextOf 3 demo_ahead = 3"
  by (simp_all add: demo_behind_def demo_ahead_def empty_log appendAndSync_def rewriteWalLocked_def mkEntry_def nextOf_def Let_def)

theorem catch_up_stuck_witness:
  "let (l', f') = (exchange 3 ^^ 1000) (demo_ahead, demo_behind) in nextOf 3 l' = 3 \<and> entries (nlog f') = [mkEntry 3 1, mkEntry 3 2]"
proof -
  have "termAt 2 (nlog demo_behind) = 3" "termAt 2 (nlog demo_ahead) = 1"
    by (simp_all add: termAt_def demo_behind_fields mkEntry_def)
  then show ?thesis
    using catch_up_stuck[of demo_ahead demo_behind 3 1000] by (simp add: demo_behind_fields split_beta)
qed

end
