(* ===== verification/Raft_Write.thy ===== *)
theory Raft_Write
  imports Raft_Progress
begin

text \<open>
  A write in a group of several nodes, from the proposal to the answer: the leader of a group in which everything is
  applied proposes a command, the next heartbeat carries it to the followers that are in step, and with the reply that
  completes a majority it is committed, applied and there for the caller that waits.
\<close>

section \<open>The group before the write\<close>

text \<open>A leader that has committed and applied its whole log.\<close>

definition steady :: "RaftNode \<Rightarrow> bool" where
  "steady l \<longleftrightarrow> role l = Leader \<and> progress_ok l \<and> log_wf (nlog l) \<and> unat (lastIndex (nlog l)) + 1 < 2 ^ 64 \<and>
     commitIndex l = lastIndex (nlog l) \<and> lastApplied l = lastIndex (nlog l) \<and>
     (\<forall>e\<in>set (entries (nlog l)). etype e \<noteq> Config) \<and> (\<forall>m\<in>snd ` set (matchIndex l). m \<le> lastIndex (nlog l))"

text \<open>A follower that holds the leader's last entry and is to be sent the next one.\<close>

definition in_step :: "RaftNode \<Rightarrow> NodeId \<Rightarrow> RaftNode \<Rightarrow> bool" where
  "in_step l p f \<longleftrightarrow> nextOf p l = lastIndex (nlog l) + 1 \<and> node_term f \<le> node_term l \<and> log_wf (nlog f) \<and>
     snapshotIndex (nlog f) \<le> lastIndex (nlog l) \<and> lastIndex (nlog l) \<le> lastIndex (nlog f) \<and>
     (lastIndex (nlog l) = 0 \<or> termAt (lastIndex (nlog l)) (nlog l) \<noteq> 0 \<and>
        termAt (lastIndex (nlog l)) (nlog f) = termAt (lastIndex (nlog l)) (nlog l))"

definition newEntry :: "bytes \<Rightarrow> RaftNode \<Rightarrow> LogEntry" where
  "newEntry b l = \<lparr>eterm = node_term l, eindex = lastIndex (nlog l) + 1, etype = Command, edata = b\<rparr>"

section \<open>The leader while it waits\<close>

text \<open>
  The leader after its proposal: its log ends with the new entry, and the voters in \<open>D\<close> have acknowledged it.
  Either nothing is committed yet, or the entry is committed and applied.
\<close>

definition waiting :: "bytes \<Rightarrow> RaftNode \<Rightarrow> NodeId set \<Rightarrow> RaftNode \<Rightarrow> bool" where
  "waiting b l D n \<longleftrightarrow> opts n = opts l \<and> config n = config l \<and> role n = Leader \<and> progress_ok n \<and>
     nlog n = appendAndSync [newEntry b l] (nlog l) \<and> (\<forall>m\<in>snd ` set (matchIndex n). m \<le> lastIndex (nlog l) + 1) \<and>
     (\<forall>p\<in>D. map_of (matchIndex n) p = Some (lastIndex (nlog l) + 1))"

definition uncommitted :: "RaftNode \<Rightarrow> RaftNode \<Rightarrow> bool" where
  "uncommitted l n \<longleftrightarrow> commitIndex n = lastIndex (nlog l) \<and> lastApplied n = lastIndex (nlog l) \<and> sm n = sm l"

definition answered :: "bytes \<Rightarrow> KvStore \<Rightarrow> RaftNode \<Rightarrow> RaftNode \<Rightarrow> bool" where
  "answered out s l n \<longleftrightarrow> commitIndex n = lastIndex (nlog l) + 1 \<and> lastApplied n = lastIndex (nlog l) + 1 \<and> sm n = s \<and>
     pendingResults n (lastIndex (nlog l) + 1) = Some out"

lemma waiting_progress: "waiting b l D n \<Longrightarrow> same_progress n n' \<Longrightarrow> waiting b l D n'"
  by (simp add: waiting_def same_progressD)

lemma waiting_log:
  assumes "steady l" "waiting b l D n"
  shows "log_wf (nlog n)" "lastIndex (nlog n) = lastIndex (nlog l) + 1" "entries (nlog n) = entries (nlog l) @ [newEntry b l]"
    "termAt (lastIndex (nlog n)) (nlog n) = node_term n" "unat (lastIndex (nlog l) + 1) = unat (lastIndex (nlog l)) + 1"
    "snapshotIndex (nlog n) = snapshotIndex (nlog l)"
proof -
  have "log_wf (nlog l)" "unat (lastIndex (nlog l)) + 1 < 2 ^ 64" using assms(1) by (simp_all add: steady_def)
  note A = append_one[OF this, of "newEntry b l"]
  show "log_wf (nlog n)" "lastIndex (nlog n) = lastIndex (nlog l) + 1" "entries (nlog n) = entries (nlog l) @ [newEntry b l]"
    "termAt (lastIndex (nlog n)) (nlog n) = node_term n" "unat (lastIndex (nlog l) + 1) = unat (lastIndex (nlog l)) + 1"
    "snapshotIndex (nlog n) = snapshotIndex (nlog l)"
    using A assms by (simp_all add: waiting_def newEntry_def unat_plus_1 steady_def)
qed

text \<open>No index beyond the new entry is replicated.\<close>

lemma replicated_bound:
  assumes "waiting b l D n" "steady l" "v \<in> replicated n c"
  shows "c \<le> lastIndex (nlog l) + 1"
proof -
  have "m \<le> lastIndex (nlog l) + 1" if "map_of (matchIndex n) v = Some m" for m
    using map_of_SomeD[OF that] assms(1) by (force simp: waiting_def)
  then show ?thesis using assms(3) waiting_log(2)[OF assms(2,1)] by (auto simp: replicated_def intro: order.trans)
qed

lemma quorum_nonempty: "quorum cfg S \<Longrightarrow> S \<noteq> {}"
  by (auto simp: quorum_def majority_def)

text \<open>Counting again commits the entry exactly when a majority has it.\<close>

lemma advance_waiting:
  assumes w: "waiting b l D n" "steady l" and s: "uncommitted l n \<or> answered out s l n"
    and ap: "KvStore_apply b (lastIndex (nlog l) + 1) (sm l) = Inr (out, s)"
  obtains n' where "tryAdvanceCommitIndex n = (Inr (), n')" "same_progress n n'"
    "answered out s l n' \<or> uncommitted l n' \<and> \<not> quorum (config l) (replicated n (lastIndex (nlog l) + 1))"
proof -
  let ?i = "lastIndex (nlog l) + 1"
  note L = waiting_log[OF w(2,1)]
  have n: "role n = Leader" "progress_ok n" "config n = config l" using w(1) by (simp_all add: waiting_def)
  obtain c where c: "quorum (config n) (replicated n c)" "\<And>d. quorum (config n) (replicated n d) \<Longrightarrow> d \<le> c"
      "tryAdvanceCommitIndex n = (if commitIndex n < c \<and> termAt c (nlog n) = node_term n
        then applyCommittedEntries (n\<lparr>commitIndex := c\<rparr>) else (Inr (), n))"
    by (rule tryAdvanceCommitIndex_quorum[OF n(1,2)]) blast
  have ci: "c \<le> ?i" using quorum_nonempty[OF c(1)] replicated_bound[OF w] by blast
  show thesis
  proof (cases "uncommitted l n \<and> c = ?i")
    case True
    let ?m = "n\<lparr>commitIndex := ?i\<rparr>"
    have "commitIndex n < ?i" using True L(5) by (simp add: uncommitted_def word_less_nat_alt)
    then have adv: "tryAdvanceCommitIndex n = applyCommittedEntries ?m" using c(3) True L(2,4) by simp
    have ty: "\<forall>e\<in>set (entries (nlog l) @ [newEntry b l]). etype e \<noteq> Config" using w(2) by (auto simp: steady_def newEntry_def)
    obtain n' where n': "applyCommittedEntries ?m = (Inr (), n')" "same_progress ?m n'" "commitIndex n' = lastIndex (nlog ?m)"
        "lastApplied n' = lastIndex (nlog ?m)" "sm n' = s" "pendingResults n' = (pendingResults ?m)(lastIndex (nlog ?m) \<mapsto> out)"
      by (rule apply_last[of ?m "entries (nlog l)" "newEntry b l" out s])
        (use L ty True ap in \<open>simp_all add: uncommitted_def newEntry_def\<close>)
    then show thesis
      using adv L(2) by (intro that[of n']) (simp_all add: same_progress_def answered_def)
  next
    case False
    have "\<not> commitIndex n < c"
    proof
      assume a: "commitIndex n < c"
      then have "uncommitted l n" using s ci by (auto simp: answered_def)
      then have "unat (lastIndex (nlog l)) < unat c" using a by (simp add: uncommitted_def word_less_nat_alt)
      then have "c = ?i" using ci L(5) by (simp add: word_le_nat_alt word_unat_eq_iff)
      then show False using False \<open>uncommitted l n\<close> by simp
    qed
    moreover have "\<not> quorum (config l) (replicated n ?i)" if "uncommitted l n"
      using c(2)[of ?i] ci False that n(3) by auto
    ultimately show thesis using that[of n] c(3) s by auto
  qed
qed

section \<open>The proposal and the replies\<close>

lemma appendAndSync_term [simp]: "currentTerm (appendAndSync es L) = currentTerm L"
  by (simp add: appendAndSync_def rewriteWalLocked_def Let_def)

lemma propose_waiting:
  assumes l: "steady l" and ap: "KvStore_apply b (lastIndex (nlog l) + 1) (sm l) = Inr (out, s)"
  obtains l1 where "propose b Command l = (Inr \<lparr>pr_isLeader = True, pr_leaderHint = node_id l,
      pr_index = lastIndex (nlog l) + 1, pr_term = node_term l\<rparr>, l1)"
    "waiting b l {} l1" "\<And>p. nextOf p l1 = nextOf p l"
    "answered out s l l1 \<or> uncommitted l l1 \<and> \<not> quorum (config l) (replicated l1 (lastIndex (nlog l) + 1))"
proof -
  let ?n = "l\<lparr>nlog := appendAndSync [newEntry b l] (nlog l)\<rparr>"
  have le: "lastIndex (nlog l) \<le> lastIndex (nlog l) + 1"
    using l by (simp add: steady_def word_le_nat_alt unat_plus_1)
  have w: "waiting b l {} ?n" using l order.trans[OF _ le] by (auto simp: waiting_def steady_def progress_ok_def)
  moreover have u: "uncommitted l ?n" using l by (simp add: uncommitted_def steady_def)
  ultimately obtain n' where n': "tryAdvanceCommitIndex ?n = (Inr (), n')" "same_progress ?n n'"
      "answered out s l n' \<or> uncommitted l n' \<and> \<not> quorum (config l) (replicated ?n (lastIndex (nlog l) + 1))"
    using advance_waiting[OF w l _ ap] by blast
  note P = same_progressD[OF n'(2)]
  show thesis
  proof (rule that[of n'])
    show "propose b Command l = (Inr \<lparr>pr_isLeader = True, pr_leaderHint = node_id l,
      pr_index = lastIndex (nlog l) + 1, pr_term = node_term l\<rparr>, n')"
      using l n'(1) P(4) by (simp add: propose_def steady_def Let_def abind_def newEntry_def)
    show "waiting b l {} n'" by (rule waiting_progress[OF w n'(2)])
    show "nextOf p n' = nextOf p l" for p using n'(2) by (simp add: same_progress_def nextOf_def)
  qed (use n'(3) P(7) in simp)
qed

lemma alist_update_values: "snd ` set (AList.update k v xs) \<subseteq> insert v (snd ` set xs)"
  by (induction xs) auto

lemma reply_waiting:
  assumes w: "waiting b l D n" "steady l" and s: "uncommitted l n \<or> answered out s l n"
    and ap: "KvStore_apply b (lastIndex (nlog l) + 1) (sm l) = Inr (out, s)"
    and p: "p \<in> set (voters (config l))"
    and r: "success r" "aer_term r = node_term l" "aer_matchIndex r = lastIndex (nlog l) + 1"
  defines "n' \<equiv> snd (onAppendResp p (node_term l) True r n)"
  shows "waiting b l (insert p D) n'"
    "answered out s l n' \<or> uncommitted l n' \<and> \<not> quorum (config l) (replicated n' (lastIndex (nlog l) + 1))"
proof -
  let ?i = "lastIndex (nlog l) + 1"
  let ?m = "n\<lparr>matchIndex := AList.update p ?i (matchIndex n), nextIndex := AList.update p (?i + 1) (nextIndex n)\<rparr>"
  have t: "node_term n = node_term l" "role n = Leader" using w(1) by (simp_all add: waiting_def)
  have "\<forall>m\<in>snd ` set (AList.update p ?i (matchIndex n)). m \<le> ?i"
  proof
    fix m assume "m \<in> snd ` set (AList.update p ?i (matchIndex n))"
    then have "m \<in> insert ?i (snd ` set (matchIndex n))" using alist_update_values by (rule rev_subsetD)
    then show "m \<le> ?i" using w(1) by (auto simp: waiting_def)
  qed
  then have m: "waiting b l (insert p D) ?m"
    using w(1) p progress_ok_update[of n p] by (simp add: waiting_def update_conv')
  have st: "uncommitted l ?m \<or> answered out s l ?m" using s by (simp add: uncommitted_def answered_def)
  obtain k where k: "tryAdvanceCommitIndex ?m = (Inr (), k)" "same_progress ?m k"
    "answered out s l k \<or> uncommitted l k \<and> \<not> quorum (config l) (replicated ?m ?i)"
    by (rule advance_waiting[OF m w(2) st ap]) blast
  have "n' = k" using r t k(1) by (simp add: n'_def onAppendResp_def)
  then show "waiting b l (insert p D) n'" "answered out s l n' \<or> uncommitted l n' \<and> \<not> quorum (config l) (replicated n' ?i)"
    using waiting_progress[OF m k(2)] k(3) same_progressD(7)[OF k(2)] by simp_all
qed

lemma replies_waiting:
  assumes "waiting b l D n" "steady l" "answered out s l n \<or> uncommitted l n \<and> \<not> quorum (config l) (replicated n (lastIndex (nlog l) + 1))"
    and "KvStore_apply b (lastIndex (nlog l) + 1) (sm l) = Inr (out, s)" "set ps \<subseteq> set (voters (config l))"
    and "\<forall>p\<in>set ps. success (r p) \<and> aer_term (r p) = node_term l \<and> aer_matchIndex (r p) = lastIndex (nlog l) + 1"
  shows "let n' = fold (\<lambda>p n. snd (onAppendResp p (node_term l) True (r p) n)) ps n in waiting b l (D \<union> set ps) n' \<and>
    (answered out s l n' \<or> uncommitted l n' \<and> \<not> quorum (config l) (replicated n' (lastIndex (nlog l) + 1)))"
  using assms
proof (induction ps arbitrary: D n)
  case (Cons p ps)
  let ?n = "snd (onAppendResp p (node_term l) True (r p) n)"
  have "waiting b l (insert p D) ?n"
    "answered out s l ?n \<or> uncommitted l ?n \<and> \<not> quorum (config l) (replicated ?n (lastIndex (nlog l) + 1))"
    using reply_waiting[OF Cons.prems(1,2) _ Cons.prems(4), of p "r p"] Cons.prems(3,5,6) by auto
  from Cons.IH[OF this(1) Cons.prems(2) this(2) Cons.prems(4)] show ?case using Cons.prems(5,6) by simp
qed simp

section \<open>The followers\<close>

lemma newEntry_contiguous: "steady l \<Longrightarrow> contiguous (unat (lastIndex (nlog l)) + 1) [newEntry b l]"
  by (simp add: steady_def contiguous_def newEntry_def unat_plus_1)

text \<open>The request that carries the new entry.\<close>

lemma write_request:
  assumes "steady l" "waiting b l D l1" "nextOf p l1 = lastIndex (nlog l) + 1"
  shows "prevLogIndex (append_request p l1) = lastIndex (nlog l)" "ae_entries (append_request p l1) = [newEntry b l]"
    "prevLogTerm (append_request p l1) = termAt (lastIndex (nlog l)) (nlog l)" "ae_term (append_request p l1) = node_term l"
proof -
  let ?i = "lastIndex (nlog l)"
  have l: "log_wf (nlog l)" "nlog l1 = appendAndSync [newEntry b l] (nlog l)" using assms(1,2) by (simp_all add: steady_def waiting_def)
  have len: "unat ?i = unat (snapshotIndex (nlog l)) + length (entries (nlog l))" using unat_lastIndex[OF l(1)] .
  note W = waiting_log[OF assms(1,2)]
  have "entriesAfter ?i 200 (nlog l1) = [newEntry b l]"
    using W(3,6) len by (simp add: entriesAfter_eq word_less_nat_alt)
  moreover have "snapshotIndex (nlog l) \<le> ?i" using len by (simp add: word_le_nat_alt)
  then have "logNth (nlog l1) (unat ?i) = logNth (nlog l) (unat ?i)"
    using append_after(2)[OF l(1) newEntry_contiguous[OF assms(1)]] l(2) by simp
  ultimately show "prevLogIndex (append_request p l1) = ?i" "ae_entries (append_request p l1) = [newEntry b l]"
    "prevLogTerm (append_request p l1) = termAt ?i (nlog l)" "ae_term (append_request p l1) = node_term l"
    using assms(3) W(6) l(2) by (simp_all add: append_request_def termAt_logNth)
qed

lemma write_stored:
  assumes l: "steady l" "waiting b l D l1" "nextOf p l1 = nextOf p l" and f: "in_step l p f"
    and h: "handleAppendEntries (append_request p l1) f = (Inr resp, f')"
  shows "success resp \<and> aer_term resp = node_term l \<and> aer_matchIndex resp = lastIndex (nlog l) + 1"
    "logNth (nlog f') (unat (lastIndex (nlog l) + 1)) = Some (newEntry b l)"
proof -
  let ?q = "append_request p l1" and ?i = "lastIndex (nlog l)"
  note W = waiting_log[OF l(1,2)]
  have q: "prevLogIndex ?q = ?i" "ae_entries ?q = [newEntry b l]" "prevLogTerm ?q = termAt ?i (nlog l)" "ae_term ?q = node_term l"
    using write_request[OF l(1,2), of p] l(3) f by (simp_all add: in_step_def)
  have ok: "\<not> ae_term ?q < node_term f" "prev_ok ?q (nlog f)" using f q by (auto simp: in_step_def prev_ok_def)
  note A = handleAppendEntries_accept[OF ok]
  show "success resp \<and> aer_term resp = node_term l \<and> aer_matchIndex resp = ?i + 1"
    using A(3)[of resp] h q by (simp add: newEntry_def)
  define L where "L = nlog (becomeFollower (ae_term ?q) (ae_leaderId ?q) f)"
  have "nlog f' = appendAndSync [newEntry b l] L" using A(1) h q(2) by (simp add: L_def)
  moreover have "log_wf L" "snapshotIndex L \<le> ?i" "?i \<le> lastIndex L"
    using f unfolding L_def log_reads_becomeFollower by (simp_all add: in_step_def)
  ultimately show "logNth (nlog f') (unat (?i + 1)) = Some (newEntry b l)"
    using append_after(3)[OF _ newEntry_contiguous[OF l(1), of b], of L 0] W(5) by simp
qed

lemma write_next:
  assumes "steady l" "waiting b l D n"
  shows "\<not> lastIndex (nlog l) + 1 \<le> snapshotIndex (nlog n)"
  using waiting_log[OF assms] unat_lastIndex[of "nlog l"] assms(1) by (simp add: word_le_nat_alt steady_def)

lemma majority_replicated:
  assumes "waiting b l D n" "steady l" "quorum (config l) (insert (node_id l) D)"
  shows "quorum (config l) (replicated n (lastIndex (nlog l) + 1))"
proof -
  have n: "progress_ok n" "config n = config l" "opts n = opts l" using assms(1) by (simp_all add: waiting_def)
  have "insert (node_id l) D \<subseteq> replicated n (lastIndex (nlog l) + 1)"
    using assms(1) waiting_log(2)[OF assms(2,1)] n(3) by (auto simp: replicated_def waiting_def)
  moreover have "replicated n (lastIndex (nlog l) + 1) \<subseteq> set (voters (config l))" using replicated_voters[OF n(1)] n(2) by simp
  ultimately show ?thesis
    using assms(3) card_mono[OF finite_subset[OF _ finite_set]] unfolding quorum_def by (meson order.trans)
qed

section \<open>The write\<close>

text \<open>
  C4. A write in a group of several nodes. The leader has applied its whole log, and followers that together with
  it are a majority are in step. Then the proposal of a command returns the next index, the next heartbeat
  sends it to each of those followers, each stores it when its handler returns, and when their replies are in, in any
  order, the command is committed and applied, the store holds what the abstract store says, and the caller that waits for
  the index gets the answer of the abstract store.
\<close>

theorem write_commits:
  assumes "steady l" "KvCommand_decode b = Inr cmd" "propose b Command l = (Inr r, l1)"
    and "quorum (config l) (insert (node_id l) (set ps))" "node_id l \<notin> set ps"
    and "\<forall>p\<in>set ps. in_step l p (f p) \<and> handleAppendEntries (append_request p l1) (f p) = (Inr (resp p), f' p)"
  shows "let l2 = fold (\<lambda>p n. snd (onAppendResp p (node_term l) True (resp p) n)) ps l1 in
    pr_isLeader r \<and> pr_index r = lastIndex (nlog l) + 1 \<and>
    (\<forall>p\<in>set ps. SendAppendEntries p (append_request p l1) (node_term l) \<in> set (outbox (broadcastAppendEntries l1)) \<and>
      (\<exists>e. logNth (nlog (f' p)) (unat (pr_index r)) = Some e \<and> edata e = b \<and> eterm e = node_term l)) \<and>
    commitIndex l2 = pr_index r \<and>
    (\<exists>out. spec_apply cmd (kv_view (sm l)) = (out, kv_view (sm l2)) \<and> waitApplied (pr_index r) [] l2 = (True, out))"
proof -
  let ?i = "lastIndex (nlog l) + 1"
  obtain out s where ap: "KvStore_apply b ?i (sm l) = Inr (out, s)" "spec_apply cmd (kv_view (sm l)) = (out, kv_view s)"
    using apply_refines[OF assms(2)] by metis
  obtain m where m: "propose b Command l = (Inr \<lparr>pr_isLeader = True, pr_leaderHint = node_id l, pr_index = ?i, pr_term = node_term l\<rparr>, m)"
      "waiting b l {} m" "\<And>p. nextOf p m = nextOf p l"
      "answered out s l m \<or> uncommitted l m \<and> \<not> quorum (config l) (replicated m ?i)"
    by (rule propose_waiting[OF assms(1) ap(1)]) blast
  have r: "pr_isLeader r" "pr_index r = ?i" "m = l1" using m(1) assms(3) by auto
  have vs: "set ps \<subseteq> set (voters (config l))" using assms(4) by (simp add: quorum_def)
  have st: "success (resp p) \<and> aer_term (resp p) = node_term l \<and> aer_matchIndex (resp p) = ?i"
      "logNth (nlog (f' p)) (unat ?i) = Some (newEntry b l)" if "p \<in> set ps" for p
    using write_stored[OF assms(1) m(2) m(3), of p "f p" "resp p" "f' p"] assms(6) that r(3) by auto
  define l2 where "l2 = fold (\<lambda>p n. snd (onAppendResp p (node_term l) True (resp p) n)) ps l1"
  have w: "waiting b l (set ps) l2" "answered out s l l2 \<or> uncommitted l l2 \<and> \<not> quorum (config l) (replicated l2 ?i)"
    using replies_waiting[OF m(2) assms(1) m(4) ap(1) vs, of resp] st(1) r(3) by (auto simp: l2_def Let_def)
  then have a: "answered out s l l2" using majority_replicated[OF w(1) assms(1,4)] by blast
  have sent: "SendAppendEntries p (append_request p l1) (node_term l) \<in> set (outbox (broadcastAppendEntries l1))" if "p \<in> set ps" for p
    using broadcast_call[of l1 p] m(2,3) that assms(5,6) vs write_next[OF assms(1) m(2)] r(3)
    by (auto simp: waiting_def in_step_def)
  have "waitApplied ?i [] l2 = (True, out)" using a by (simp add: answered_def waitApplied_def)
  moreover have "\<exists>e. logNth (nlog (f' p)) (unat ?i) = Some e \<and> edata e = b \<and> eterm e = node_term l" if "p \<in> set ps" for p
    using st(2)[OF that] by (simp add: newEntry_def)
  ultimately show ?thesis
    using r(1) sent a ap(2) unfolding Let_def l2_def[symmetric] r(2) by (simp add: answered_def)
qed

text \<open>A leader of three nodes with empty logs, and a put that node 2 acknowledges.\<close>

definition demo_steady :: RaftNode where
  "demo_steady = (demo_node 1)\<lparr>role := Leader, nlog := setHardState 1 1 (loadFromDisk Map.empty),
     nextIndex := [(1, 1), (2, 1), (3, 1)], matchIndex := [(1, 0), (2, 0), (3, 0)]\<rparr>"

definition demo_bytes :: bytes where
  "demo_bytes = KvCommand_encode (sample_put [1] [2] 42 1)"

lemma demo_steady_ok:
  "steady demo_steady" "in_step demo_steady 2 (demo_node 2)" "lastIndex (nlog demo_steady) = 0" "sm demo_steady = KvStore_empty"
  "config demo_steady = demo_config" "node_id demo_steady = 1" "node_term demo_steady = 1"
  by (simp_all add: steady_def in_step_def demo_steady_def demo_node_def demo_config_def progress_ok_def empty_log log_wf_def
      lastIndex_def nextOf_def)

lemma demo_propose:
  "propose demo_bytes Command demo_steady = (Inr \<lparr>pr_isLeader = True, pr_leaderHint = 1, pr_index = 1, pr_term = 1\<rparr>,
     demo_steady\<lparr>nlog := appendAndSync [newEntry demo_bytes demo_steady] (nlog demo_steady)\<rparr>)"
  by (simp add: propose_def Let_def demo_steady_def demo_node_def empty_log lastIndex_def newEntry_def tryAdvanceCommitIndex_def
      demo_config_def matches_def appendAndSync_def rewriteWalLocked_def setHardState_def writeHardStateLocked_def)

theorem write_commits_witness:
  "\<exists>l1 resp f'. propose demo_bytes Command demo_steady = (Inr \<lparr>pr_isLeader = True, pr_leaderHint = 1, pr_index = 1, pr_term = 1\<rparr>, l1) \<and>
     handleAppendEntries (append_request 2 l1) (demo_node 2) = (Inr resp, f') \<and>
     (let l2 = snd (onAppendResp 2 1 True resp l1) in
       commitIndex l2 = 1 \<and> waitApplied 1 [] l2 = (True, str ''OK'') \<and> KvStore_get [1] (sm l2) = Some [2])"
proof -
  define l1 where "l1 = demo_steady\<lparr>nlog := appendAndSync [newEntry demo_bytes demo_steady] (nlog demo_steady)\<rparr>"
  have p: "propose demo_bytes Command demo_steady = (Inr \<lparr>pr_isLeader = True, pr_leaderHint = 1, pr_index = 1, pr_term = 1\<rparr>, l1)"
    by (simp only: demo_propose l1_def)
  have "leaderCommit (append_request 2 l1) \<le> commitIndex (demo_node 2)" "commitIndex (demo_node 2) \<le> lastApplied (demo_node 2)"
    by (simp_all add: append_request_def l1_def demo_steady_def demo_node_def)
  then obtain resp f' where h: "handleAppendEntries (append_request 2 l1) (demo_node 2) = (Inr resp, f')"
    using heartbeat_returns by blast
  have d: "KvCommand_decode demo_bytes = Inr (sample_put [1] [2] 42 1)"
    unfolding demo_bytes_def by (rule KvCommand_decode_encode) (simp add: sample_put_ok)
  define l2 where "l2 = snd (onAppendResp 2 1 True resp l1)"
  have "commitIndex l2 = 1 \<and> (\<exists>out. spec_apply (sample_put [1] [2] 42 1) (kv_view KvStore_empty) = (out, kv_view (sm l2)) \<and>
      waitApplied 1 [] l2 = (True, out))"
    using write_commits[OF demo_steady_ok(1) d p, of "[2]" "\<lambda>_. demo_node 2" "\<lambda>_. resp" "\<lambda>_. f'"] demo_steady_ok h
    by (simp add: l2_def quorum_def majority_def demo_config_def Let_def)
  then obtain out where o: "commitIndex l2 = 1" "waitApplied 1 [] l2 = (True, out)"
      "spec_apply (sample_put [1] [2] 42 1) (kv_view KvStore_empty) = (out, kv_view (sm l2))" by blast
  have "out = str ''OK''" "fst (kv_view (sm l2)) [1] = Some [2]"
    using o(3) by (auto simp: spec_apply_def already_applied_def kv_view_def KvStore_empty_def spec_exec_def sample_put_def
        dest!: fun_cong[of _ _ "[1]"])
  then show ?thesis using p h o(1,2) by (auto simp: l2_def Let_def KvStore_get_def kv_view_def)
qed

end
