(* ===== verification/Raft_Membership.thy ===== *)
theory Raft_Membership
  imports Raft_Replication
begin

text \<open>
  Changes of the configuration, \<open>addServer\<close> and \<open>removeServer\<close> of \<^verbatim>\<open>raft/raft_node.cpp\<close>. One change keeps the
  quorums of the old and the new configuration overlapping, which is what \<^verbatim>\<open>raft/raft_node.h\<close> (lines 70--72) relies on, and
  a leader that applies it tracks the new voters. But nothing keeps a second change from being proposed before the first
  is applied, and a removed voter stays in the leader's count.
\<close>

section \<open>Two quorum systems\<close>

text \<open>A change is safe when every quorum of the old configuration meets every one of the new.\<close>

locale reconfiguration = old: quorum_system is_old + new: quorum_system is_new
  for is_old :: "'a set \<Rightarrow> bool" and is_new :: "'a set \<Rightarrow> bool" +
  assumes cross: "is_old S \<Longrightarrow> is_new T \<Longrightarrow> S \<inter> T \<noteq> {}"
begin

text \<open>Then votes cast once per voter agree, under whichever of the two configurations they were counted.\<close>

lemma one_choice_across:
  assumes "is_old S \<or> is_new S" "is_old T \<or> is_new T" "\<forall>j\<in>S. vote j a" "\<forall>j\<in>T. vote j b"
    and once: "\<forall>j x y. vote j x \<longrightarrow> vote j y \<longrightarrow> x = y"
  shows "a = b"
proof -
  have "S \<inter> T \<noteq> {}" using assms(1,2) old.meet new.meet cross by blast
  then show ?thesis using assms(3,4) once by blast
qed

end

lemma addServerConfig_voters:
  "voters (addServerConfig i a cfg) = (if i \<in> set (voters cfg) then voters cfg else voters cfg @ [i])"
  by (simp add: addServerConfig_def hasVoter_iff Let_def)

text \<open>Counting: disjoint quorums need more members than both configurations have together.\<close>

lemma disjoint_quorums:
  assumes "quorum c S" "quorum d T" "S \<inter> T = {}"
  shows "majority c + majority d \<le> card (set (voters c) \<union> set (voters d))"
proof -
  have f: "finite S" "finite T" "S \<union> T \<subseteq> set (voters c) \<union> set (voters d)"
    using assms(1,2) by (auto simp: quorum_def intro: finite_subset)
  have "majority c + majority d \<le> card S + card T" using assms(1,2) by (simp add: quorum_def)
  also have "\<dots> = card (S \<union> T)" using f assms(3) by (simp add: card_Un_disjoint)
  also have "\<dots> \<le> card (set (voters c) \<union> set (voters d))" using f(3) by (intro card_mono) simp_all
  finally show ?thesis .
qed

lemma add_cross:
  assumes "quorum cfg S" "quorum (addServerConfig i a cfg) T"
  shows "S \<inter> T \<noteq> {}"
proof
  assume "S \<inter> T = {}"
  note d = disjoint_quorums[OF assms this]
  show False
  proof (cases "i \<in> set (voters cfg)")
    case True
    then show False using d card_length[of "voters cfg"] by (simp add: majority_def addServerConfig_voters)
  next
    case False
    then have "card (set (voters cfg) \<union> set (voters (addServerConfig i a cfg))) \<le> length (voters cfg) + 1"
      using card_length[of "voters cfg"] by (simp add: addServerConfig_voters Un_absorb2 subset_insertI)
    then show False using d False by (simp add: majority_def addServerConfig_voters)
  qed
qed

lemma remove_cross:
  assumes "quorum cfg S" "quorum (removeServerConfig i cfg) T"
  shows "S \<inter> T \<noteq> {}"
proof
  assume "S \<inter> T = {}"
  note d = disjoint_quorums[OF assms this]
  let ?vs = "voters cfg" and ?ws = "removeAll i (voters cfg)"
  have un: "set ?vs \<union> (set ?vs - {i}) = set ?vs" by blast
  have "card (set ?vs) \<le> (if i \<in> set ?vs then length ?ws + 1 else length ?vs)"
  proof (cases "i \<in> set ?vs")
    case True
    then have "set ?vs = insert i (set ?ws)" by auto
    then have "card (set ?vs) \<le> card (set ?ws) + 1" by (metis card_insert_le_m1 List.finite_set card_insert_if le_add1 Suc_eq_plus1 order.refl)
    then show ?thesis using card_length[of ?ws] True by simp
  qed (simp add: card_length)
  moreover have "length ?ws \<le> length ?vs" "i \<in> set ?vs \<Longrightarrow> length ?ws < length ?vs"
    by (simp_all add: length_removeAll_less_eq length_removeAll_less)
  ultimately show False
    using d by (auto simp: majority_def removeServerConfig_def un split: if_splits)
qed

interpretation add: reconfiguration "quorum cfg" "quorum (addServerConfig i a cfg)" for cfg i a
  by unfold_locales (rule add_cross)

interpretation rem: reconfiguration "quorum cfg" "quorum (removeServerConfig i cfg)" for cfg i
  by unfold_locales (rule remove_cross)

text \<open>
  C9. One change at a time is safe. When a configuration and the one that \<open>addServer\<close> or \<open>removeServer\<close> makes of it are
  both in use, some nodes counting votes with the old and some with the new, two candidates that each have the votes
  of a majority in the same term are the same, as every node votes once in a term.
\<close>

theorem single_change_one_leader:
  assumes "cfg' = addServerConfig i a cfg \<or> cfg' = removeServerConfig i cfg" "cast_once c"
    and "quorum cfg S \<or> quorum cfg' S" "quorum cfg T \<or> quorum cfg' T"
    and "\<forall>j\<in>S. (j, t, x) \<in> cast c" "\<forall>j\<in>T. (j, t, y) \<in> cast c"
  shows "x = y"
proof -
  have once: "\<forall>j x y. (j, t, x) \<in> cast c \<longrightarrow> (j, t, y) \<in> cast c \<longrightarrow> x = y" using assms(2) by (auto simp: cast_once_def)
  show ?thesis
    using assms(1)
  proof
    assume "cfg' = addServerConfig i a cfg"
    with assms(3-6) once show ?thesis
      by (intro add.one_choice_across[of cfg S i a T "\<lambda>j x. (j, t, x) \<in> cast c"]) simp_all
  next
    assume "cfg' = removeServerConfig i cfg"
    with assms(3-6) once show ?thesis
      by (intro rem.one_choice_across[of cfg S i T "\<lambda>j x. (j, t, x) \<in> cast c"]) simp_all
  qed
qed

theorem single_change_one_leader_witness:
  "quorum \<lparr>voters = [1, 2, 3], addresses = []\<rparr> {1, 2} \<and>
   quorum (addServerConfig 4 [] \<lparr>voters = [1, 2, 3], addresses = []\<rparr>) {2, 3, 4} \<and>
   {y. {2, 3, 4} \<times> {1} \<times> {y} \<subseteq> cast (demo_cluster\<lparr>cast := {(1, 1, 1), (2, 1, 1), (3, 1, 1), (4, 1, 1)}\<rparr>)} = {1}"
proof -
  let ?cfg = "\<lparr>voters = [1, 2, 3], addresses = []\<rparr>" and ?c = "demo_cluster\<lparr>cast := {(1, 1, 1), (2, 1, 1), (3, 1, 1), (4, 1, 1)}\<rparr>"
  have q: "quorum ?cfg {1, 2}" "quorum (addServerConfig 4 [] ?cfg) {2, 3, 4}"
    by (simp_all add: quorum_def majority_def addServerConfig_voters)
  have once: "cast_once ?c" by (auto simp: cast_once_def)
  have "1 = y" if "\<forall>j\<in>{2, 3, 4}. (j, 1, y) \<in> cast ?c" for y
    by (rule single_change_one_leader[OF disjI1[OF refl] once disjI1[OF q(1)] disjI2[OF q(2)] _ that]) simp
  then have "{y. {2, 3, 4} \<times> {1} \<times> {y} \<subseteq> cast ?c} = {1}" by fastforce
  with q show ?thesis by blast
qed

section \<open>A change is applied\<close>

lemma applyConfig_encoded:
  assumes "config_ok cfg" "edata e = ClusterConfig_encode cfg []"
  shows "fst (applyConfigEntry e n) = Inr ()" "config (snd (applyConfigEntry e n)) = cfg"
proof -
  have fold: "config (fold (\<lambda>v n. if map_of (nextIndex n) v = None
        then n\<lparr>nextIndex := AList.update v (lastIndex (nlog n) + 1) (nextIndex n), matchIndex := AList.update v 0 (matchIndex n)\<rparr>
        else n) vs m) = config m" for vs m
    by (induction vs arbitrary: m) auto
  have "ClusterConfig_decode (mkReader (edata e)) = Inr (cfg, advance (length (edata e)) (mkReader (edata e)))"
    using ClusterConfig.dec_mkReader[OF assms(1)] assms(2) by simp
  then show "fst (applyConfigEntry e n) = Inr ()" "config (snd (applyConfigEntry e n)) = cfg"
    by (simp_all add: applyConfigEntry_def Let_def fold)
qed

lemma applyOne_config_entry:
  assumes "config_ok cfg" "edata e = ClusterConfig_encode cfg []" "etype e = Config"
  shows "fst (applyOne e n) = Inr ()" "config (snd (applyOne e n)) = cfg"
  using applyConfig_encoded[OF assms(1,2), of n] assms(3) by (simp_all add: applyOne_def abind_def)

lemma applyOne_config_entry_progress:
  assumes "etype e = Config"
  shows "matchIndex (snd (applyOne e n)) = matchIndex (snd (applyConfigEntry e n))"
    "nextIndex (snd (applyOne e n)) = nextIndex (snd (applyConfigEntry e n))"
  using assms by (simp_all add: applyOne_def abind_def split: sum.splits)

text \<open>The bookkeeping is in step: a voter has a next index exactly when it has a match index.\<close>

definition indices_ok :: "RaftNode \<Rightarrow> bool" where
  "indices_ok n \<longleftrightarrow> fst ` set (nextIndex n) = fst ` set (matchIndex n)"

definition trackVoter :: "NodeId \<Rightarrow> RaftNode \<Rightarrow> RaftNode" where
  "trackVoter v n = (if map_of (nextIndex n) v = None
      then n\<lparr>nextIndex := AList.update v (lastIndex (nlog n) + 1) (nextIndex n), matchIndex := AList.update v 0 (matchIndex n)\<rparr>
      else n)"

text \<open>The keys of the match indices, which are those of the next indices.\<close>

abbreviation tracked :: "RaftNode \<Rightarrow> NodeId set" where
  "tracked n \<equiv> fst ` set (matchIndex n)"

lemma trackVoter_one:
  assumes "indices_ok n" "distinct (map fst (matchIndex n))"
  shows "indices_ok (trackVoter v n)" "distinct (map fst (matchIndex (trackVoter v n)))" "tracked (trackVoter v n) = insert v (tracked n)"
    "map_of (matchIndex (trackVoter v n)) w = (if w = v \<and> v \<notin> tracked n then Some 0 else map_of (matchIndex n) w)"
    "nextOf w (trackVoter v n) = (if w = v \<and> v \<notin> tracked n then lastIndex (nlog n) + 1 else nextOf w n)"
    "nlog (trackVoter v n) = nlog n"
proof -
  have k: "map_of (nextIndex n) v = None \<longleftrightarrow> v \<notin> tracked n" using assms(1) by (simp add: indices_ok_def map_of_eq_None_iff)
  show "indices_ok (trackVoter v n)" "distinct (map fst (matchIndex (trackVoter v n)))" "tracked (trackVoter v n) = insert v (tracked n)"
    "map_of (matchIndex (trackVoter v n)) w = (if w = v \<and> v \<notin> tracked n then Some 0 else map_of (matchIndex n) w)"
    "nextOf w (trackVoter v n) = (if w = v \<and> v \<notin> tracked n then lastIndex (nlog n) + 1 else nextOf w n)"
    "nlog (trackVoter v n) = nlog n"
    using assms by (auto simp: trackVoter_def k indices_ok_def dom_update distinct_update update_conv' nextOf_def)
qed

lemma trackVoters:
  assumes "indices_ok n" "distinct (map fst (matchIndex n))"
  shows "indices_ok (fold trackVoter vs n) \<and> distinct (map fst (matchIndex (fold trackVoter vs n))) \<and>
    tracked (fold trackVoter vs n) = tracked n \<union> set vs \<and>
    (\<forall>w. map_of (matchIndex (fold trackVoter vs n)) w = (if w \<in> set vs - tracked n then Some 0 else map_of (matchIndex n) w) \<and>
      nextOf w (fold trackVoter vs n) = (if w \<in> set vs - tracked n then lastIndex (nlog n) + 1 else nextOf w n))"
  using assms
proof (induction vs arbitrary: n)
  case (Cons v vs)
  note T = trackVoter_one[OF Cons.prems, where v = v]
  show ?case using Cons.IH[OF T(1,2)] T(3-6) by auto
qed simp

lemma applyConfig_tracks:
  assumes "config_ok cfg" "edata e = ClusterConfig_encode cfg []" "role n = Leader"
  shows "snd (applyConfigEntry e n) = fold trackVoter (voters cfg) (n\<lparr>config := cfg\<rparr>)"
proof -
  have "ClusterConfig_decode (mkReader (edata e)) = Inr (cfg, advance (length (edata e)) (mkReader (edata e)))"
    using ClusterConfig.dec_mkReader[OF assms(1)] assms(2) by simp
  moreover have "trackVoter = (\<lambda>v n. if map_of (nextIndex n) v = None
      then n\<lparr>nextIndex := AList.update v (lastIndex (nlog n) + 1) (nextIndex n), matchIndex := AList.update v 0 (matchIndex n)\<rparr>
      else n)" by (simp add: trackVoter_def fun_eq_iff)
  ultimately show ?thesis using assms(3) by (simp add: applyConfigEntry_def Let_def)
qed


definition demo_change :: LogEntry where
  "demo_change = \<lparr>eterm = 2, eindex = 4, etype = Config, edata = ClusterConfig_encode (addServerConfig 4 [] demo_config) []\<rparr>"


section \<open>Changes the code does not keep apart\<close>

lemma addServer_appends:
  assumes "role n = Leader" "log_wf (nlog n)" "unat (lastIndex (nlog n)) + 1 < 2 ^ 64"
  obtains e where "entries (nlog (snd (addServer i a n))) = entries (nlog n) @ [e]" "log_wf (nlog (snd (addServer i a n)))"
    "etype e = Config" "edata e = ClusterConfig_encode (addServerConfig i a (config n)) []"
    "role (snd (addServer i a n)) = Leader" "lastIndex (nlog (snd (addServer i a n))) = lastIndex (nlog n) + 1"
proof -
  let ?b = "ClusterConfig_encode (addServerConfig i a (config n)) []"
  let ?e = "\<lparr>eterm = node_term n, eindex = lastIndex (nlog n) + 1, etype = Config, edata = ?b\<rparr>"
  have "nlog (snd (addServer i a n)) = appendAndSync [?e] (nlog n)"
    using assms(1) tryAdvanceCommitIndex_frame[of "n\<lparr>nlog := appendAndSync [?e] (nlog n)\<rparr>"]
    by (simp add: addServer_def propose_def Let_def fst_snd_abind frame_def split: sum.splits)
  then show thesis
    using append_one[OF assms(2,3), of ?e] propose_frame_role[of ?b Config n] assms(1)
    by (intro that[of ?e]) (simp_all add: addServer_def)
qed

text \<open>
  C37. Two changes at a time are not kept apart. A leader that is asked to add a second server before it has applied the
  entry for the first builds both configurations from the same one. Both entries are in the log; when they are
  applied the first server is a voter after the first and no longer after the second, although nobody removed it.
  And the two configurations differ in two servers: with an even number of old voters they have majorities with no common
  member, which is what changing one server at a time is to exclude.
\<close>

theorem concurrent_changes_conflict:
  assumes "role n = Leader" "log_wf (nlog n)" "unat (lastIndex (nlog n)) + 2 < 2 ^ 64"
    and "config (snd (addServer i a n)) = config n" "i \<notin> set (voters (config n))" "j \<notin> set (voters (config n))" "i \<noteq> j"
    and "config_ok (addServerConfig i a (config n))" "config_ok (addServerConfig j b (config n))"
    and "distinct (voters (config n))" "even (length (voters (config n)))"
  shows "\<exists>e1 e2. entries (nlog (snd (addServer j b (snd (addServer i a n))))) = entries (nlog n) @ [e1, e2] \<and>
    (\<forall>m. let m1 = snd (applyOne e1 m); m2 = snd (applyOne e2 m1) in
      i \<in> set (voters (config m1)) \<and> i \<notin> set (voters (config m2)) \<and> j \<in> set (voters (config m2)) \<and>
      (\<exists>S T. quorum (config m1) S \<and> quorum (config m2) T \<and> S \<inter> T = {}))"
proof -
  let ?n1 = "snd (addServer i a n)" and ?vs = "voters (config n)"
  let ?c1 = "addServerConfig i a (config n)" and ?c2 = "addServerConfig j b (config n)" and ?k = "length ?vs div 2"
  have b: "unat (lastIndex (nlog n)) + 1 < 2 ^ 64" using assms(3) by simp
  obtain e1 where e1: "entries (nlog ?n1) = entries (nlog n) @ [e1]" "log_wf (nlog ?n1)" "etype e1 = Config"
      "edata e1 = ClusterConfig_encode ?c1 []" "role ?n1 = Leader" "lastIndex (nlog ?n1) = lastIndex (nlog n) + 1"
    by (rule addServer_appends[OF assms(1,2) b])
  have b1: "unat (lastIndex (nlog ?n1)) + 1 < 2 ^ 64" using e1(6) assms(3) by (simp add: unat_plus_1)
  obtain e2 where e2: "entries (nlog (snd (addServer j b ?n1))) = entries (nlog ?n1) @ [e2]" "etype e2 = Config"
      "edata e2 = ClusterConfig_encode ?c2 []"
    by (rule addServer_appends[OF e1(5,2) b1]) (simp only: assms(4))
  have v: "voters ?c1 = ?vs @ [i]" "voters ?c2 = ?vs @ [j]" using assms(5,6) by (simp_all add: addServerConfig_voters)
  have len: "length ?vs = ?k + ?k" using assms(11) by auto
  have "quorum ?c1 (insert i (set (take ?k ?vs)))" "quorum ?c2 (insert j (set (drop ?k ?vs)))"
    using assms(5,6,10) len set_take_subset[of ?k ?vs] set_drop_subset[of ?k ?vs]
    by (auto simp: quorum_def majority_def v card_insert_if distinct_card distinct_take distinct_drop dest: in_set_takeD in_set_dropD)
  moreover have "insert i (set (take ?k ?vs)) \<inter> insert j (set (drop ?k ?vs)) = {}"
    using assms(5-7,10) set_take_disj_set_drop_if_distinct[OF assms(10) order.refl, of ?k] by (auto dest: in_set_takeD in_set_dropD)
  ultimately have "\<exists>S T. quorum ?c1 S \<and> quorum ?c2 T \<and> S \<inter> T = {}" by blast
  moreover have "config (snd (applyOne e1 m)) = ?c1" "config (snd (applyOne e2 m)) = ?c2" for m
    using applyOne_config_entry(2)[OF assms(8) e1(4,3)] applyOne_config_entry(2)[OF assms(9) e2(3,2)] by simp_all
  ultimately show ?thesis
    using e1(1) e2(1) assms(5-7) by (intro exI[of _ e1] exI[of _ e2]) (simp add: v Let_def)
qed

definition demo_pair :: RaftNode where
  "demo_pair = (demo_node 1)\<lparr>role := Leader, config := \<lparr>voters = [1, 2], addresses = []\<rparr>,
     nlog := setHardState 1 1 (loadFromDisk Map.empty), nextIndex := [(1, 1), (2, 1)], matchIndex := [(1, 0), (2, 0)]\<rparr>"

lemma demo_pair_fields:
  "role demo_pair = Leader" "log_wf (nlog demo_pair)" "lastIndex (nlog demo_pair) = 0" "config demo_pair = \<lparr>voters = [1, 2], addresses = []\<rparr>"
  "config (snd (addServer 3 [] demo_pair)) = config demo_pair" "entries (nlog demo_pair) = []"
  by (simp_all add: demo_pair_def demo_node_def empty_log log_wf_def lastIndex_def addServer_def propose_def Let_def
      tryAdvanceCommitIndex_def matches_def appendAndSync_def rewriteWalLocked_def setHardState_def writeHardStateLocked_def)

theorem concurrent_changes_conflict_witness:
  "\<exists>e1 e2. entries (nlog (snd (addServer 4 [] (snd (addServer 3 [] demo_pair))))) = [e1, e2] \<and>
     3 \<notin> set (voters (config (snd (applyOne e2 (snd (applyOne e1 demo_pair)))))) \<and>
     (\<exists>S T. quorum (config (snd (applyOne e1 demo_pair))) S \<and>
        quorum (config (snd (applyOne e2 (snd (applyOne e1 demo_pair))))) T \<and> S \<inter> T = {})"
proof -
  have ok: "config_ok (addServerConfig i [] (config demo_pair))" for i
    by (simp add: config_ok_def addServerConfig_def demo_pair_fields hasVoter_iff)
  show ?thesis
    using concurrent_changes_conflict[of demo_pair 3 "[]" 4 "[]", OF demo_pair_fields(1,2) _ demo_pair_fields(5) _ _ _ ok ok]
    by (simp add: demo_pair_fields Let_def) blast
qed

text \<open>
  A voter that was removed still counts. The entry that removes it leaves its match index, and the commit rule takes
  every match index: a leader of the two voters that are left commits an entry that only it and the removed
  server hold.
\<close>

theorem removed_voter_commits:
  assumes n: "role n = Leader" "voters (config n) = [x, y, z]" "distinct [x, y, z]" "node_id n = x"
    and i: "matchIndex n = [(x, mx), (y, my), (z, lastIndex (nlog n))]" "indices_ok n" "my < lastIndex (nlog n)" "commitIndex n < lastIndex (nlog n)"
    and e: "etype e = Config" "edata e = ClusterConfig_encode (removeServerConfig z (config n)) []" "config_ok (removeServerConfig z (config n))"
    and t: "termAt (lastIndex (nlog n)) (nlog n) = node_term n"
  shows "let n' = snd (applyOne e n) in voters (config n') = [x, y] \<and>
    commitIndex (snd (tryAdvanceCommitIndex n')) = lastIndex (nlog n') \<and>
    \<not> quorum (config n') (replicated n' (lastIndex (nlog n')) \<inter> set (voters (config n')))"
proof -
  let ?n = "snd (applyOne e n)" and ?i = "lastIndex (nlog n)"
  have v: "voters (removeServerConfig z (config n)) = [x, y]" using n(2,3) by (auto simp: removeServerConfig_def)
  have fr: "nlog ?n = nlog n" "opts ?n = opts n" "role ?n = Leader" "commitIndex ?n = commitIndex n"
    using applyOne_frame[of n e] n(1) by (simp_all add: frame_defs)
  have c: "config ?n = removeServerConfig z (config n)" by (rule applyOne_config_entry(2)[OF e(3,2,1)])
  have "map_of (nextIndex n) x \<noteq> None" "map_of (nextIndex n) y \<noteq> None"
    using i(1,2) by (auto simp: indices_ok_def map_of_eq_None_iff)
  then have m: "matchIndex ?n = matchIndex n"
    using applyOne_config_entry_progress(1)[OF e(1), of n] applyConfig_tracks[OF e(3,2) n(1)] v by (auto simp: trackVoter_def)
  have "matches ?n = [?i, ?i, my]"
    using m i(1,3) n(3,4) fr(1,2) by (auto simp: matches_def)
  then have "commitIndex (snd (tryAdvanceCommitIndex ?n)) = ?i"
    using fr i(4) t c v by (simp add: tryAdvanceCommitIndex_def applyCommittedEntries_frame)
  moreover have "replicated ?n ?i \<inter> {x, y} \<subseteq> {x}"
    using m i(1,3) n(3,4) fr(1,2) by (auto simp: replicated_def)
  then have "card (replicated ?n ?i \<inter> {x, y}) \<le> 1" using card_mono[of "{x}"] by simp
  ultimately show ?thesis using c v fr(1) by (simp add: Let_def quorum_def majority_def)
qed

definition demo_removal :: LogEntry where
  "demo_removal = \<lparr>eterm = 2, eindex = 3, etype = Config, edata = ClusterConfig_encode (removeServerConfig 3 demo_config) []\<rparr>"

theorem removed_voter_commits_witness:
  "let n = demo_leader\<lparr>matchIndex := [(1, 0), (2, 0), (3, 3)]\<rparr>; n' = snd (applyOne demo_removal n) in
     voters (config n') = [1, 2] \<and> commitIndex (snd (tryAdvanceCommitIndex n')) = lastIndex (nlog n')"
proof -
  let ?n = "demo_leader\<lparr>matchIndex := [(1, 0), (2, 0), (3, 3)]\<rparr>"
  have l: "lastIndex sample_log = 3" "termAt 3 sample_log = 2"
    by (simp_all add: lastIndex_def termAt_def sample_log_fields mkEntry_def)
  have "indices_ok ?n" by (simp add: indices_ok_def demo_leader_def)
  moreover have "config_ok (removeServerConfig 3 demo_config)" by (simp add: config_ok_def removeServerConfig_def demo_config_def)
  ultimately show ?thesis
    using removed_voter_commits[of ?n 1 2 3 0 0 demo_removal] l by (simp add: demo_config_def demo_removal_def Let_def)
qed

end
