(* ===== verification/Spec2Isabelle.thy ===== *)
theory Spec2Isabelle
  imports Node_Main Worker_Pool Raft_Lost_Write Raft_Write Raft_Membership
begin

text \<open>
  Verification of a sharded key-value store replicated with Raft (\<^verbatim>\<open>src/keyper-cpp/src\<close>).

  \<^bold>\<open>The program.\<close> A node process (\<^verbatim>\<open>server/main.cpp\<close>) holds a member of the Raft group of a shard. A client
  (\<^verbatim>\<open>client/client.h\<close>) sends framed requests over TCP to \<^verbatim>\<open>server/kv_server.h\<close>, whose workers read the frames,
  ask \<^verbatim>\<open>shard/shard_manager.h\<close> (and its ring, \<^verbatim>\<open>shard/hash_ring.h\<close>) which group a key belongs to, and read
  its store or propose a command to its Raft node (\<^verbatim>\<open>raft/raft_node.cpp\<close>). The node appends the command
  to its durable log (\<^verbatim>\<open>raft/persistent_log.h\<close>), replicates it to the other members through
  \<^verbatim>\<open>net/transport.h\<close>, commits it when a majority holds it and applies it to \<^verbatim>\<open>kv/kv_store.h\<close>. Peers are reached
  over \<^verbatim>\<open>net/tcp_transport.h\<close> and answered by \<^verbatim>\<open>server/peer_server.h\<close>; in tests \<^verbatim>\<open>net/test_transport.h\<close>
  stands for the network and injects faults.

  \<^bold>\<open>Theories and sources.\<close>
    \<^item> \<open>Prelude\<close>: words, byte strings, results with exceptions. \<open>Std_Text\<close>: what the code uses of strings,
      decimal numbers and lines of the standard library.
    \<^item> \<open>Buffer\<close> (\<^verbatim>\<open>util/buffer.h\<close>: \<open>Writer\<close>, \<open>Reader\<close>), \<open>Raft_Types\<close> (\<^verbatim>\<open>raft/types.h\<close>), \<open>Rpc_Messages\<close>
      (\<^verbatim>\<open>raft/rpc_messages.h\<close>): data and encodings. The locale \<open>codec\<close> is their contract.
    \<^item> \<open>State_Machine\<close> (\<^verbatim>\<open>raft/state_machine.h\<close>, the locale \<open>state_machine\<close>) and \<open>Kv_Store\<close>, its
      interpretation on \<open>KvStore_apply\<close>, \<open>KvStore_snapshot\<close> and \<open>KvStore_restore\<close>.
    \<^item> \<open>Persistent_Log\<close>: the class's fields and its directory, a map from names to contents. Each operation is the
      list of file operations it does, so that a crash can fall between or inside them.
    \<^item> \<open>Raft_Node\<close>: the fields of \<open>RaftNode\<close> as a record and one definition for each locked section, handler,
      callback, timer round and client call. Messages to peers go to an outbox.
    \<^item> \<open>Raft_Election\<close>, \<open>Raft_Commit\<close>, \<open>Raft_Replication\<close>, \<open>Raft_Single\<close>: properties of one node and of
      a pair. \<open>Raft_Cluster\<close>: a step relation on whole clusters with a fixed configuration, with lost, delayed
      and reordered messages, crashes and restarts. Appends, snapshots and their replies may also be
      delivered twice, votes only once (\<open>duplicate_vote_elects\<close> is why). The locale \<open>quorum_system\<close>
      is interpreted on the majorities the code counts.
    \<^item> \<open>Raft_Log_Matching\<close>: the logs of the reachable clusters, for runs in which no log is compacted and no counter
      wraps (\<open>uncompacted\<close>); \<open>loginv\<close> relates every log and every message to one set of histories closed under
      prefixes. \<open>Raft_Progress\<close>: runs to a leader and the follower that stays behind. \<open>Raft_Write\<close>: a write in a group of several
      nodes. \<open>Raft_Membership\<close>: changes of the configuration; its locale \<open>reconfiguration\<close>, two quorum systems that meet, is interpreted on
      adding and on removing a server. \<open>Raft_Lost_Write\<close>: a run of three nodes in which a committed write disappears.
    \<^item> \<open>Hash_Ring\<close>, \<open>Shard_Manager\<close>: routing and the migration of ranges.
    \<^item> \<open>Sys_Calls\<close> (the calls of the operating system, the parameter \<open>Sys\<close>, and the functions of \<^verbatim>\<open>net/wire.h\<close> that
      only make them) and \<open>Wire\<close> (its frames), \<open>Sockets\<close> (connections as a transport and a client see them), \<open>Event_Loop\<close>
      (\<^verbatim>\<open>net/event_loop.h\<close>, for epoll and for kqueue), \<open>Tcp_Transport\<close>, \<open>Peer_Server\<close>, \<open>Kv_Server\<close>, \<open>Kv_Client\<close>, \<open>Node_Main\<close>, \<open>Test_Transport\<close>: the processes and
      the network between them. \<open>Worker_Pool\<close>: the threads of the two transports and their condition variables; the locale
      \<open>worker_pool\<close> is interpreted on both queues.

  \<^bold>\<open>What is shown.\<close> Consensus: at most one leader of a term in every reachable cluster (C1); log matching and the
  type of the logs in every such run (C2, C10); from every reachable cluster a leader can be elected by messages and timeouts
  alone (C3), and a write in a group of several nodes is committed, applied and answered once a majority replies (C4); what a
  replication round leaves on a follower, and which requests it rejects (C5, C19); what may
  be committed, the order of application and the agreement of replicas (C6--C8). Changes of the configuration: one leader of a
  term during a single change, and what applying one does (C9, C28). Durability: recovery of
  the log, atomicity of its writes under a crash, snapshots and a restarted process
  (C11--C13, C16, C24, C25). The store refines a map and answers a repeated request once
  (C17, C18, C23). End to end: a client's operations over the network are those of the abstract store, and so are a
  server's answers, pipelined requests included (C14, C15, C26); an RPC over TCP is the handler's call (C20), and a
  transport leaves no descriptor open and runs every call, its threads ending when it is destroyed (C21, C22).
  Routing and migration (C27, C29, C30). Encodings and frames (C31, C32). The connections of a server and the test network
  (C33, C34). Behaviours that a user of the code should know (C35--C40): a committed write that is lost, a follower that is
  never brought up to date, two changes of the configuration at a time, reads without a
  quorum, repeated writes after a lost answer, and a length that wraps; beside them, as theorems of their theories,
  votes counted twice, a stale election win, a stale append, the count of a removed voter and a
  test network that cannot be destroyed; torn log files, appends and compactions, the list of peers and a started process
  have theorems there too.
  Each of these is a theorem on the code as it is, with a concrete run as its witness or statement.

  \<^bold>\<open>Modelling choices.\<close> Integers keep their widths as words. Exceptions are values of \<^typ>\<open>error\<close>. The
  mutex-protected sections are atomic steps; where the code waits on a condition variable, the change that the other
  threads make meanwhile is an argument (\<open>others\<close>), so that a theorem holds for every such change or states
  which it assumes. The clock, random numbers, the room in a socket's buffer and what arrives on it are
  arguments; \<open>Net\<close> connects and closes by the system calls (\<open>sysNet\<close>) and is instantiated by \<open>peer_net\<close> and \<open>server_net\<close>, which connect the modelled client
  and transport to the modelled servers. The floating-point probabilities of the test network are real
  numbers. Hash maps are maps, or association lists where the code iterates over them.
  The theorems on clients and servers against the abstract store (C14--C16) are on groups of one node
  (\<open>alone\<close>), in which no wait depends on another node; C4 is the path of a write through
  a larger group, and C26 holds for any change during the waits.

  \<^bold>\<open>Termination.\<close> Every loop is structurally recursive or has its termination proof, except the server's
  loop over frames, \<open>drain\<close>, a \<^theory_text>\<open>partial_function\<close> in which \<^term>\<open>None\<close> is a loop that does not end: it
  returns on well-formed input (C15, C26) and does not on one malformed frame (C40). No definition has fuel; the
  five attempts of the client are the code's own bound. The endless loops of threads are one definition per
  round, and step relations where their order matters (\<open>cstep\<close>, \<open>server_step\<close>, \<open>worker_step\<close>).

  \<^bold>\<open>Not modelled.\<close> The joining of threads beyond \<open>Worker_Pool\<close>, the log line and the sleep in \<^verbatim>\<open>main\<close>, which have no state; what the
  kernel does in a system call, which is the parameter \<open>Sys\<close> with \<open>sys_ok\<close>, and in a wait for events, which is an
  argument constrained by \<open>epoll_ok\<close>. Data races between threads outside a lock, which the findings name, have no
  counterpart in steps that are atomic. Leader completeness over whole clusters does not hold of this code: a
  follower can drop entries it has acknowledged, and C35 is a run in which a committed entry is lost by it. For the same
  kind of reason C3 and C4 say what can happen and not that it always does: C36 is a follower that no exchange repairs.
  Log matching is not shown for runs with compaction, in which an append below a snapshot misaligns a log
  (\<open>append_below_snapshot_misaligns\<close>). Changes of the configuration are not steps of the clusters, as each node counts with the
  configuration it has applied; \<open>Raft_Membership\<close> shows what holds of two configurations in use at once.
\<close>

section \<open>A restart\<close>


text \<open>A leader alone in its group with one write in its log.\<close>

definition demo_put :: LogEntry where
  "demo_put = \<lparr>eterm = 1, eindex = 1, etype = Command, edata = KvCommand_encode (sample_put [1] [2] 42 1)\<rparr>"

definition demo_written :: "KvStore \<Rightarrow> RaftNode" where
  "demo_written s = demo_single\<lparr>nlog := appendAndSync [demo_put] (nlog demo_single), lastApplied := 1, commitIndex := 1, sm := s\<rparr>"

lemma demo_single_log: "nlog demo_single = setHardState 1 1 (loadFromDisk Map.empty)"
  by (simp add: demo_single_def)

lemma demo_written_log:
  "log_wf (nlog (demo_written s))" "entries (nlog (demo_written s)) = [demo_put]" "lastIndex (nlog (demo_written s)) = 1"
  "synced (nlog (demo_written s))" "snapshotIndex (nlog (demo_written s)) = 0" "loadSnapshotBytes (nlog (demo_written s)) = None"
proof -
  let ?L = "nlog demo_single"
  have L: "log_wf ?L" "lastIndex ?L = 0" "entries ?L = []" "snapshotIndex ?L = 0"
    using demo_single_alone(1,3) by (simp_all add: alone_def demo_single_log empty_log)
  have "synced (loadFromDisk Map.empty)" by (simp add: synced_def loadFromDisk_def)
  then have sy: "synced ?L" unfolding demo_single_log by (rule synced_setHardState)
  note A = append_one[OF L(1), of demo_put]
  show "log_wf (nlog (demo_written s))" "entries (nlog (demo_written s)) = [demo_put]" "lastIndex (nlog (demo_written s)) = 1"
    "snapshotIndex (nlog (demo_written s)) = 0"
    using A L by (simp_all add: demo_written_def demo_put_def)
  have "entry_ok demo_put"
    by (simp add: entry_ok_def demo_put_def KvCommand_encode_def sample_put_def put_append)
  then show "synced (nlog (demo_written s))" using synced_appendAndSync[OF sy, of "[demo_put]"] L(3) by (simp add: demo_written_def)
  show "loadSnapshotBytes (nlog (demo_written s)) = None"
    by (simp add: demo_written_def demo_single_log loadSnapshotBytes_def appendAndSync_disk setHardState_disk empty_log)
qed


end
